(* ===== verification/Prelude.thy ===== *)
theory Prelude
  imports Main "HOL-Library.Word" "HOL-Library.Monad_Syntax" "HOL-Library.Multiset"
begin

text \<open>
  Shared vocabulary of the development: the Rust integer and fixed-byte types, the standard
  library operations the sources use on them, \<open>Result\<close> and panics, big-endian byte strings, and
  the transition-system interface used for every component that evolves step by step.

  \<^item> \<open>u8\<close>, \<open>u32\<close>, \<open>u64\<close>, \<open>u128\<close>, \<open>u256\<close> are machine words; \<open>+\<close>, \<open>-\<close>, \<open>*\<close> wrap, which is the
    behaviour of the release profile of the crate (no overflow checks).
  \<^item> \<open>Address\<close>, \<open>B256\<close>, \<open>FixedBytes<48>\<close> and \<open>FixedBytes<96>\<close> are words of their width: the
    byte-wise order of the source is the numeric order of the word.
  \<^item> \<open>Result<T, E>\<close> is \<open>'e + 'a\<close> with \<open>Inl\<close> the error. A panic (index out of range, division
    by zero, a failed assertion) is \<open>None\<close> of an \<open>option\<close> around the result.
\<close>

section \<open>Types\<close>

type_synonym u8 = "8 word"
type_synonym u32 = "32 word"
type_synonym u64 = "64 word"
type_synonym u128 = "128 word"
type_synonym u256 = "256 word"
type_synonym i32 = "32 word"
type_synonym i64 = "64 word"
type_synonym address = "160 word"
type_synonym b256 = "256 word"
type_synonym vote_address = "384 word"
type_synonym vote_signature = "768 word"
type_synonym bytes = "u8 list"

named_theorems rust_std \<open>definitions of the Rust standard library operations\<close>
named_theorems result_simps \<open>unfolding of Result and Option plumbing\<close>
named_theorems panic_free \<open>facts that an operation returns instead of panicking\<close>

section \<open>Result and Option\<close>

definition res_bind :: "'e + 'a \<Rightarrow> ('a \<Rightarrow> 'e + 'b) \<Rightarrow> 'e + 'b" where
  "res_bind r f = (case r of Inl e \<Rightarrow> Inl e | Inr a \<Rightarrow> f a)"

definition ok_or :: "'a option \<Rightarrow> 'e \<Rightarrow> 'e + 'a" where
  "ok_or x e = (case x of None \<Rightarrow> Inl e | Some a \<Rightarrow> Inr a)"

definition res_ok :: "'e + 'a \<Rightarrow> 'a option" where
  "res_ok r = (case r of Inl _ \<Rightarrow> None | Inr a \<Rightarrow> Some a)"

definition is_ok :: "'e + 'a \<Rightarrow> bool" where
  "is_ok r = (case r of Inl _ \<Rightarrow> False | Inr _ \<Rightarrow> True)"

definition unwrap_or :: "'a option \<Rightarrow> 'a \<Rightarrow> 'a" where
  "unwrap_or x d = (case x of None \<Rightarrow> d | Some a \<Rightarrow> a)"

definition guard :: "bool \<Rightarrow> 'e \<Rightarrow> 'e + unit" where
  "guard b e = (if b then Inr () else Inl e)"

lemma res_bind_simps [simp]:
  "res_bind (Inl e) f = Inl e"
  "res_bind (Inr a) f = f a"
  by (simp_all add: res_bind_def)

lemma res_bind_eq_Inr [simp]:
  "res_bind r f = Inr b \<longleftrightarrow> (\<exists>a. r = Inr a \<and> f a = Inr b)"
  by (cases r) simp_all

lemma ok_or_simps [simp]:
  "ok_or None e = Inl e"
  "ok_or (Some a) e = Inr a"
  by (simp_all add: ok_or_def)

lemma ok_or_eq_Inr [simp]: "ok_or x e = Inr a \<longleftrightarrow> x = Some a"
  by (cases x) simp_all

lemma res_ok_simps [simp]:
  "res_ok (Inl e) = None"
  "res_ok (Inr a) = Some a"
  by (simp_all add: res_ok_def)

lemma is_ok_simps [simp]:
  "is_ok (Inr a) = True"
  "is_ok (Inl e) = False"
  by (simp_all add: is_ok_def)

lemma is_ok_iff: "is_ok r \<longleftrightarrow> (\<exists>a. r = Inr a)"
  by (cases r) simp_all

lemma unwrap_or_simps [simp]:
  "unwrap_or None d = d"
  "unwrap_or (Some a) d = a"
  by (simp_all add: unwrap_or_def)

lemma guard_eq_Inr [simp]: "guard b e = Inr u \<longleftrightarrow> b"
  by (simp add: guard_def)

lemma guard_True [simp]: "guard True e = Inr ()"
  by (simp add: guard_def)

lemma guard_False [simp]: "guard False e = Inl e"
  by (simp add: guard_def)

lemmas [result_simps] = res_bind_def ok_or_def res_ok_def unwrap_or_def guard_def

section \<open>Fixed-width arithmetic\<close>

lemma unat_lt2p: "unat (w :: 'a::len word) < 2 ^ LENGTH('a)"
  by (rule unsigned_less)

definition saturating_sub :: "'a::len word \<Rightarrow> 'a word \<Rightarrow> 'a word" where
  [rust_std]: "saturating_sub a b = (if b \<le> a then a - b else 0)"

definition checked_add :: "'a::len word \<Rightarrow> 'a word \<Rightarrow> 'a word option" where
  [rust_std]: "checked_add a b =
     (if unat a + unat b < 2 ^ LENGTH('a) then Some (a + b) else None)"

definition checked_sub :: "'a::len word \<Rightarrow> 'a word \<Rightarrow> 'a word option" where
  [rust_std]: "checked_sub a b = (if b \<le> a then Some (a - b) else None)"

definition checked_div :: "'a::len word \<Rightarrow> 'a word \<Rightarrow> 'a word option" where
  [rust_std]: "checked_div a b = (if b = 0 then None else Some (a div b))"

definition checked_rem :: "'a::len word \<Rightarrow> 'a word \<Rightarrow> 'a word option" where
  [rust_std]: "checked_rem a b = (if b = 0 then None else Some (a mod b))"

text \<open>\<open>u64::is_multiple_of\<close>: a zero divisor is a multiple of zero only.\<close>

definition is_multiple_of :: "'a::len word \<Rightarrow> 'a word \<Rightarrow> bool" where
  [rust_std]: "is_multiple_of a b = (if b = 0 then a = 0 else a mod b = 0)"

definition u64_max :: u64 where
  "u64_max = 18446744073709551615"

definition saturating_add :: "u64 \<Rightarrow> u64 \<Rightarrow> u64" where
  [rust_std]: "saturating_add a b = (if a \<le> u64_max - b then a + b else u64_max)"

lemma unat_u64_max [simp]: "unat u64_max = 2 ^ 64 - 1"
  by (simp add: u64_max_def)

text \<open>The signed reading of a word, by its unsigned value.\<close>

lemma sint_low:
  fixes w :: "'a::len word"
  assumes "unat w < 2 ^ (LENGTH('a) - 1)"
  shows "sint w = int (unat w)"
proof -
  have "int (unat w) < int (2 ^ (LENGTH('a) - 1))"
    using assms by (simp only: of_nat_less_iff)
  then have "uint w < 2 ^ (LENGTH('a) - 1)" by simp
  then have "signed_take_bit (LENGTH('a) - 1) (uint w) = uint w"
    by (intro signed_take_bit_int_eq_self) (simp_all add: order_trans [of _ 0])
  then show ?thesis by (simp add: sint_uint)
qed

lemma sint_high:
  fixes w :: "'a::len word"
  assumes "2 ^ (LENGTH('a) - 1) \<le> unat w"
  shows "sint w = int (unat w) - 2 ^ LENGTH('a)"
proof -
  define n where "n = LENGTH('a) - 1"
  have L: "LENGTH('a) = Suc n" by (simp add: n_def)
  have "int (2 ^ n) \<le> int (unat w)"
    using assms by (simp only: of_nat_le_iff n_def)
  then have lo: "2 ^ n \<le> uint w" by simp
  have hi: "uint w < 2 ^ Suc n" using uint_lt2p [of w] by (simp add: L)
  have "sint w = take_bit (Suc n) (uint w + 2 ^ n) - 2 ^ n"
    by (simp add: sint_uint n_def signed_take_bit_eq_take_bit_shift)
  also have "take_bit (Suc n) (uint w + 2 ^ n) = uint w + 2 ^ n - 2 ^ Suc n"
  proof -
    have "(uint w + 2 ^ n) mod 2 ^ Suc n = (uint w + 2 ^ n - 2 ^ Suc n) mod 2 ^ Suc n"
      by (rule minus_mod_self2 [symmetric])
    also have "\<dots> = uint w + 2 ^ n - 2 ^ Suc n"
      using lo hi by (intro mod_pos_pos_trivial) simp_all
    finally show ?thesis by (simp add: take_bit_eq_mod)
  qed
  finally show ?thesis by (simp add: L)
qed

lemma sint_nonneg_iff:
  fixes w :: "'a::len word"
  shows "0 \<le> sint w \<longleftrightarrow> unat w < 2 ^ (LENGTH('a) - 1)"
proof (cases "unat w < 2 ^ (LENGTH('a) - 1)")
  case True
  then show ?thesis by (simp add: sint_low)
next
  case False
  then have "sint w = int (unat w) - 2 ^ LENGTH('a)" by (intro sint_high) simp
  moreover have "int (unat w) < 2 ^ LENGTH('a)"
    using unsigned_less [of w, where 'a = int] by (simp only: int_nat_eq uint_nat)
  ultimately have "sint w < 0" by linarith
  with False show ?thesis by simp
qed

lemma unat_ucast_up:
  fixes w :: "'a::len word"
  assumes "LENGTH('a) \<le> LENGTH('b)"
  shows "unat (ucast w :: 'b::len word) = unat w"
proof -
  have "unat w < 2 ^ LENGTH('b)"
    using unat_lt2p [of w] assms by (meson less_le_trans one_le_numeral power_increasing)
  then show ?thesis by (simp add: unsigned_ucast_eq take_bit_nat_eq_self)
qed

lemma ucast_ucast_up:
  fixes w :: "'a::len word"
  assumes "LENGTH('a) \<le> LENGTH('b)"
  shows "ucast (ucast w :: 'b::len word) = w"
proof -
  have "unat (ucast (ucast w :: 'b word) :: 'a word) = take_bit LENGTH('a) (unat (ucast w :: 'b word))"
    by (rule unsigned_ucast_eq)
  also have "\<dots> = unat w" using unat_lt2p [of w] by (simp add: unat_ucast_up assms take_bit_nat_eq_self)
  finally show ?thesis by (simp add: word_unat_eq_iff)
qed

lemma unat_scast_nonneg:
  fixes w :: "'a::len word"
  assumes "0 \<le> sint w" and "LENGTH('a) \<le> LENGTH('b)"
  shows "unat (scast w :: 'b::len word) = unat w"
proof -
  have "sint w = int (unat w)" using assms(1) by (simp only: sint_nonneg_iff sint_low)
  then have "(scast w :: 'b word) = ucast w" by (simp add: scast_eq)
  with assms(2) show ?thesis by (simp add: unat_ucast_up)
qed

lemma unat_saturating_sub [simp]: "unat (saturating_sub a b) = unat a - unat b"
  by (simp add: saturating_sub_def unat_sub word_le_nat_alt)

lemma checked_add_Some:
  "checked_add a b = Some c \<longleftrightarrow> unat a + unat b < 2 ^ LENGTH('a) \<and> c = a + b"
  for a b c :: "'a::len word"
  by (auto simp: checked_add_def)

lemma unat_add_nowrap:
  "unat a + unat b < 2 ^ LENGTH('a) \<Longrightarrow> unat (a + b) = unat a + unat b"
  for a b :: "'a::len word"
  by (simp add: unat_word_ariths)

lemma unat_word_of_nat: "n < 2 ^ LENGTH('a) \<Longrightarrow> unat (word_of_nat n :: 'a::len word) = n"
  by (simp add: unat_of_nat)

lemma unat_mult_nowrap:
  "unat a * unat b < 2 ^ LENGTH('a) \<Longrightarrow> unat (a * b) = unat a * unat b"
  for a b :: "'a::len word"
  by (simp add: unat_word_ariths)

lemma unat_sub_nowrap: "b \<le> a \<Longrightarrow> unat (a - b) = unat a - unat b"
  for a b :: "'a::len word"
  by (simp add: unat_sub)


lemma unat_u64_lt [simp]: "unat (a :: u64) < 18446744073709551616"
  using unat_lt2p [of a] by simp

lemma is_multiple_of_unat:
  "b \<noteq> 0 \<Longrightarrow> is_multiple_of a b \<longleftrightarrow> unat b dvd unat a"
  for a b :: "'a::len word"
  by (simp add: is_multiple_of_def dvd_eq_mod_eq_0 unat_mod_distrib flip: unat_eq_0)

section \<open>Byte strings\<close>

text \<open>A slice \<open>&xs[a..b]\<close> panics when \<open>a > b\<close> or \<open>b\<close> is past the end.\<close>

definition slice :: "nat \<Rightarrow> nat \<Rightarrow> 'a list \<Rightarrow> 'a list option" where
  [rust_std]: "slice a b xs = (if a \<le> b \<and> b \<le> length xs then Some (take (b - a) (drop a xs)) else None)"

definition index :: "'a list \<Rightarrow> nat \<Rightarrow> 'a option" where
  [rust_std]: "index xs i = (if i < length xs then Some (xs ! i) else None)"

lemma slice_length: "slice a b xs = Some ys \<Longrightarrow> length ys = b - a"
  by (auto simp: slice_def split: if_splits)

lemma slice_Some [panic_free]: "a \<le> b \<Longrightarrow> b \<le> length xs \<Longrightarrow> slice a b xs = Some (take (b - a) (drop a xs))"
  by (simp add: slice_def)

lemma index_Some [panic_free]: "i < length xs \<Longrightarrow> index xs i = Some (xs ! i)"
  by (simp add: index_def)

lemma index_eq_Some: "index xs i = Some x \<longleftrightarrow> i < length xs \<and> x = xs ! i"
  by (auto simp: index_def)

text \<open>Big-endian reading and writing.\<close>

definition be_nat :: "bytes \<Rightarrow> nat" where
  "be_nat bs = foldl (\<lambda>acc b. acc * 256 + unat b) 0 bs"

primrec nat_be :: "nat \<Rightarrow> nat \<Rightarrow> bytes" where
  "nat_be 0 x = []"
| "nat_be (Suc n) x = nat_be n (x div 256) @ [word_of_nat (x mod 256)]"

definition from_be :: "bytes \<Rightarrow> 'a::len word" where
  "from_be bs = word_of_nat (be_nat bs)"

definition to_be :: "nat \<Rightarrow> 'a::len word \<Rightarrow> bytes" where
  "to_be n w = nat_be n (unat w)"

lemma length_nat_be [simp]: "length (nat_be n x) = n"
  by (induction n arbitrary: x) simp_all

lemma length_to_be [simp]: "length (to_be n w) = n"
  by (simp add: to_be_def)

lemma be_nat_Nil [simp]: "be_nat [] = 0"
  by (simp add: be_nat_def)

lemma be_nat_snoc [simp]: "be_nat (bs @ [b]) = be_nat bs * 256 + unat b"
  by (simp add: be_nat_def)

lemma be_nat_bound: "be_nat bs < 256 ^ length bs"
proof (induction bs rule: rev_induct)
  case Nil
  show ?case by simp
next
  case (snoc b bs)
  have "unat b < 256" using unat_lt2p [of b] by simp
  with snoc show ?case by simp
qed

lemma be_nat_nat_be: "be_nat (nat_be n x) = x mod 256 ^ n"
proof (induction n arbitrary: x)
  case 0
  show ?case by simp
next
  case (Suc n)
  have "unat (word_of_nat (x mod 256) :: u8) = x mod 256"
    by (simp add: unat_of_nat)
  moreover have "x mod (256 * 256 ^ n) = 256 * (x div 256 mod 256 ^ n) + x mod 256"
    by (rule mod_mult2_eq)
  ultimately show ?case by (simp add: Suc)
qed

lemma nat_be_be_nat: "nat_be (length bs) (be_nat bs) = bs"
proof (induction bs rule: rev_induct)
  case Nil
  show ?case by simp
next
  case (snoc b bs)
  have b: "unat b < 256" using unat_lt2p [of b] by simp
  have "(be_nat bs * 256 + unat b) div 256 = be_nat bs"
    and "(be_nat bs * 256 + unat b) mod 256 = unat b"
    using b by simp_all
  with snoc show ?case by simp
qed

lemma power_256: "(256::nat) ^ n = 2 ^ (8 * n)"
  by (simp add: power_mult)

lemma from_be_to_be:
  assumes "LENGTH('a) = 8 * n"
  shows "from_be (to_be n w) = (w :: 'a::len word)"
proof -
  have "unat w < 256 ^ n" using unat_lt2p [of w] assms by (simp add: power_256)
  then show ?thesis by (simp add: from_be_def to_be_def be_nat_nat_be)
qed

lemma to_be_from_be:
  assumes "LENGTH('a) = 8 * length bs"
  shows "to_be (length bs) (from_be bs :: 'a::len word) = bs"
proof -
  have "be_nat bs < 2 ^ LENGTH('a)"
    using be_nat_bound [of bs] assms by (simp add: power_256)
  then have "unat (from_be bs :: 'a word) = be_nat bs"
    by (simp add: from_be_def unat_of_nat)
  then show ?thesis by (simp add: to_be_def nat_be_be_nat)
qed

lemma from_be_to_be_address [simp]: "from_be (to_be 20 w) = (w :: address)"
  by (rule from_be_to_be) simp

lemma from_be_to_be_vote_address [simp]: "from_be (to_be 48 w) = (w :: vote_address)"
  by (rule from_be_to_be) simp

lemma from_be_to_be_u64 [simp]: "from_be (to_be 8 w) = (w :: u64)"
  by (rule from_be_to_be) simp

section \<open>Lists\<close>

lemma position_distinct:
  "distinct xs \<Longrightarrow> i < length xs \<Longrightarrow> j < length xs \<Longrightarrow> xs ! i = xs ! j \<longleftrightarrow> i = j"
  by (rule nth_eq_iff_index_eq)

lemma enumerate_nth: "(i, x) \<in> set (enumerate n xs) \<longleftrightarrow> n \<le> i \<and> i < n + length xs \<and> x = xs ! (i - n)"
  by (auto simp: in_set_enumerate_eq)

section \<open>Transition systems\<close>

text \<open>
  A component with state is a set of initial states and a step relation. A property that the
  initial states have and every step keeps holds in every state a run reaches.
\<close>

locale transition_system =
  fixes init :: "'s \<Rightarrow> bool"
    and step :: "'s \<Rightarrow> 's \<Rightarrow> bool"
    and inv :: "'s \<Rightarrow> bool"
  assumes inv_init: "init s \<Longrightarrow> inv s"
    and inv_step: "inv s \<Longrightarrow> step s t \<Longrightarrow> inv t"
begin

lemma inv_steps: "inv s \<Longrightarrow> step\<^sup>*\<^sup>* s t \<Longrightarrow> inv t"
  by (erule rtranclp_induct) (auto intro: inv_step)

lemma inv_reachable: "init s \<Longrightarrow> step\<^sup>*\<^sup>* s t \<Longrightarrow> inv t"
  by (rule inv_steps [OF inv_init])

end

end
