(* ===== verification/Collections.thy ===== *)
theory Collections
  imports Prelude "HOL-Library.AList"
begin

text \<open>
  The standard containers the sources keep their state in. A \<open>BTreeMap\<close> is the list of its
  entries in ascending key order, which is the order its iterators use. A \<open>HashMap\<close> is the list
  of its entries in some iteration order, with each key once. Both promise the same contract,
  \<open>map_spec\<close>. A bounded LRU map promises less (\<open>cache_spec\<close>): a value just stored is found, and
  any other key keeps its value or is evicted; a lookup renews the entry (\<open>touch\<close>), which
  changes what is evicted later but no value.
\<close>

section \<open>Contracts\<close>

locale cache_spec =
  fixes get :: "'m \<Rightarrow> 'k \<Rightarrow> 'v option"
    and touch :: "'k \<Rightarrow> 'm \<Rightarrow> 'm"
    and put :: "'k \<Rightarrow> 'v \<Rightarrow> 'm \<Rightarrow> 'm"
    and invar :: "'m \<Rightarrow> bool"
  assumes get_put_same: "invar m \<Longrightarrow> get (put k v m) k = Some v"
    and get_put_other: "invar m \<Longrightarrow> k' \<noteq> k \<Longrightarrow> get (put k v m) k' = Some w \<Longrightarrow> get m k' = Some w"
    and invar_put: "invar m \<Longrightarrow> invar (put k v m)"
    and get_touch: "invar m \<Longrightarrow> get (touch k m) k' = get m k'"
    and invar_touch: "invar m \<Longrightarrow> invar (touch k m)"
begin

lemma get_put_Some:
  "invar m \<Longrightarrow> get (put k v m) k' = Some w \<Longrightarrow> k' = k \<and> w = v \<or> get m k' = Some w"
  by (metis get_put_other get_put_same option.inject)

lemma get_put_sound:
  assumes "invar m" and "\<And>k v. get m k = Some v \<Longrightarrow> P k v" and "P k v"
    and "get (put k v m) k' = Some w"
  shows "P k' w"
  using get_put_Some [OF assms(1,4)] assms(2,3) by blast

end

locale map_spec =
  fixes lookup :: "'m \<Rightarrow> 'k \<Rightarrow> 'v option"
    and ins :: "'k \<Rightarrow> 'v \<Rightarrow> 'm \<Rightarrow> 'm"
    and del :: "'k \<Rightarrow> 'm \<Rightarrow> 'm"
    and emp :: "'m"
    and invar :: "'m \<Rightarrow> bool"
  assumes lookup_emp: "lookup emp k = None"
    and lookup_ins: "invar m \<Longrightarrow> lookup (ins k v m) k' = (if k' = k then Some v else lookup m k')"
    and lookup_del: "invar m \<Longrightarrow> lookup (del k m) k' = (if k' = k then None else lookup m k')"
    and invar_emp: "invar emp"
    and invar_ins: "invar m \<Longrightarrow> invar (ins k v m)"
    and invar_del: "invar m \<Longrightarrow> invar (del k m)"
begin

lemma invar_dels: "invar m \<Longrightarrow> invar (fold del ks m)"
  by (induction ks arbitrary: m) (simp_all add: invar_del)

lemma lookup_dels:
  "invar m \<Longrightarrow> lookup (fold del ks m) k = (if k \<in> set ks then None else lookup m k)"
  by (induction ks arbitrary: m) (auto simp: lookup_del invar_del)

lemma invar_inss: "invar m \<Longrightarrow> invar (fold (\<lambda>(k, v). ins k v) kvs m)"
  by (induction kvs arbitrary: m) (auto simp: invar_ins split: prod.splits)

lemma lookup_inss:
  "invar m \<Longrightarrow>
     lookup (fold (\<lambda>(k, v). ins k v) kvs m) k =
       (case map_of (rev kvs) k of None \<Rightarrow> lookup m k | Some v \<Rightarrow> Some v)"
  by (induction kvs arbitrary: m)
    (auto simp: lookup_ins invar_ins map_add_def split: prod.splits option.splits)

end

text \<open>An unbounded map is a cache that never evicts.\<close>

sublocale map_spec \<subseteq> cache_spec lookup "\<lambda>_ m. m" ins invar
  by unfold_locales (simp_all add: lookup_ins invar_ins)

section \<open>BTreeMap\<close>

type_synonym ('k, 'v) btree_map = "('k \<times> 'v) list"

fun bt_insert :: "'k::linorder \<Rightarrow> 'v \<Rightarrow> ('k, 'v) btree_map \<Rightarrow> ('k, 'v) btree_map" where
  "bt_insert k v [] = [(k, v)]"
| "bt_insert k v ((k', v') # m) =
     (if k < k' then (k, v) # (k', v') # m
      else if k = k' then (k, v) # m
      else (k', v') # bt_insert k v m)"

definition bt_remove :: "'k::linorder \<Rightarrow> ('k, 'v) btree_map \<Rightarrow> ('k, 'v) btree_map" where
  "bt_remove k m = filter (\<lambda>(k', _). k' \<noteq> k) m"

definition bt_wf :: "('k::linorder, 'v) btree_map \<Rightarrow> bool" where
  "bt_wf m = sorted_wrt (<) (map fst m)"

definition bt_contains :: "('k::linorder, 'v) btree_map \<Rightarrow> 'k \<Rightarrow> bool" where
  "bt_contains m k = (k \<in> set (map fst m))"

lemma map_of_bt_insert: "map_of (bt_insert k v m) k' = (if k' = k then Some v else map_of m k')"
  by (induction m) (auto split: if_splits)

lemma map_of_filter_keys: "map_of (filter (\<lambda>(k, _). P k) m) k = (if P k then map_of m k else None)"
  by (induction m) auto

lemma map_of_bt_remove: "map_of (bt_remove k m) k' = (if k' = k then None else map_of m k')"
  by (simp add: bt_remove_def map_of_filter_keys)

lemma keys_bt_insert: "fst ` set (bt_insert k v m) = insert k (fst ` set m)"
  by (induction k v m rule: bt_insert.induct) (simp_all add: insert_commute)

lemma set_bt_insert: "bt_wf m \<Longrightarrow> set (bt_insert k v m) = insert (k, v) {x \<in> set m. fst x \<noteq> k}"
proof (induction k v m rule: bt_insert.induct)
  case (2 k v k' v' m)
  then have wf: "bt_wf m" and less: "\<forall>x \<in> set m. k' < fst x"
    by (auto simp: bt_wf_def)
  consider "k < k'" | "k = k'" | "k' < k" by fastforce
  then show ?case
  proof cases
    case 1
    with less have "\<forall>x \<in> set m. fst x \<noteq> k" by force
    with 1 show ?thesis by auto
  next
    case 2
    with less have "\<forall>x \<in> set m. fst x \<noteq> k" by force
    with 2 show ?thesis by auto
  next
    case 3
    then show ?thesis using "2.IH" wf by auto
  qed
qed simp

lemma bt_wf_insert: "bt_wf m \<Longrightarrow> bt_wf (bt_insert k v m)"
proof (induction m)
  case (Cons x m)
  then show ?case
    by (cases x) (auto simp: bt_wf_def keys_bt_insert)
qed (simp add: bt_wf_def)

lemma bt_wf_filter: "bt_wf m \<Longrightarrow> bt_wf (filter P m)"
  unfolding bt_wf_def
proof (induction m)
  case (Cons x m)
  then show ?case by auto
qed simp

lemma bt_wf_remove: "bt_wf m \<Longrightarrow> bt_wf (bt_remove k m)"
  unfolding bt_remove_def by (rule bt_wf_filter)

lemma bt_wf_Nil [simp]: "bt_wf []"
  by (simp add: bt_wf_def)

lemma bt_wf_distinct: "bt_wf m \<Longrightarrow> distinct (map fst m)"
  by (simp add: bt_wf_def strict_sorted_iff)

lemma bt_contains_iff: "bt_contains m k \<longleftrightarrow> map_of m k \<noteq> None"
  by (simp add: bt_contains_def map_of_eq_None_iff)

interpretation bt: map_spec map_of bt_insert bt_remove "[]" bt_wf
  by unfold_locales
    (simp_all add: map_of_bt_insert map_of_bt_remove bt_wf_insert bt_wf_remove)

section \<open>HashMap\<close>

type_synonym ('k, 'v) hash_map = "('k \<times> 'v) list"

definition hm_wf :: "('k, 'v) hash_map \<Rightarrow> bool" where
  "hm_wf m = distinct (map fst m)"

interpretation hm: map_spec map_of AList.update AList.delete "[]" hm_wf
  by unfold_locales
    (simp_all add: hm_wf_def update_conv' delete_conv' distinct_update distinct_delete)

text \<open>\<open>get_mut\<close> followed by an assignment to the value: absent keys are left alone.\<close>

definition hm_modify :: "'k \<Rightarrow> ('v \<Rightarrow> 'v) \<Rightarrow> ('k, 'v) hash_map \<Rightarrow> ('k, 'v) hash_map" where
  "hm_modify k f m = map (\<lambda>(k', v). (k', if k' = k then f v else v)) m"

lemma map_of_hm_modify:
  "map_of (hm_modify k f m) k' = (if k' = k then map_option f (map_of m k) else map_of m k')"
  by (induction m) (auto simp: hm_modify_def)

lemma keys_hm_modify [simp]: "map fst (hm_modify k f m) = map fst m"
  by (induction m) (auto simp: hm_modify_def)

lemma hm_wf_modify [simp]: "hm_wf (hm_modify k f m) = hm_wf m"
  by (simp add: hm_wf_def)

lemma keys_hm_update: "fst ` set (AList.update k v m) = insert k (fst ` set m)"
  by (simp add: dom_map_of_conv_image_fst [symmetric] update_conv')

section \<open>LRU maps\<close>

text \<open>
  The operations of a library cache, as the record the code's functions take. \<open>lru_ops\<close> is the
  documented behaviour of an LRU map of a given capacity: the list of its entries, most recently
  used first.
\<close>

record ('c, 'k, 'v) cache_ops =
  c_get :: "'c \<Rightarrow> 'k \<Rightarrow> 'v option"
  c_touch :: "'k \<Rightarrow> 'c \<Rightarrow> 'c"
  c_put :: "'k \<Rightarrow> 'v \<Rightarrow> 'c \<Rightarrow> 'c"

definition lru_touch :: "'k \<Rightarrow> ('k \<times> 'v) list \<Rightarrow> ('k \<times> 'v) list" where
  "lru_touch k m =
     (case map_of m k of
        None \<Rightarrow> m
      | Some v \<Rightarrow> (k, v) # filter (\<lambda>(k', _). k' \<noteq> k) m)"

definition lru_put :: "nat \<Rightarrow> 'k \<Rightarrow> 'v \<Rightarrow> ('k \<times> 'v) list \<Rightarrow> ('k \<times> 'v) list" where
  "lru_put cap k v m = take cap ((k, v) # filter (\<lambda>(k', _). k' \<noteq> k) m)"

definition lru_ops :: "nat \<Rightarrow> (('k \<times> 'v) list, 'k, 'v) cache_ops" where
  "lru_ops cap = \<lparr>c_get = map_of, c_touch = lru_touch, c_put = lru_put cap\<rparr>"

definition cache_ok :: "('c, 'k, 'v) cache_ops \<Rightarrow> ('c \<Rightarrow> bool) \<Rightarrow> bool" where
  "cache_ok ops invar = cache_spec (c_get ops) (c_touch ops) (c_put ops) invar"

lemma map_of_take: "distinct (map fst m) \<Longrightarrow> map_of (take n m) k = Some v \<Longrightarrow> map_of m k = Some v"
  by (metis append_take_drop_id map_add_Some_iff map_of_append)

lemma distinct_filter_keys: "distinct (map fst m) \<Longrightarrow> distinct (map fst (filter P m))"
  by (induction m) auto

interpretation lru: cache_spec map_of lru_touch "lru_put (Suc cap)" hm_wf for cap
proof unfold_locales
  fix m :: "('a \<times> 'b) list" and k k' :: 'a and v w :: 'b
  let ?f = "filter (\<lambda>(k', _). k' \<noteq> k) m"
  have keys: "k \<notin> fst ` set ?f" by auto
  show "map_of (lru_put (Suc cap) k v m) k = Some v" by (simp add: lru_put_def)
  assume wf: "hm_wf m"
  have d: "distinct (map fst ?f)" using wf unfolding hm_wf_def by (rule distinct_filter_keys)
  then show "hm_wf (lru_put (Suc cap) k v m)"
    using keys by (auto simp: lru_put_def hm_wf_def take_map [symmetric] distinct_take dest: in_set_takeD)
  show "map_of (lru_touch k m) k' = map_of m k'"
    by (auto simp: lru_touch_def map_of_filter_keys split: option.splits)
  show "hm_wf (lru_touch k m)"
    using wf d keys by (auto simp: lru_touch_def hm_wf_def split: option.splits)
  assume "k' \<noteq> k" and "map_of (lru_put (Suc cap) k v m) k' = Some w"
  then have "map_of (take cap ?f) k' = Some w" by (simp add: lru_put_def split: if_splits)
  then have "map_of ?f k' = Some w" using d map_of_take by metis
  then show "map_of m k' = Some w" using \<open>k' \<noteq> k\<close> by (simp add: map_of_filter_keys)
qed

lemma lru_cache_ok: "cache_ok (lru_ops (Suc cap)) hm_wf"
  using lru.cache_spec_axioms by (simp add: cache_ok_def lru_ops_def)

end
