(* ===== verification/Hardforks.thy ===== *)
theory Hardforks
  imports Collections
begin

text \<open>
  The hard-fork schedule: \<open>src/hardforks/bsc.rs\<close> (the fork names, the schedules of the public
  networks, the EVM rule set of each fork), the \<open>BscHardforks\<close> trait of \<open>src/hardforks/mod.rs\<close>
  and \<open>revm_spec_by_timestamp_and_block_number\<close> of \<open>src/node/evm/config.rs\<close>.

  \<open>ForkCondition\<close> comes from a library. Its constructors are the ones the sources write down;
  its three predicates are fields of \<open>chain_spec\<close>, so every definition is parametric in them,
  and \<open>fork_schedule\<close> states what the code relies on: a fork that is active stays active.
  \<open>mainnet_spec\<close>, \<open>testnet_spec\<close> and \<open>qanet_spec\<close> are the schedules of the sources with the
  documented meaning of the predicates, and interpret that contract.
\<close>

section \<open>Fork names\<close>

datatype bsc_hardfork = Frontier | Ramanujan | Niels | MirrorSync | Bruno | Euler | Nano | Moran
  | Gibbs | Planck | Luban | Plato | Hertz | HertzFix | Kepler | Feynman | FeynmanFix | Cancun |
  Haber | HaberFix | Bohr | Tycho | Pascal | Lorentz | Maxwell | Fermi | Osaka | Mendel |
  Pasteur | Jenner

datatype eth_hardfork = EthFrontier | EthHomestead | EthTangerine | EthSpuriousDragon |
  EthByzantium | EthConstantinople | EthPetersburg | EthIstanbul | EthMuirGlacier | EthBerlin |
  EthLondon | EthShanghai | EthCancun | EthPrague

datatype hardfork = EthFork eth_hardfork | BscFork bsc_hardfork

datatype spec_id = MUIR_GLACIER | LONDON | SHANGHAI | CANCUN | PRAGUE | OSAKA

datatype fork_condition = ForkBlock u64 | ForkTimestamp u64 | ForkNever

type_synonym chain_hardforks = "(hardfork \<times> fork_condition) list"

text \<open>The derived order of the enum is the declaration order.\<close>

primrec fork_rank :: "bsc_hardfork \<Rightarrow> nat" where
  "fork_rank Frontier = 0"
| "fork_rank Ramanujan = 1"
| "fork_rank Niels = 2"
| "fork_rank MirrorSync = 3"
| "fork_rank Bruno = 4"
| "fork_rank Euler = 5"
| "fork_rank Nano = 6"
| "fork_rank Moran = 7"
| "fork_rank Gibbs = 8"
| "fork_rank Planck = 9"
| "fork_rank Luban = 10"
| "fork_rank Plato = 11"
| "fork_rank Hertz = 12"
| "fork_rank HertzFix = 13"
| "fork_rank Kepler = 14"
| "fork_rank Feynman = 15"
| "fork_rank FeynmanFix = 16"
| "fork_rank Cancun = 17"
| "fork_rank Haber = 18"
| "fork_rank HaberFix = 19"
| "fork_rank Bohr = 20"
| "fork_rank Tycho = 21"
| "fork_rank Pascal = 22"
| "fork_rank Lorentz = 23"
| "fork_rank Maxwell = 24"
| "fork_rank Fermi = 25"
| "fork_rank Osaka = 26"
| "fork_rank Mendel = 27"
| "fork_rank Pasteur = 28"
| "fork_rank Jenner = 29"

definition fork_list :: "bsc_hardfork list" where
  "fork_list = [Frontier, Ramanujan, Niels, MirrorSync, Bruno, Euler, Nano, Moran, Gibbs,
  Planck, Luban, Plato, Hertz, HertzFix, Kepler, Feynman, FeynmanFix, Cancun, Haber, HaberFix,
  Bohr, Tycho, Pascal, Lorentz, Maxwell, Fermi, Osaka, Mendel, Pasteur, Jenner]"

lemma fork_list_rank: "fork_list ! fork_rank f = f"
  by (cases f) (simp_all add: fork_list_def)

lemma fork_rank_inject [simp]: "fork_rank f = fork_rank g \<longleftrightarrow> f = g"
  by (metis fork_list_rank)

instantiation bsc_hardfork :: linorder
begin

definition less_eq_bsc_hardfork :: "bsc_hardfork \<Rightarrow> bsc_hardfork \<Rightarrow> bool" where
  "less_eq_bsc_hardfork f g = (fork_rank f \<le> fork_rank g)"

definition less_bsc_hardfork :: "bsc_hardfork \<Rightarrow> bsc_hardfork \<Rightarrow> bool" where
  "less_bsc_hardfork f g = (fork_rank f < fork_rank g)"

instance
  by standard (auto simp: less_eq_bsc_hardfork_def less_bsc_hardfork_def)

end

primrec spec_id_of :: "bsc_hardfork \<Rightarrow> spec_id" where
  "spec_id_of Frontier = MUIR_GLACIER"
| "spec_id_of Ramanujan = MUIR_GLACIER"
| "spec_id_of Niels = MUIR_GLACIER"
| "spec_id_of MirrorSync = MUIR_GLACIER"
| "spec_id_of Bruno = MUIR_GLACIER"
| "spec_id_of Euler = MUIR_GLACIER"
| "spec_id_of Nano = MUIR_GLACIER"
| "spec_id_of Moran = MUIR_GLACIER"
| "spec_id_of Gibbs = MUIR_GLACIER"
| "spec_id_of Planck = MUIR_GLACIER"
| "spec_id_of Luban = MUIR_GLACIER"
| "spec_id_of Plato = MUIR_GLACIER"
| "spec_id_of Hertz = LONDON"
| "spec_id_of HertzFix = LONDON"
| "spec_id_of Kepler = SHANGHAI"
| "spec_id_of Feynman = SHANGHAI"
| "spec_id_of FeynmanFix = SHANGHAI"
| "spec_id_of Cancun = CANCUN"
| "spec_id_of Haber = CANCUN"
| "spec_id_of HaberFix = CANCUN"
| "spec_id_of Bohr = CANCUN"
| "spec_id_of Tycho = CANCUN"
| "spec_id_of Pascal = PRAGUE"
| "spec_id_of Lorentz = PRAGUE"
| "spec_id_of Maxwell = PRAGUE"
| "spec_id_of Fermi = PRAGUE"
| "spec_id_of Osaka = OSAKA"
| "spec_id_of Mendel = OSAKA"
| "spec_id_of Pasteur = OSAKA"
| "spec_id_of Jenner = OSAKA"

section \<open>Chain specifications\<close>

record chain_spec =
  bsc_fork_activation :: "bsc_hardfork \<Rightarrow> fork_condition"
  active_at_block :: "fork_condition \<Rightarrow> u64 \<Rightarrow> bool"
  transitions_at_block :: "fork_condition \<Rightarrow> u64 \<Rightarrow> bool"
  active_at_timestamp :: "fork_condition \<Rightarrow> u64 \<Rightarrow> bool"
  is_london_active_at_block :: "u64 \<Rightarrow> bool"
  is_prague_active_at_timestamp :: "u64 \<Rightarrow> bool"

named_theorems fork_defs \<open>the methods of the BscHardforks trait\<close>

definition is_ramanujan_transition_at_block :: "chain_spec \<Rightarrow> u64 \<Rightarrow> bool" where
  [fork_defs]: "is_ramanujan_transition_at_block cs block_number =
     transitions_at_block cs (bsc_fork_activation cs Ramanujan) block_number"

definition is_ramanujan_active_at_block :: "chain_spec \<Rightarrow> u64 \<Rightarrow> bool" where
  [fork_defs]: "is_ramanujan_active_at_block cs block_number =
     active_at_block cs (bsc_fork_activation cs Ramanujan) block_number"

definition is_niels_transition_at_block :: "chain_spec \<Rightarrow> u64 \<Rightarrow> bool" where
  [fork_defs]: "is_niels_transition_at_block cs block_number =
     transitions_at_block cs (bsc_fork_activation cs Niels) block_number"

definition is_niels_active_at_block :: "chain_spec \<Rightarrow> u64 \<Rightarrow> bool" where
  [fork_defs]: "is_niels_active_at_block cs block_number =
     active_at_block cs (bsc_fork_activation cs Niels) block_number"

definition is_mirror_sync_transition_at_block :: "chain_spec \<Rightarrow> u64 \<Rightarrow> bool" where
  [fork_defs]: "is_mirror_sync_transition_at_block cs block_number =
     transitions_at_block cs (bsc_fork_activation cs MirrorSync) block_number"

definition is_mirror_sync_active_at_block :: "chain_spec \<Rightarrow> u64 \<Rightarrow> bool" where
  [fork_defs]: "is_mirror_sync_active_at_block cs block_number =
     active_at_block cs (bsc_fork_activation cs MirrorSync) block_number"

definition is_bruno_transition_at_block :: "chain_spec \<Rightarrow> u64 \<Rightarrow> bool" where
  [fork_defs]: "is_bruno_transition_at_block cs block_number =
     transitions_at_block cs (bsc_fork_activation cs Bruno) block_number"

definition is_bruno_active_at_block :: "chain_spec \<Rightarrow> u64 \<Rightarrow> bool" where
  [fork_defs]: "is_bruno_active_at_block cs block_number =
     active_at_block cs (bsc_fork_activation cs Bruno) block_number"

definition is_euler_transition_at_block :: "chain_spec \<Rightarrow> u64 \<Rightarrow> bool" where
  [fork_defs]: "is_euler_transition_at_block cs block_number =
     transitions_at_block cs (bsc_fork_activation cs Euler) block_number"

definition is_euler_active_at_block :: "chain_spec \<Rightarrow> u64 \<Rightarrow> bool" where
  [fork_defs]: "is_euler_active_at_block cs block_number =
     active_at_block cs (bsc_fork_activation cs Euler) block_number"

definition is_nano_transition_at_block :: "chain_spec \<Rightarrow> u64 \<Rightarrow> bool" where
  [fork_defs]: "is_nano_transition_at_block cs block_number =
     transitions_at_block cs (bsc_fork_activation cs Nano) block_number"

definition is_nano_active_at_block :: "chain_spec \<Rightarrow> u64 \<Rightarrow> bool" where
  [fork_defs]: "is_nano_active_at_block cs block_number =
     active_at_block cs (bsc_fork_activation cs Nano) block_number"

definition is_moran_transition_at_block :: "chain_spec \<Rightarrow> u64 \<Rightarrow> bool" where
  [fork_defs]: "is_moran_transition_at_block cs block_number =
     transitions_at_block cs (bsc_fork_activation cs Moran) block_number"

definition is_moran_active_at_block :: "chain_spec \<Rightarrow> u64 \<Rightarrow> bool" where
  [fork_defs]: "is_moran_active_at_block cs block_number =
     active_at_block cs (bsc_fork_activation cs Moran) block_number"

definition is_gibbs_transition_at_block :: "chain_spec \<Rightarrow> u64 \<Rightarrow> bool" where
  [fork_defs]: "is_gibbs_transition_at_block cs block_number =
     transitions_at_block cs (bsc_fork_activation cs Gibbs) block_number"

definition is_gibbs_active_at_block :: "chain_spec \<Rightarrow> u64 \<Rightarrow> bool" where
  [fork_defs]: "is_gibbs_active_at_block cs block_number =
     active_at_block cs (bsc_fork_activation cs Gibbs) block_number"

definition is_planck_transition_at_block :: "chain_spec \<Rightarrow> u64 \<Rightarrow> bool" where
  [fork_defs]: "is_planck_transition_at_block cs block_number =
     transitions_at_block cs (bsc_fork_activation cs Planck) block_number"

definition is_planck_active_at_block :: "chain_spec \<Rightarrow> u64 \<Rightarrow> bool" where
  [fork_defs]: "is_planck_active_at_block cs block_number =
     active_at_block cs (bsc_fork_activation cs Planck) block_number"

definition is_luban_transition_at_block :: "chain_spec \<Rightarrow> u64 \<Rightarrow> bool" where
  [fork_defs]: "is_luban_transition_at_block cs block_number =
     transitions_at_block cs (bsc_fork_activation cs Luban) block_number"

definition is_luban_active_at_block :: "chain_spec \<Rightarrow> u64 \<Rightarrow> bool" where
  [fork_defs]: "is_luban_active_at_block cs block_number =
     active_at_block cs (bsc_fork_activation cs Luban) block_number"

definition is_plato_transition_at_block :: "chain_spec \<Rightarrow> u64 \<Rightarrow> bool" where
  [fork_defs]: "is_plato_transition_at_block cs block_number =
     transitions_at_block cs (bsc_fork_activation cs Plato) block_number"

definition is_plato_active_at_block :: "chain_spec \<Rightarrow> u64 \<Rightarrow> bool" where
  [fork_defs]: "is_plato_active_at_block cs block_number =
     active_at_block cs (bsc_fork_activation cs Plato) block_number"

definition is_hertz_active_at_block :: "chain_spec \<Rightarrow> u64 \<Rightarrow> bool" where
  [fork_defs]: "is_hertz_active_at_block cs block_number =
     active_at_block cs (bsc_fork_activation cs Hertz) block_number"

definition is_hertz_fix_active_at_block :: "chain_spec \<Rightarrow> u64 \<Rightarrow> bool" where
  [fork_defs]: "is_hertz_fix_active_at_block cs block_number =
     active_at_block cs (bsc_fork_activation cs HertzFix) block_number"

definition is_kepler_active_at_timestamp :: "chain_spec \<Rightarrow> u64 \<Rightarrow> u64 \<Rightarrow> bool" where
  [fork_defs]: "is_kepler_active_at_timestamp cs block_number timestamp =
     (is_london_active_at_block cs block_number \<and>
      active_at_timestamp cs (bsc_fork_activation cs Kepler) timestamp)"

definition is_feynman_active_at_timestamp :: "chain_spec \<Rightarrow> u64 \<Rightarrow> u64 \<Rightarrow> bool" where
  [fork_defs]: "is_feynman_active_at_timestamp cs block_number timestamp =
     (is_london_active_at_block cs block_number \<and>
      active_at_timestamp cs (bsc_fork_activation cs Feynman) timestamp)"

definition is_feynman_fix_active_at_timestamp :: "chain_spec \<Rightarrow> u64 \<Rightarrow> u64 \<Rightarrow> bool" where
  [fork_defs]: "is_feynman_fix_active_at_timestamp cs block_number timestamp =
     (is_london_active_at_block cs block_number \<and>
      active_at_timestamp cs (bsc_fork_activation cs FeynmanFix) timestamp)"

definition is_haber_active_at_timestamp :: "chain_spec \<Rightarrow> u64 \<Rightarrow> u64 \<Rightarrow> bool" where
  [fork_defs]: "is_haber_active_at_timestamp cs block_number timestamp =
     (is_london_active_at_block cs block_number \<and>
      active_at_timestamp cs (bsc_fork_activation cs Haber) timestamp)"

definition is_tycho_active_at_timestamp :: "chain_spec \<Rightarrow> u64 \<Rightarrow> u64 \<Rightarrow> bool" where
  [fork_defs]: "is_tycho_active_at_timestamp cs block_number timestamp =
     (is_london_active_at_block cs block_number \<and>
      active_at_timestamp cs (bsc_fork_activation cs Tycho) timestamp)"

definition is_haber_fix_active_at_timestamp :: "chain_spec \<Rightarrow> u64 \<Rightarrow> u64 \<Rightarrow> bool" where
  [fork_defs]: "is_haber_fix_active_at_timestamp cs block_number timestamp =
     (is_london_active_at_block cs block_number \<and>
      active_at_timestamp cs (bsc_fork_activation cs HaberFix) timestamp)"

definition is_cancun_active_at_timestamp :: "chain_spec \<Rightarrow> u64 \<Rightarrow> u64 \<Rightarrow> bool" where
  [fork_defs]: "is_cancun_active_at_timestamp cs block_number timestamp =
     (is_london_active_at_block cs block_number \<and>
      active_at_timestamp cs (bsc_fork_activation cs Cancun) timestamp)"

definition is_bohr_active_at_timestamp :: "chain_spec \<Rightarrow> u64 \<Rightarrow> u64 \<Rightarrow> bool" where
  [fork_defs]: "is_bohr_active_at_timestamp cs block_number timestamp =
     (is_london_active_at_block cs block_number \<and>
      active_at_timestamp cs (bsc_fork_activation cs Bohr) timestamp)"

definition is_prague_active_at_block_and_timestamp :: "chain_spec \<Rightarrow> u64 \<Rightarrow> u64 \<Rightarrow> bool" where
  [fork_defs]: "is_prague_active_at_block_and_timestamp cs block_number timestamp =
     (is_london_active_at_block cs block_number \<and> is_prague_active_at_timestamp cs timestamp)"

definition is_pascal_active_at_timestamp :: "chain_spec \<Rightarrow> u64 \<Rightarrow> u64 \<Rightarrow> bool" where
  [fork_defs]: "is_pascal_active_at_timestamp cs block_number timestamp =
     (is_london_active_at_block cs block_number \<and>
      active_at_timestamp cs (bsc_fork_activation cs Pascal) timestamp)"

definition is_lorentz_active_at_timestamp :: "chain_spec \<Rightarrow> u64 \<Rightarrow> u64 \<Rightarrow> bool" where
  [fork_defs]: "is_lorentz_active_at_timestamp cs block_number timestamp =
     (is_london_active_at_block cs block_number \<and>
      active_at_timestamp cs (bsc_fork_activation cs Lorentz) timestamp)"

definition is_maxwell_active_at_timestamp :: "chain_spec \<Rightarrow> u64 \<Rightarrow> u64 \<Rightarrow> bool" where
  [fork_defs]: "is_maxwell_active_at_timestamp cs block_number timestamp =
     (is_london_active_at_block cs block_number \<and>
      active_at_timestamp cs (bsc_fork_activation cs Maxwell) timestamp)"

definition is_fermi_active_at_timestamp :: "chain_spec \<Rightarrow> u64 \<Rightarrow> u64 \<Rightarrow> bool" where
  [fork_defs]: "is_fermi_active_at_timestamp cs block_number timestamp =
     (is_london_active_at_block cs block_number \<and>
      active_at_timestamp cs (bsc_fork_activation cs Fermi) timestamp)"

definition is_osaka_active_at_timestamp :: "chain_spec \<Rightarrow> u64 \<Rightarrow> u64 \<Rightarrow> bool" where
  [fork_defs]: "is_osaka_active_at_timestamp cs block_number timestamp =
     (is_london_active_at_block cs block_number \<and>
      active_at_timestamp cs (bsc_fork_activation cs Osaka) timestamp)"

definition is_mendel_active_at_timestamp :: "chain_spec \<Rightarrow> u64 \<Rightarrow> u64 \<Rightarrow> bool" where
  [fork_defs]: "is_mendel_active_at_timestamp cs block_number timestamp =
     (is_london_active_at_block cs block_number \<and>
      active_at_timestamp cs (bsc_fork_activation cs Mendel) timestamp)"

definition is_pasteur_active_at_timestamp :: "chain_spec \<Rightarrow> u64 \<Rightarrow> u64 \<Rightarrow> bool" where
  [fork_defs]: "is_pasteur_active_at_timestamp cs block_number timestamp =
     (is_london_active_at_block cs block_number \<and>
      active_at_timestamp cs (bsc_fork_activation cs Pasteur) timestamp)"

definition is_jenner_active_at_timestamp :: "chain_spec \<Rightarrow> u64 \<Rightarrow> u64 \<Rightarrow> bool" where
  [fork_defs]: "is_jenner_active_at_timestamp cs block_number timestamp =
     (is_london_active_at_block cs block_number \<and>
      active_at_timestamp cs (bsc_fork_activation cs Jenner) timestamp)"

definition is_kepler_transition_at_timestamp :: "chain_spec \<Rightarrow> u64 \<Rightarrow> u64 \<Rightarrow> u64 \<Rightarrow> bool" where
  [fork_defs]: "is_kepler_transition_at_timestamp cs block_number timestamp parent_timestamp =
     (let parent_number = saturating_sub block_number 1 in
      (\<not> is_kepler_active_at_timestamp cs parent_number parent_timestamp \<and>
        is_kepler_active_at_timestamp cs block_number timestamp))"

definition is_feynman_transition_at_timestamp :: "chain_spec \<Rightarrow> u64 \<Rightarrow> u64 \<Rightarrow> u64 \<Rightarrow> bool" where
  [fork_defs]: "is_feynman_transition_at_timestamp cs block_number timestamp parent_timestamp =
     (let parent_number = saturating_sub block_number 1 in
      (\<not> is_feynman_active_at_timestamp cs parent_number parent_timestamp \<and>
        is_feynman_active_at_timestamp cs block_number timestamp))"

definition is_feynman_fix_transition_at_timestamp :: "chain_spec \<Rightarrow> u64 \<Rightarrow> u64 \<Rightarrow> u64 \<Rightarrow> bool" where
  [fork_defs]: "is_feynman_fix_transition_at_timestamp cs block_number timestamp parent_timestamp =
     (let parent_number = saturating_sub block_number 1 in
      (\<not> is_feynman_fix_active_at_timestamp cs parent_number parent_timestamp \<and>
        is_feynman_fix_active_at_timestamp cs block_number timestamp))"

definition is_haber_transition_at_timestamp :: "chain_spec \<Rightarrow> u64 \<Rightarrow> u64 \<Rightarrow> u64 \<Rightarrow> bool" where
  [fork_defs]: "is_haber_transition_at_timestamp cs block_number timestamp parent_timestamp =
     (let parent_number = saturating_sub block_number 1 in
      (\<not> is_haber_active_at_timestamp cs parent_number parent_timestamp \<and>
        is_haber_active_at_timestamp cs block_number timestamp))"

definition is_tycho_transition_at_timestamp :: "chain_spec \<Rightarrow> u64 \<Rightarrow> u64 \<Rightarrow> u64 \<Rightarrow> bool" where
  [fork_defs]: "is_tycho_transition_at_timestamp cs block_number timestamp parent_timestamp =
     (let parent_number = saturating_sub block_number 1 in
      (\<not> is_tycho_active_at_timestamp cs parent_number parent_timestamp \<and>
        is_tycho_active_at_timestamp cs block_number timestamp))"

definition is_haber_fix_transition_at_timestamp :: "chain_spec \<Rightarrow> u64 \<Rightarrow> u64 \<Rightarrow> u64 \<Rightarrow> bool" where
  [fork_defs]: "is_haber_fix_transition_at_timestamp cs block_number timestamp parent_timestamp =
     (let parent_number = saturating_sub block_number 1 in
      (\<not> is_haber_fix_active_at_timestamp cs parent_number parent_timestamp \<and>
        is_haber_fix_active_at_timestamp cs block_number timestamp))"

definition is_cancun_transition_at_timestamp :: "chain_spec \<Rightarrow> u64 \<Rightarrow> u64 \<Rightarrow> u64 \<Rightarrow> bool" where
  [fork_defs]: "is_cancun_transition_at_timestamp cs block_number timestamp parent_timestamp =
     (let parent_number = saturating_sub block_number 1 in
      (\<not> is_cancun_active_at_timestamp cs parent_number parent_timestamp \<and>
        is_cancun_active_at_timestamp cs block_number timestamp))"

definition is_bohr_transition_at_timestamp :: "chain_spec \<Rightarrow> u64 \<Rightarrow> u64 \<Rightarrow> u64 \<Rightarrow> bool" where
  [fork_defs]: "is_bohr_transition_at_timestamp cs block_number timestamp parent_timestamp =
     (let parent_number = saturating_sub block_number 1 in
      (\<not> is_bohr_active_at_timestamp cs parent_number parent_timestamp \<and>
        is_bohr_active_at_timestamp cs block_number timestamp))"

definition is_prague_transition_at_block_and_timestamp :: "chain_spec \<Rightarrow> u64 \<Rightarrow> u64 \<Rightarrow> u64 \<Rightarrow> bool" where
  [fork_defs]: "is_prague_transition_at_block_and_timestamp cs block_number timestamp parent_timestamp =
     (let parent_number = saturating_sub block_number 1 in
      (is_prague_active_at_block_and_timestamp cs block_number timestamp \<and>
        \<not> is_prague_active_at_block_and_timestamp cs parent_number parent_timestamp))"

definition is_pascal_transition_at_timestamp :: "chain_spec \<Rightarrow> u64 \<Rightarrow> u64 \<Rightarrow> u64 \<Rightarrow> bool" where
  [fork_defs]: "is_pascal_transition_at_timestamp cs block_number timestamp parent_timestamp =
     (let parent_number = saturating_sub block_number 1 in
      (\<not> is_pascal_active_at_timestamp cs parent_number parent_timestamp \<and>
        is_pascal_active_at_timestamp cs block_number timestamp))"

definition is_lorentz_transition_at_timestamp :: "chain_spec \<Rightarrow> u64 \<Rightarrow> u64 \<Rightarrow> u64 \<Rightarrow> bool" where
  [fork_defs]: "is_lorentz_transition_at_timestamp cs block_number timestamp parent_timestamp =
     (let parent_number = saturating_sub block_number 1 in
      (\<not> is_lorentz_active_at_timestamp cs parent_number parent_timestamp \<and>
        is_lorentz_active_at_timestamp cs block_number timestamp))"

definition is_maxwell_transition_at_timestamp :: "chain_spec \<Rightarrow> u64 \<Rightarrow> u64 \<Rightarrow> u64 \<Rightarrow> bool" where
  [fork_defs]: "is_maxwell_transition_at_timestamp cs block_number timestamp parent_timestamp =
     (let parent_number = saturating_sub block_number 1 in
      (\<not> is_maxwell_active_at_timestamp cs parent_number parent_timestamp \<and>
        is_maxwell_active_at_timestamp cs block_number timestamp))"

definition is_fermi_transition_at_timestamp :: "chain_spec \<Rightarrow> u64 \<Rightarrow> u64 \<Rightarrow> u64 \<Rightarrow> bool" where
  [fork_defs]: "is_fermi_transition_at_timestamp cs block_number timestamp parent_timestamp =
     (let parent_number = saturating_sub block_number 1 in
      (\<not> is_fermi_active_at_timestamp cs parent_number parent_timestamp \<and>
        is_fermi_active_at_timestamp cs block_number timestamp))"

definition is_osaka_transition_at_timestamp :: "chain_spec \<Rightarrow> u64 \<Rightarrow> u64 \<Rightarrow> u64 \<Rightarrow> bool" where
  [fork_defs]: "is_osaka_transition_at_timestamp cs block_number timestamp parent_timestamp =
     (let parent_number = saturating_sub block_number 1 in
      (\<not> is_osaka_active_at_timestamp cs parent_number parent_timestamp \<and>
        is_osaka_active_at_timestamp cs block_number timestamp))"

definition is_mendel_transition_at_timestamp :: "chain_spec \<Rightarrow> u64 \<Rightarrow> u64 \<Rightarrow> u64 \<Rightarrow> bool" where
  [fork_defs]: "is_mendel_transition_at_timestamp cs block_number timestamp parent_timestamp =
     (let parent_number = saturating_sub block_number 1 in
      (\<not> is_mendel_active_at_timestamp cs parent_number parent_timestamp \<and>
        is_mendel_active_at_timestamp cs block_number timestamp))"

definition is_pasteur_transition_at_timestamp :: "chain_spec \<Rightarrow> u64 \<Rightarrow> u64 \<Rightarrow> u64 \<Rightarrow> bool" where
  [fork_defs]: "is_pasteur_transition_at_timestamp cs block_number timestamp parent_timestamp =
     (let parent_number = saturating_sub block_number 1 in
      (\<not> is_pasteur_active_at_timestamp cs parent_number parent_timestamp \<and>
        is_pasteur_active_at_timestamp cs block_number timestamp))"

definition is_jenner_transition_at_timestamp :: "chain_spec \<Rightarrow> u64 \<Rightarrow> u64 \<Rightarrow> u64 \<Rightarrow> bool" where
  [fork_defs]: "is_jenner_transition_at_timestamp cs block_number timestamp parent_timestamp =
     (let parent_number = saturating_sub block_number 1 in
      (\<not> is_jenner_active_at_timestamp cs parent_number parent_timestamp \<and>
        is_jenner_active_at_timestamp cs block_number timestamp))"

section \<open>The EVM fork of a block\<close>

definition get_activation_block :: "fork_condition \<Rightarrow> u64 option" where
  "get_activation_block fc = (case fc of ForkBlock b \<Rightarrow> Some b | _ \<Rightarrow> None)"

text \<open>The stable sort by descending \<open>Option<u64>\<close>, where \<open>None\<close> is the least key.\<close>

definition desc_key :: "u64 option \<times> bsc_hardfork \<Rightarrow> nat" where
  "desc_key p = (case fst p of None \<Rightarrow> 2 ^ 64 | Some b \<Rightarrow> 2 ^ 64 - 1 - unat b)"

definition dynamic_forks :: "chain_spec \<Rightarrow> (u64 option \<times> bsc_hardfork) list" where
  "dynamic_forks cs =
     (let gibbs_block = get_activation_block (bsc_fork_activation cs Gibbs);
          moran_block = get_activation_block (bsc_fork_activation cs Moran);
          nano_block = get_activation_block (bsc_fork_activation cs Nano)
      in sort_key desc_key [(gibbs_block, Gibbs), (moran_block, Moran), (nano_block, Nano)])"

definition revm_spec_by_timestamp_and_block_number ::
  "chain_spec \<Rightarrow> u64 \<Rightarrow> u64 \<Rightarrow> bsc_hardfork" where
  "revm_spec_by_timestamp_and_block_number cs timestamp block_number =
     (if is_jenner_active_at_timestamp cs block_number timestamp then Jenner
      else if is_pasteur_active_at_timestamp cs block_number timestamp then Pasteur
      else if is_mendel_active_at_timestamp cs block_number timestamp then Mendel
      else if is_osaka_active_at_timestamp cs block_number timestamp then Osaka
      else if is_fermi_active_at_timestamp cs block_number timestamp then Fermi
      else if is_maxwell_active_at_timestamp cs block_number timestamp then Maxwell
      else if is_lorentz_active_at_timestamp cs block_number timestamp then Lorentz
      else if is_pascal_active_at_timestamp cs block_number timestamp then Pascal
      else if is_bohr_active_at_timestamp cs block_number timestamp then Bohr
      else if is_haber_fix_active_at_timestamp cs block_number timestamp then HaberFix
      else if is_haber_active_at_timestamp cs block_number timestamp then Haber
      else if is_cancun_active_at_timestamp cs block_number timestamp then Cancun
      else if is_feynman_fix_active_at_timestamp cs block_number timestamp then FeynmanFix
      else if is_feynman_active_at_timestamp cs block_number timestamp then Feynman
      else if is_kepler_active_at_timestamp cs block_number timestamp then Kepler
      else if is_hertz_fix_active_at_block cs block_number then HertzFix
      else if is_hertz_active_at_block cs block_number then Hertz
      else if is_plato_active_at_block cs block_number then Plato
      else if is_luban_active_at_block cs block_number then Luban
      else if is_planck_active_at_block cs block_number then Planck
      else
        (case find (\<lambda>(_, fork). active_at_block cs (bsc_fork_activation cs fork) block_number)
                (dynamic_forks cs) of
          Some (_, fork) \<Rightarrow> fork
        | None \<Rightarrow>
          if is_euler_active_at_block cs block_number then Euler
          else if is_bruno_active_at_block cs block_number then Bruno
          else if is_mirror_sync_active_at_block cs block_number then MirrorSync
          else if is_niels_active_at_block cs block_number then Niels
          else if is_ramanujan_active_at_block cs block_number then Ramanujan
          else Frontier))"

section \<open>The schedules\<close>

definition bsc_mainnet :: chain_hardforks where
  "bsc_mainnet =
    [(EthFork EthFrontier, ForkBlock 0),
     (EthFork EthHomestead, ForkBlock 0),
     (EthFork EthTangerine, ForkBlock 0),
     (EthFork EthSpuriousDragon, ForkBlock 0),
     (EthFork EthByzantium, ForkBlock 0),
     (EthFork EthConstantinople, ForkBlock 0),
     (EthFork EthPetersburg, ForkBlock 0),
     (EthFork EthIstanbul, ForkBlock 0),
     (EthFork EthMuirGlacier, ForkBlock 0),
     (BscFork Ramanujan, ForkBlock 0),
     (BscFork Niels, ForkBlock 0),
     (BscFork MirrorSync, ForkBlock 5184000),
     (BscFork Bruno, ForkBlock 13082000),
     (BscFork Euler, ForkBlock 18907621),
     (BscFork Nano, ForkBlock 21962149),
     (BscFork Moran, ForkBlock 22107423),
     (BscFork Gibbs, ForkBlock 23846001),
     (BscFork Planck, ForkBlock 27281024),
     (BscFork Luban, ForkBlock 29020050),
     (BscFork Plato, ForkBlock 30720096),
     (EthFork EthBerlin, ForkBlock 31302048),
     (EthFork EthLondon, ForkBlock 31302048),
     (BscFork Hertz, ForkBlock 31302048),
     (BscFork HertzFix, ForkBlock 34140700),
     (EthFork EthShanghai, ForkTimestamp 1705996800),
     (BscFork Kepler, ForkTimestamp 1705996800),
     (BscFork Feynman, ForkTimestamp 1713419340),
     (BscFork FeynmanFix, ForkTimestamp 1713419340),
     (EthFork EthCancun, ForkTimestamp 1718863500),
     (BscFork Cancun, ForkTimestamp 1718863500),
     (BscFork Haber, ForkTimestamp 1718863500),
     (BscFork Tycho, ForkTimestamp 1718863500),
     (BscFork HaberFix, ForkTimestamp 1727316120),
     (BscFork Bohr, ForkTimestamp 1727317200),
     (EthFork EthPrague, ForkTimestamp 1742436600),
     (BscFork Pascal, ForkTimestamp 1742436600),
     (BscFork Lorentz, ForkTimestamp 1745903100),
     (BscFork Maxwell, ForkTimestamp 1751250600),
     (BscFork Fermi, ForkTimestamp 1768357800),
     (BscFork Osaka, ForkTimestamp 1777343400),
     (BscFork Mendel, ForkTimestamp 1777343400),
     (BscFork Pasteur, ForkTimestamp 1787625000),
     (BscFork Jenner, ForkTimestamp 1796697000)]"

definition bsc_testnet :: chain_hardforks where
  "bsc_testnet =
    [(EthFork EthFrontier, ForkBlock 0),
     (EthFork EthHomestead, ForkBlock 0),
     (EthFork EthTangerine, ForkBlock 0),
     (EthFork EthSpuriousDragon, ForkBlock 0),
     (EthFork EthByzantium, ForkBlock 0),
     (EthFork EthConstantinople, ForkBlock 0),
     (EthFork EthPetersburg, ForkBlock 0),
     (EthFork EthIstanbul, ForkBlock 0),
     (EthFork EthMuirGlacier, ForkBlock 0),
     (BscFork Ramanujan, ForkBlock 1010000),
     (BscFork Niels, ForkBlock 1014369),
     (BscFork MirrorSync, ForkBlock 5582500),
     (BscFork Bruno, ForkBlock 13837000),
     (BscFork Euler, ForkBlock 19203503),
     (BscFork Gibbs, ForkBlock 22800220),
     (BscFork Nano, ForkBlock 23482428),
     (BscFork Moran, ForkBlock 23603940),
     (BscFork Planck, ForkBlock 28196022),
     (BscFork Luban, ForkBlock 29295050),
     (BscFork Plato, ForkBlock 29861024),
     (EthFork EthBerlin, ForkBlock 31103030),
     (EthFork EthLondon, ForkBlock 31103030),
     (BscFork Hertz, ForkBlock 31103030),
     (BscFork HertzFix, ForkBlock 35682300),
     (EthFork EthShanghai, ForkTimestamp 1702972800),
     (BscFork Kepler, ForkTimestamp 1702972800),
     (BscFork Feynman, ForkTimestamp 1710136800),
     (BscFork FeynmanFix, ForkTimestamp 1711342800),
     (EthFork EthCancun, ForkTimestamp 1713330442),
     (BscFork Cancun, ForkTimestamp 1713330442),
     (BscFork Haber, ForkTimestamp 1716962820),
     (BscFork HaberFix, ForkTimestamp 1719986788),
     (BscFork Bohr, ForkTimestamp 1724116996),
     (BscFork Tycho, ForkTimestamp 1713330442),
     (EthFork EthPrague, ForkTimestamp 1740452880),
     (BscFork Pascal, ForkTimestamp 1740452880),
     (BscFork Lorentz, ForkTimestamp 1744097580),
     (BscFork Maxwell, ForkTimestamp 1748243100),
     (BscFork Fermi, ForkTimestamp 1762741500),
     (BscFork Osaka, ForkTimestamp 1774319400),
     (BscFork Mendel, ForkTimestamp 1774319400),
     (BscFork Pasteur, ForkTimestamp 1784601000),
     (BscFork Jenner, ForkTimestamp 1793241000)]"

definition bsc_qanet :: chain_hardforks where
  "bsc_qanet =
    [(EthFork EthFrontier, ForkBlock 0),
     (EthFork EthHomestead, ForkBlock 0),
     (EthFork EthTangerine, ForkBlock 0),
     (EthFork EthSpuriousDragon, ForkBlock 0),
     (EthFork EthByzantium, ForkBlock 0),
     (EthFork EthConstantinople, ForkBlock 0),
     (EthFork EthPetersburg, ForkBlock 0),
     (EthFork EthIstanbul, ForkBlock 0),
     (EthFork EthMuirGlacier, ForkBlock 0),
     (BscFork Ramanujan, ForkBlock 0),
     (BscFork Niels, ForkBlock 0),
     (BscFork MirrorSync, ForkBlock 1),
     (BscFork Bruno, ForkBlock 1),
     (BscFork Euler, ForkBlock 2),
     (BscFork Nano, ForkBlock 3),
     (BscFork Moran, ForkBlock 3),
     (BscFork Gibbs, ForkBlock 4),
     (BscFork Planck, ForkBlock 5),
     (BscFork Luban, ForkBlock 6),
     (BscFork Plato, ForkBlock 7),
     (EthFork EthBerlin, ForkBlock 8),
     (EthFork EthLondon, ForkBlock 8),
     (BscFork Hertz, ForkBlock 8),
     (BscFork HertzFix, ForkBlock 8),
     (EthFork EthShanghai, ForkTimestamp 1754967081),
     (BscFork Kepler, ForkTimestamp 1754967081),
     (BscFork Feynman, ForkTimestamp 1754967081),
     (BscFork FeynmanFix, ForkTimestamp 1754967081),
     (EthFork EthCancun, ForkTimestamp 1754967081),
     (BscFork Cancun, ForkTimestamp 1754967081),
     (BscFork Haber, ForkTimestamp 1754967081),
     (BscFork HaberFix, ForkTimestamp 1754967081),
     (BscFork Bohr, ForkTimestamp 1754967081),
     (EthFork EthPrague, ForkTimestamp 1754967081),
     (BscFork Pascal, ForkTimestamp 1754967081),
     (BscFork Lorentz, ForkTimestamp 1754967081),
     (BscFork Maxwell, ForkTimestamp 1754967101),
     (BscFork Fermi, ForkTimestamp 1761030900),
     (BscFork Osaka, ForkTimestamp 1785897000),
     (BscFork Mendel, ForkTimestamp 1785897000),
     (BscFork Pasteur, ForkTimestamp 1785920400),
     (BscFork Jenner, ForkTimestamp 1791176400)]"

definition bsc_local :: chain_hardforks where
  "bsc_local =
    [(EthFork EthFrontier, ForkBlock 0),
     (BscFork Bohr, ForkBlock 0)]"

text \<open>The documented meaning of the three predicates of a fork condition.\<close>

fun condition_active_at_block :: "fork_condition \<Rightarrow> u64 \<Rightarrow> bool" where
  "condition_active_at_block (ForkBlock b) n = (b \<le> n)"
| "condition_active_at_block _ n = False"

fun condition_transitions_at_block :: "fork_condition \<Rightarrow> u64 \<Rightarrow> bool" where
  "condition_transitions_at_block (ForkBlock b) n = (n = b)"
| "condition_transitions_at_block _ n = False"

fun condition_active_at_timestamp :: "fork_condition \<Rightarrow> u64 \<Rightarrow> bool" where
  "condition_active_at_timestamp (ForkTimestamp t) ts = (t \<le> ts)"
| "condition_active_at_timestamp _ ts = False"

definition fork_of :: "chain_hardforks \<Rightarrow> hardfork \<Rightarrow> fork_condition" where
  "fork_of hs f = unwrap_or (map_of hs f) ForkNever"

definition spec_of :: "chain_hardforks \<Rightarrow> chain_spec" where
  "spec_of hs = \<lparr>
     bsc_fork_activation = (\<lambda>f. fork_of hs (BscFork f)),
     active_at_block = condition_active_at_block,
     transitions_at_block = condition_transitions_at_block,
     active_at_timestamp = condition_active_at_timestamp,
     is_london_active_at_block = condition_active_at_block (fork_of hs (EthFork EthLondon)),
     is_prague_active_at_timestamp = condition_active_at_timestamp (fork_of hs (EthFork EthPrague))\<rparr>"

abbreviation mainnet_spec :: chain_spec where "mainnet_spec \<equiv> spec_of bsc_mainnet"
abbreviation testnet_spec :: chain_spec where "testnet_spec \<equiv> spec_of bsc_testnet"
abbreviation qanet_spec :: chain_spec where "qanet_spec \<equiv> spec_of bsc_qanet"

section \<open>The contract of a schedule\<close>

text \<open>
  Which fork the code treats as decided by the block number and which by the timestamp, and
  the order in which \<open>revm_spec_by_timestamp_and_block_number\<close> asks for them.
\<close>

definition fork_active :: "chain_spec \<Rightarrow> bsc_hardfork \<Rightarrow> u64 \<Rightarrow> u64 \<Rightarrow> bool" where
  "fork_active cs f n t =
     (if f < Kepler then active_at_block cs (bsc_fork_activation cs f) n
      else is_london_active_at_block cs n \<and> active_at_timestamp cs (bsc_fork_activation cs f) t)"

definition fork_order :: "chain_spec \<Rightarrow> bsc_hardfork list" where
  "fork_order cs =
     [Jenner, Pasteur, Mendel, Osaka, Fermi, Maxwell, Lorentz, Pascal, Bohr, HaberFix, Haber, Cancun, FeynmanFix, Feynman, Kepler, HertzFix, Hertz, Plato, Luban, Planck] @ map snd (dynamic_forks cs) @ [Euler, Bruno, MirrorSync, Niels, Ramanujan]"

definition newest_active :: "chain_spec \<Rightarrow> u64 \<Rightarrow> u64 \<Rightarrow> bsc_hardfork" where
  "newest_active cs n t = unwrap_or (find (\<lambda>f. fork_active cs f n t) (fork_order cs)) Frontier"

locale fork_schedule =
  fixes cs :: chain_spec
  assumes block_mono: "active_at_block cs c n \<Longrightarrow> n \<le> n' \<Longrightarrow> active_at_block cs c n'"
    and timestamp_mono: "active_at_timestamp cs c t \<Longrightarrow> t \<le> t' \<Longrightarrow> active_at_timestamp cs c t'"
    and london_mono: "is_london_active_at_block cs n \<Longrightarrow> n \<le> n' \<Longrightarrow> is_london_active_at_block cs n'"
begin

lemma fork_active_mono:
  "fork_active cs f n t \<Longrightarrow> n \<le> n' \<Longrightarrow> t \<le> t' \<Longrightarrow> fork_active cs f n' t'"
  by (auto simp: fork_active_def intro: block_mono timestamp_mono london_mono split: if_splits)

lemma transition_once:
  assumes A: "\<And>n t n' t'. A n t \<Longrightarrow> n \<le> n' \<Longrightarrow> t \<le> t' \<Longrightarrow> A n' t'"
    and ts: "\<And>i j. i \<le> j \<Longrightarrow> ts i \<le> ts j"
    and n: "0 < n" "\<not> A (saturating_sub n 1) (ts (n - 1))" "A n (ts n)"
    and m: "0 < m" "\<not> A (saturating_sub m 1) (ts (m - 1))" "A m (ts m)"
  shows "n = (m :: u64)"
proof -
  have less: False
    if "i < j" "0 < j" "A i (ts i)" "\<not> A (saturating_sub j 1) (ts (j - 1))" for i j :: u64
  proof -
    from that have "i \<le> j - 1" and "1 \<le> j"
      by (simp_all add: word_le_nat_alt word_less_nat_alt unat_sub unat_minus_one)
    then have "A (j - 1) (ts (j - 1))"
      using A that(3) ts by blast
    with that(4) \<open>1 \<le> j\<close> show False by (simp add: saturating_sub_def)
  qed
  show ?thesis using less [of n m] less [of m n] n m by (meson linorder_less_linear)
qed

end

lemma find_or_append:
  "unwrap_or (find P (xs @ ys)) d = unwrap_or (find P xs) (unwrap_or (find P ys) d)"
  by (induction xs) auto

lemma find_or_Cons:
  "unwrap_or (find P (x # xs)) d = (if P x then x else unwrap_or (find P xs) d)"
  by simp

lemma find_map: "find P (map f xs) = map_option f (find (P \<circ> f) xs)"
  by (induction xs) auto

lemma find_first: "find P xs = Some x \<Longrightarrow> P x \<and> (\<exists>ys zs. xs = ys @ x # zs \<and> (\<forall>y \<in> set ys. \<not> P y))"
proof (induction xs)
  case (Cons a xs)
  show ?case
  proof (cases "P a")
    case True
    with Cons.prems have "P x" "a # xs = [] @ x # xs" by simp_all
    then show ?thesis by fastforce
  next
    case False
    with Cons obtain ys zs where "P x" "xs = ys @ x # zs" "\<forall>y \<in> set ys. \<not> P y" by auto
    then have "a # xs = (a # ys) @ x # zs" "\<forall>y \<in> set (a # ys). \<not> P y" using False by auto
    with \<open>P x\<close> show ?thesis by blast
  qed
qed simp

lemma find_mono:
  fixes d :: "'a::linorder"
  assumes "sorted_wrt (>) (xs @ [d])" and "\<And>x. P x \<Longrightarrow> Q x"
  shows "unwrap_or (find P xs) d \<le> unwrap_or (find Q xs) d"
  using assms(1)
proof (induction xs)
  case (Cons a xs)
  have "unwrap_or (find P xs) d \<in> set (xs @ [d])"
    by (induction xs) auto
  with Cons.prems have "unwrap_or (find P xs) d < a" by auto
  with Cons assms(2) show ?case by auto
qed simp

text \<open>The cascade of the code returns the first active fork of \<open>fork_order\<close>.\<close>

lemma dynamic_forks_find:
  "find (\<lambda>f. fork_active cs f n t) (map snd (dynamic_forks cs)) =
     map_option snd (find (\<lambda>(_, f). active_at_block cs (bsc_fork_activation cs f) n) (dynamic_forks cs))"
proof -
  have "set (dynamic_forks cs) \<subseteq> UNIV \<times> {Gibbs, Moran, Nano}"
    by (auto simp: dynamic_forks_def Let_def)
  then have "find ((\<lambda>f. fork_active cs f n t) \<circ> snd) xs =
      find (\<lambda>(_, f). active_at_block cs (bsc_fork_activation cs f) n) xs"
    if "set xs \<subseteq> set (dynamic_forks cs)" for xs
    using that by (induction xs) (auto simp: fork_active_def less_bsc_hardfork_def)
  then show ?thesis by (simp add: find_map)
qed

lemma revm_spec_eq_newest_active:
  "revm_spec_by_timestamp_and_block_number cs t n = newest_active cs n t"
  unfolding revm_spec_by_timestamp_and_block_number_def newest_active_def fork_order_def
    find_or_append find_or_Cons dynamic_forks_find
  by (cases "find (\<lambda>(_, f). active_at_block cs (bsc_fork_activation cs f) n) (dynamic_forks cs)")
    (simp_all add: fork_active_def less_bsc_hardfork_def fork_defs case_prod_beta
      cong: if_cong split del: if_split)

section \<open>The schedules of the sources meet the contract\<close>

lemma condition_block_mono:
  "condition_active_at_block c n \<Longrightarrow> n \<le> n' \<Longrightarrow> condition_active_at_block c n'"
  by (cases c) auto

lemma condition_timestamp_mono:
  "condition_active_at_timestamp c n \<Longrightarrow> n \<le> n' \<Longrightarrow> condition_active_at_timestamp c n'"
  by (cases c) auto

lemma spec_of_schedule: "fork_schedule (spec_of hs)"
  by unfold_locales
    (auto simp: spec_of_def intro: condition_block_mono condition_timestamp_mono)

interpretation mainnet: fork_schedule mainnet_spec
  by (rule spec_of_schedule)

interpretation testnet: fork_schedule testnet_spec
  by (rule spec_of_schedule)

interpretation qanet: fork_schedule qanet_spec
  by (rule spec_of_schedule)

lemma mainnet_dynamic_forks:
  "map snd (dynamic_forks mainnet_spec) = [Gibbs, Moran, Nano]"
  by (simp add: dynamic_forks_def spec_of_def fork_of_def bsc_mainnet_def get_activation_block_def
      desc_key_def)

lemma testnet_dynamic_forks:
  "map snd (dynamic_forks testnet_spec) = [Moran, Nano, Gibbs]"
  by (simp add: dynamic_forks_def spec_of_def fork_of_def bsc_testnet_def get_activation_block_def
      desc_key_def)

lemma mainnet_fork_order_sorted: "sorted_wrt (>) (fork_order mainnet_spec @ [Frontier])"
  unfolding fork_order_def mainnet_dynamic_forks by (simp add: less_bsc_hardfork_def)

section \<open>Properties\<close>


text \<open>
  C26. On mainnet the picked hardfork never goes back: a later block (higher number, later
  timestamp) runs under the same or a later hardfork.
\<close>

theorem mainnet_spec_monotone:
  assumes "n \<le> n'" and "t \<le> t'"
  shows "revm_spec_by_timestamp_and_block_number mainnet_spec t n \<le>
         revm_spec_by_timestamp_and_block_number mainnet_spec t' n'"
  unfolding revm_spec_eq_newest_active newest_active_def
  using mainnet_fork_order_sorted assms by (intro find_mono) (auto intro: mainnet.fork_active_mono)

theorem mainnet_spec_monotone_witness:
  "revm_spec_by_timestamp_and_block_number mainnet_spec 0 100 \<le>
   revm_spec_by_timestamp_and_block_number mainnet_spec 1727317200 42000000"
  using mainnet_spec_monotone [of 100 42000000 0 1727317200] by simp

text \<open>
  A time-based fork is entered at one block only: along a chain whose timestamps do not
  decrease, the Feynman transition (which triggers the one-off initialisation of the system
  contracts) is reported for at most one block number.
\<close>

theorem feynman_transition_once:
  assumes "fork_schedule cs" and "\<And>i j. i \<le> j \<Longrightarrow> ts i \<le> ts j" and "0 < n" and "0 < m"
    and "is_feynman_transition_at_timestamp cs n (ts n) (ts (n - 1))"
    and "is_feynman_transition_at_timestamp cs m (ts m) (ts (m - 1))"
  shows "n = m"
proof -
  let ?A = "is_feynman_active_at_timestamp cs"
  have mono: "?A i t \<Longrightarrow> i \<le> j \<Longrightarrow> t \<le> t' \<Longrightarrow> ?A j t'" for i j t t'
    using fork_schedule.fork_active_mono [OF assms(1), of Feynman i t j t']
    by (simp add: fork_active_def less_bsc_hardfork_def fork_defs)
  show ?thesis
    using assms(5,6) fork_schedule.transition_once [OF assms(1), of ?A ts n m, OF mono assms(2)] assms(3,4)
    by (simp add: is_feynman_transition_at_timestamp_def)
qed

theorem feynman_transition_once_witness:
  "{m :: u64. 0 < m \<and>
     is_feynman_transition_at_timestamp mainnet_spec m (if m < 40000000 then 0 else 1713419340)
       (if m - 1 < 40000000 then 0 else 1713419340)} = {40000000}"
proof -
  let ?ts = "\<lambda>i :: u64. if i < 40000000 then 0 else 1713419340 :: u64"
  have first: "is_feynman_transition_at_timestamp mainnet_spec 40000000 (?ts 40000000) (?ts (40000000 - 1))"
    by (simp add: fork_defs saturating_sub_def spec_of_def fork_of_def bsc_mainnet_def)
  have "m = 40000000"
    if "0 < m" and "is_feynman_transition_at_timestamp mainnet_spec m (?ts m) (?ts (m - 1))" for m
    using that first
    by (intro feynman_transition_once [where ts = ?ts, OF spec_of_schedule]) auto
  with first show ?thesis by auto
qed

end
