(* ===== verification/Headers.thy ===== *)
theory Headers
  imports Hardforks
begin

unbundle bit_operations_syntax

text \<open>
  Block headers, votes and the header helpers of \<open>src/consensus/parlia/util.rs\<close>,
  \<open>src/consensus/parlia/vote.rs\<close> and \<open>src/consensus/parlia/constants.rs\<close>.

  The header is the record of the fields the sources read. Hashing and RLP are library code:
  \<open>keccak256\<close> and the encoder of one RLP item (\<open>enc\<close>, with its declared length \<open>len\<close>) are
  arguments of the definitions that use them.
\<close>

section \<open>Data\<close>

record header =
  parent_hash :: b256
  ommers_hash :: b256
  beneficiary :: address
  state_root :: b256
  transactions_root :: b256
  receipts_root :: b256
  logs_bloom :: "2048 word"
  difficulty :: u256
  number :: u64
  gas_limit :: u64
  gas_used :: u64
  timestamp :: u64
  extra_data :: bytes
  mix_hash :: b256
  nonce :: u64
  base_fee_per_gas :: "u64 option"
  withdrawals_root :: "b256 option"
  blob_gas_used :: "u64 option"
  excess_blob_gas :: "u64 option"
  parent_beacon_block_root :: "b256 option"
  requests_hash :: "b256 option"
  block_access_list_hash :: "b256 option"
  slot_number :: "u64 option"

record vote_data =
  source_number :: u64
  source_hash :: b256
  target_number :: u64
  target_hash :: b256

definition vote_data_default :: vote_data where
  "vote_data_default = \<lparr>source_number = 0, source_hash = 0, target_number = 0, target_hash = 0\<rparr>"

record vote_envelope =
  vote_address :: vote_address
  signature :: vote_signature
  data :: vote_data

record vote_attestation =
  vote_address_set :: u64
  agg_signature :: vote_signature
  att_data :: vote_data
  att_extra :: bytes

definition new_with_vote_data :: "vote_data \<Rightarrow> vote_attestation" where
  "new_with_vote_data d = \<lparr>vote_address_set = 0, agg_signature = 0, att_data = d, att_extra = []\<rparr>"

section \<open>Constants\<close>

definition EXTRA_VANITY_LEN :: nat where "EXTRA_VANITY_LEN = 32"
definition EXTRA_SEAL_LEN :: nat where "EXTRA_SEAL_LEN = 65"
definition VALIDATOR_NUMBER_SIZE :: nat where "VALIDATOR_NUMBER_SIZE = 1"
definition VALIDATOR_BYTES_LEN_BEFORE_LUBAN :: nat where "VALIDATOR_BYTES_LEN_BEFORE_LUBAN = 20"
definition VALIDATOR_BYTES_LEN_AFTER_LUBAN :: nat where "VALIDATOR_BYTES_LEN_AFTER_LUBAN = 68"
definition TURN_LENGTH_SIZE :: nat where "TURN_LENGTH_SIZE = 1"
definition ADDRESS_LENGTH :: nat where "ADDRESS_LENGTH = 20"
definition DIFF_INTURN :: u256 where "DIFF_INTURN = 2"
definition DIFF_NOTURN :: u256 where "DIFF_NOTURN = 1"
definition BACKOFF_TIME_OF_INITIAL :: u64 where "BACKOFF_TIME_OF_INITIAL = 1000"
definition LORENTZ_BACKOFF_TIME_OF_INITIAL :: u64 where "LORENTZ_BACKOFF_TIME_OF_INITIAL = 2000"
definition BACKOFF_TIME_OF_WIGGLE :: u64 where "BACKOFF_TIME_OF_WIGGLE = 1000"
definition SYSTEM_TXS_GAS_HARD_LIMIT :: u64 where "SYSTEM_TXS_GAS_HARD_LIMIT = 20000000"
definition SYSTEM_TXS_GAS_SOFT_LIMIT :: u64 where "SYSTEM_TXS_GAS_SOFT_LIMIT = 1000000"
definition FIXED_BACKOFF_TIME_BEFORE_FORK_MILLIS :: u64 where
  "FIXED_BACKOFF_TIME_BEFORE_FORK_MILLIS = 200"
definition WIGGLE_TIME_BEFORE_FORK_MILLIS :: u64 where "WIGGLE_TIME_BEFORE_FORK_MILLIS = 500"
definition MILLISECONDS_UNIT :: u64 where "MILLISECONDS_UNIT = 50"
definition K_ANCESTOR_GENERATION_DEPTH :: nat where "K_ANCESTOR_GENERATION_DEPTH = 3"
definition EMPTY_WITHDRAWALS_HASH :: b256 where
  "EMPTY_WITHDRAWALS_HASH = 0x56e81f171bcc55a6ff8345e692c0f86e5b48e01b996cadc001622fb5e363b421"

lemmas extra_consts =
  EXTRA_VANITY_LEN_def EXTRA_SEAL_LEN_def VALIDATOR_NUMBER_SIZE_def
  VALIDATOR_BYTES_LEN_BEFORE_LUBAN_def VALIDATOR_BYTES_LEN_AFTER_LUBAN_def TURN_LENGTH_SIZE_def
  ADDRESS_LENGTH_def

section \<open>Breathe blocks\<close>

text \<open>
  \<open>interval\<close> is the parsed value of the environment variable \<open>BREATHE_BLOCK_INTERVAL\<close>, if it
  is set to a number. A zero interval divides by zero.
\<close>

definition SECONDS_PER_DAY :: u64 where "SECONDS_PER_DAY = 86400"

definition is_same_day_in_utc :: "u64 option \<Rightarrow> u64 \<Rightarrow> u64 \<Rightarrow> bool option" where
  "is_same_day_in_utc interval_env first second =
     (let interval = unwrap_or interval_env SECONDS_PER_DAY in
      do { a \<leftarrow> checked_div first interval; b \<leftarrow> checked_div second interval; Some (a = b) })"

definition is_breathe_block :: "u64 option \<Rightarrow> u64 \<Rightarrow> u64 \<Rightarrow> bool option" where
  "is_breathe_block interval_env last_block_time block_time =
     (if last_block_time \<noteq> 0
      then map_option Not (is_same_day_in_utc interval_env last_block_time block_time)
      else Some False)"

section \<open>Millisecond timestamps\<close>

definition millisecond_remainder :: "header \<Rightarrow> u64" where
  "millisecond_remainder h =
     (let mix_digest = mix_hash h in
      if mix_digest \<noteq> 0 then
        foldl (\<lambda>result byte. push_bit 8 result OR ucast byte) 0 (take 8 (drop 24 (to_be 32 mix_digest)))
      else 0)"

definition calculate_millisecond_timestamp :: "header \<Rightarrow> u64" where
  "calculate_millisecond_timestamp h = timestamp h * 1000 + millisecond_remainder h"

definition set_millisecond_part_of_timestamp :: "u64 \<Rightarrow> header \<Rightarrow> header" where
  "set_millisecond_part_of_timestamp timestamp_ms h =
     (let milliseconds_part = timestamp_ms mod 1000;
          mix_hash_bytes = replicate 24 0 @ to_be 8 milliseconds_part
      in h\<lparr>mix_hash := from_be mix_hash_bytes\<rparr>)"

section \<open>The seal preimage\<close>

datatype rlp_item =
    RlpU256 u256 | RlpU64 u64 | RlpB256 b256 | RlpAddress address | RlpBloom "2048 word"
  | RlpB64 u64 | RlpBytes bytes

definition signed_extra_data :: "header \<Rightarrow> bytes" where
  "signed_extra_data h = take (length (extra_data h) - EXTRA_SEAL_LEN) (extra_data h)"

text \<open>The optional tail: present when the beacon root is present and zero.\<close>

definition encode_optional_fields :: "header \<Rightarrow> rlp_item list" where
  "encode_optional_fields h =
     (case parent_beacon_block_root h of
        Some root \<Rightarrow>
          if root = 0 then
            [RlpU256 (ucast (unwrap_or (base_fee_per_gas h) 0)),
             RlpB256 (unwrap_or (withdrawals_root h) 0),
             RlpU64 (unwrap_or (blob_gas_used h) 0),
             RlpU64 (unwrap_or (excess_blob_gas h) 0),
             RlpB256 root] @
            (case requests_hash h of Some r \<Rightarrow> [RlpB256 r] | None \<Rightarrow> [])
          else []
      | None \<Rightarrow> [])"

definition rlp_header_payload_length :: "(rlp_item \<Rightarrow> nat) \<Rightarrow> header \<Rightarrow> u64 \<Rightarrow> nat" where
  "rlp_header_payload_length len h chain_id =
     (let n0 = len (RlpU256 (ucast chain_id));
          n1 = n0 + len (RlpB256 (parent_hash h));
          n2 = n1 + len (RlpB256 (ommers_hash h));
          n3 = n2 + len (RlpAddress (beneficiary h));
          n4 = n3 + len (RlpB256 (state_root h));
          n5 = n4 + len (RlpB256 (transactions_root h));
          n6 = n5 + len (RlpB256 (receipts_root h));
          n7 = n6 + len (RlpBloom (logs_bloom h));
          n8 = n7 + len (RlpU256 (difficulty h));
          n9 = n8 + len (RlpU256 (ucast (number h)));
          n10 = n9 + len (RlpU64 (gas_limit h));
          n11 = n10 + len (RlpU64 (gas_used h));
          n12 = n11 + len (RlpU64 (timestamp h));
          n13 = n12 + len (RlpBytes (signed_extra_data h));
          n14 = n13 + len (RlpB256 (mix_hash h));
          n15 = n14 + len (RlpB64 (nonce h))
      in case parent_beacon_block_root h of
           Some root \<Rightarrow>
             if root = 0 then
               (let m1 = n15 + len (RlpU256 (ucast (unwrap_or (base_fee_per_gas h) 0)));
                    m2 = m1 + len (RlpB256 (unwrap_or (withdrawals_root h) 0));
                    m3 = m2 + len (RlpU64 (unwrap_or (blob_gas_used h) 0));
                    m4 = m3 + len (RlpU64 (unwrap_or (excess_blob_gas h) 0));
                    m5 = m4 + len (RlpB256 root)
                in case requests_hash h of Some r \<Rightarrow> m5 + len (RlpB256 r) | None \<Rightarrow> m5)
             else n15
         | None \<Rightarrow> n15)"

definition encode_header_fields :: "header \<Rightarrow> u64 \<Rightarrow> rlp_item list" where
  "encode_header_fields h chain_id =
     [RlpU256 (ucast chain_id), RlpB256 (parent_hash h), RlpB256 (ommers_hash h),
      RlpAddress (beneficiary h), RlpB256 (state_root h), RlpB256 (transactions_root h),
      RlpB256 (receipts_root h), RlpBloom (logs_bloom h), RlpU256 (difficulty h),
      RlpU256 (ucast (number h)), RlpU64 (gas_limit h), RlpU64 (gas_used h), RlpU64 (timestamp h),
      RlpBytes (signed_extra_data h), RlpB256 (mix_hash h), RlpB64 (nonce h)]
     @ encode_optional_fields h"

definition encode_header_with_chain_id ::
  "(rlp_item \<Rightarrow> bytes) \<Rightarrow> (rlp_item \<Rightarrow> nat) \<Rightarrow> (nat \<Rightarrow> bytes) \<Rightarrow> header \<Rightarrow> u64 \<Rightarrow> bytes" where
  "encode_header_with_chain_id enc len list_head h chain_id =
     list_head (rlp_header_payload_length len h chain_id) @
     concat (map enc (encode_header_fields h chain_id))"

definition hash_with_chain_id ::
  "(bytes \<Rightarrow> b256) \<Rightarrow> (rlp_item \<Rightarrow> bytes) \<Rightarrow> (rlp_item \<Rightarrow> nat) \<Rightarrow> (nat \<Rightarrow> bytes) \<Rightarrow>
     header \<Rightarrow> u64 \<Rightarrow> b256" where
  "hash_with_chain_id keccak256 enc len list_head h chain_id =
     keccak256 (encode_header_with_chain_id enc len list_head h chain_id)"

section \<open>Facts\<close>

lemma payload_length_sum:
  "rlp_header_payload_length len h chain_id = sum_list (map len (encode_header_fields h chain_id))"
  by (simp add: rlp_header_payload_length_def encode_header_fields_def encode_optional_fields_def
      Let_def split: option.split)

text \<open>Shifting a byte in is multiplication by 256, as long as the value fits.\<close>

lemma shift_or_byte:
  fixes acc :: u64
  assumes "unat acc * 256 < 2 ^ 64"
  shows "push_bit 8 acc OR ucast (b :: u8) = word_of_nat (unat acc * 256 + unat b)"
proof -
  have "push_bit 8 acc AND ucast b = 0"
    by (rule bit_word_eqI) (auto simp: bit_simps dest: bit_imp_le_length)
  then have "push_bit 8 acc OR ucast b = push_bit 8 acc + ucast b"
    by (rule disjunctive_add_eq_or [symmetric])
  then show ?thesis by (simp add: push_bit_eq_mult)
qed

lemma fold_bytes_be:
  "length bs \<le> 8 \<Longrightarrow>
     foldl (\<lambda>result byte. push_bit 8 result OR ucast byte) 0 bs = (word_of_nat (be_nat bs) :: u64)"
proof (induction bs rule: rev_induct)
  case (snoc b bs)
  have "be_nat bs < 256 ^ 7"
  proof -
    have "(256::nat) ^ length bs \<le> 256 ^ 7" using snoc.prems by (intro power_increasing) simp_all
    with be_nat_bound [of bs] show ?thesis by linarith
  qed
  then have "unat (word_of_nat (be_nat bs) :: u64) = be_nat bs"
    by (simp add: unat_of_nat)
  with \<open>be_nat bs < 256 ^ 7\<close> snoc show ?case by (simp add: shift_or_byte)
qed simp

lemma drop_nat_be: "drop n (nat_be (n + m) x) = nat_be m x"
  by (induction m arbitrary: x) simp_all

lemma be_nat_zeros [simp]: "be_nat (replicate n 0 @ bs) = be_nat bs"
proof -
  have "foldl (\<lambda>acc b. acc * 256 + unat b) 0 (replicate n (0 :: u8)) = 0"
    by (induction n) simp_all
  then show ?thesis by (simp add: be_nat_def)
qed

lemma millisecond_remainder_eq: "millisecond_remainder h = ucast (mix_hash h)"
proof -
  have "take 8 (drop 24 (to_be 32 (mix_hash h))) = nat_be 8 (unat (mix_hash h))"
    using drop_nat_be [of 24 8 "unat (mix_hash h)"] by (simp add: to_be_def)
  then have "foldl (\<lambda>result byte. push_bit 8 result OR ucast byte) 0
      (take 8 (drop 24 (to_be 32 (mix_hash h)))) = (word_of_nat (unat (mix_hash h) mod 256 ^ 8) :: u64)"
    by (simp only: fold_bytes_be length_nat_be be_nat_nat_be order_refl)
  also have "\<dots> = ucast (mix_hash h)"
    by (simp add: word_unat_eq_iff unat_of_nat unsigned_ucast_eq take_bit_eq_mod)
  finally show ?thesis by (simp add: millisecond_remainder_def Let_def)
qed

lemma mix_hash_set_millisecond:
  "mix_hash (set_millisecond_part_of_timestamp ms h) = ucast (ms mod 1000)"
proof -
  have "unat (ms mod 1000) < 256 ^ 8" using unat_lt2p [of "ms mod 1000"] by simp
  then have "be_nat (to_be 8 (ms mod 1000)) = unat (ms mod 1000)"
    by (simp only: to_be_def be_nat_nat_be mod_less)
  then show ?thesis
    by (simp add: set_millisecond_part_of_timestamp_def Let_def from_be_def)
qed

lemma millisecond_remainder_set:
  "millisecond_remainder (set_millisecond_part_of_timestamp ms h) = ms mod 1000"
  by (simp add: millisecond_remainder_eq mix_hash_set_millisecond ucast_ucast_up)

lemma set_millisecond_fields [simp]:
  "timestamp (set_millisecond_part_of_timestamp ms h) = timestamp h"
  "number (set_millisecond_part_of_timestamp ms h) = number h"
  "extra_data (set_millisecond_part_of_timestamp ms h) = extra_data h"
  "beneficiary (set_millisecond_part_of_timestamp ms h) = beneficiary h"
  by (simp_all add: set_millisecond_part_of_timestamp_def Let_def)

lemma millisecond_timestamp_round_trip:
  "timestamp h = ms div 1000 \<Longrightarrow>
     calculate_millisecond_timestamp (set_millisecond_part_of_timestamp ms h) = ms"
  by (simp add: calculate_millisecond_timestamp_def millisecond_remainder_set word_mod_div_equality)

lemma hash_of_body:
  assumes "length seal = EXTRA_SEAL_LEN" and "length seal' = EXTRA_SEAL_LEN"
  shows "hash_with_chain_id keccak256 enc len list_head (h\<lparr>extra_data := body @ seal\<rparr>) chain_id =
         hash_with_chain_id keccak256 enc len list_head (h\<lparr>extra_data := body @ seal'\<rparr>) chain_id"
  using assms
  by (simp add: hash_with_chain_id_def encode_header_with_chain_id_def payload_length_sum
      encode_header_fields_def encode_optional_fields_def signed_extra_data_def split: option.splits)

section \<open>Sample header\<close>

text \<open>The header the concrete instances of the development are evaluated on.\<close>

definition sample_header :: "u64 \<Rightarrow> u64 \<Rightarrow> header" where
  "sample_header n ts =
     \<lparr>parent_hash = 0, ommers_hash = 0, beneficiary = 0, state_root = 0, transactions_root = 0,
      receipts_root = 0, logs_bloom = 0, difficulty = 2, number = n, gas_limit = 0, gas_used = 0,
      timestamp = ts, extra_data = [], mix_hash = 0, nonce = 0, base_fee_per_gas = None,
      withdrawals_root = None, blob_gas_used = None, excess_blob_gas = None,
      parent_beacon_block_root = None, requests_hash = None, block_access_list_hash = None,
      slot_number = None\<rparr>"

section \<open>Properties\<close>

text \<open>
  C29. Millisecond timestamps round-trip: writing the millisecond part of a timestamp into the mix
  digest of a header with the matching seconds and reading the header's timestamp back gives the
  timestamp written.
\<close>

theorem millisecond_round_trip:
  assumes "timestamp h = ms div 1000"
  shows "calculate_millisecond_timestamp (set_millisecond_part_of_timestamp ms h) = ms"
  using assms by (rule millisecond_timestamp_round_trip)

theorem millisecond_round_trip_witness:
  "calculate_millisecond_timestamp
     (set_millisecond_part_of_timestamp 1768357800450 (sample_header 5 1768357800)) = 1768357800450"
  by (rule millisecond_round_trip) (simp add: sample_header_def)

text \<open>
  The seal preimage is a well-formed list: the payload length written in its RLP head is the
  number of bytes that follow, on every header, given only that the library's \<open>length\<close> is the
  length of its \<open>encode\<close>.
\<close>

theorem seal_preimage_length:
  assumes "\<And>x. len x = length (enc x)"
  shows "encode_header_with_chain_id enc len list_head h chain_id =
           list_head (length (concat (map enc (encode_header_fields h chain_id)))) @
           concat (map enc (encode_header_fields h chain_id))"
proof -
  have "len = (\<lambda>x. length (enc x))" using assms by (rule ext)
  then show ?thesis
    by (simp add: encode_header_with_chain_id_def payload_length_sum length_concat comp_def)
qed

theorem seal_preimage_length_witness:
  "encode_header_with_chain_id (\<lambda>_. [1, 2]) (\<lambda>_. 2) (\<lambda>n. [word_of_nat n]) (sample_header 5 0) 56 =
     word_of_nat (length (concat (map (\<lambda>_. [1, 2 :: u8]) (encode_header_fields (sample_header 5 0) 56)))) #
     concat (map (\<lambda>_. [1, 2]) (encode_header_fields (sample_header 5 0) 56))"
  using seal_preimage_length [of "\<lambda>_. 2" "\<lambda>_. [1, 2]"] by simp

text \<open>
  The seal hash does not depend on the seal: two headers that differ only in the last 65 bytes
  of the extra data have the same hash to sign, so the signature can be put there afterwards.
\<close>

theorem seal_hash_ignores_seal:
  assumes "length seal = EXTRA_SEAL_LEN" and "length seal' = EXTRA_SEAL_LEN"
  shows "hash_with_chain_id keccak256 enc len list_head (h\<lparr>extra_data := body @ seal\<rparr>) chain_id =
         hash_with_chain_id keccak256 enc len list_head (h\<lparr>extra_data := body @ seal'\<rparr>) chain_id"
  using assms by (rule hash_of_body)

theorem seal_hash_ignores_seal_witness:
  "hash_with_chain_id from_be (\<lambda>_. [1]) (\<lambda>_. 1) (\<lambda>_. []) (sample_header 1 2\<lparr>extra_data := [9] @ replicate 65 0\<rparr>) 56 =
   hash_with_chain_id from_be (\<lambda>_. [1]) (\<lambda>_. 1) (\<lambda>_. []) (sample_header 1 2\<lparr>extra_data := [9] @ replicate 65 7\<rparr>) 56"
  by (rule seal_hash_ignores_seal) (simp_all add: extra_consts)

end
