(* ===== verification/ForkChoice.thy ===== *)
theory ForkChoice
  imports Headers "HOL-Library.Product_Lexorder"
begin

text \<open>
  \<open>src/consensus/parlia/forkchoice_rule.rs\<close>: whether an incoming header replaces the current
  head. The block hash is an argument (\<open>hash\<close>), and so is the outcome of the coin toss for two
  blocks of different proposers that tie on everything else (\<open>coin\<close>, the value of
  \<open>random::<f64>() < 0.5\<close>).
\<close>

section \<open>The rule\<close>

record header_for_forkchoice =
  fc_header :: header
  td :: "u256 option"
  justified_num :: u64

datatype parlia_consensus_err =
    ProviderErr string
  | HeadHashNotFound
  | ForkChoiceUpdateError string
  | UnknownTotalDifficulty b256 u64
  | InternalErr string

definition head_choice_with_fast_finality ::
  "chain_spec \<Rightarrow> header_for_forkchoice \<Rightarrow> header_for_forkchoice \<Rightarrow> bool option" where
  "head_choice_with_fast_finality cs incoming current =
     (if \<not> is_plato_active_at_block cs (number (fc_header incoming)) \<and>
         \<not> is_plato_active_at_block cs (number (fc_header current)) then None
      else if justified_num incoming \<noteq> justified_num current
      then Some (justified_num incoming > justified_num current)
      else None)"

definition equal_td_choice ::
  "(header \<Rightarrow> b256) \<Rightarrow> bool \<Rightarrow> header \<Rightarrow> header \<Rightarrow> bool" where
  "equal_td_choice hash coin incoming current =
     (if number incoming < number current then True
      else if number incoming > number current then False
      else if timestamp incoming = timestamp current then
        (if beneficiary incoming = beneficiary current then hash incoming < hash current
         else coin)
      else timestamp incoming < timestamp current)"

definition head_choice_with_td ::
  "(header \<Rightarrow> b256) \<Rightarrow> bool \<Rightarrow> header_for_forkchoice \<Rightarrow> header_for_forkchoice \<Rightarrow>
     parlia_consensus_err + bool" where
  "head_choice_with_td hash coin incoming current =
     res_bind (ok_or (td current)
         (UnknownTotalDifficulty (hash (fc_header current)) (number (fc_header current)))) (\<lambda>current_td.
     res_bind (ok_or (td incoming)
         (UnknownTotalDifficulty (hash (fc_header incoming)) (number (fc_header incoming)))) (\<lambda>incoming_td.
     if incoming_td > current_td then Inr True
     else if incoming_td < current_td then Inr False
     else Inr (equal_td_choice hash coin (fc_header incoming) (fc_header current))))"

definition is_need_reorg ::
  "(header \<Rightarrow> b256) \<Rightarrow> bool \<Rightarrow> chain_spec \<Rightarrow> header_for_forkchoice \<Rightarrow> header_for_forkchoice \<Rightarrow>
     parlia_consensus_err + bool" where
  "is_need_reorg hash coin cs incoming current =
     (case head_choice_with_fast_finality cs incoming current of
        Some need_reorg \<Rightarrow> Inr need_reorg
      | None \<Rightarrow> head_choice_with_td hash coin incoming current)"

section \<open>The order behind the rule\<close>

text \<open>
  Heads are compared by justified number, then total difficulty, then lower number, then earlier
  timestamp. The rank of a head is that tuple, read so that a better head has a larger rank.
\<close>

definition fc_rank :: "header_for_forkchoice \<Rightarrow> int \<times> int \<times> int \<times> int" where
  "fc_rank x =
     (uint (justified_num x), uint (unwrap_or (td x) 0),
      - uint (number (fc_header x)), - uint (timestamp (fc_header x)))"

lemma rank_less_iff:
  assumes "td x = Some a" and "td y = Some b"
  shows "fc_rank x < fc_rank y \<longleftrightarrow>
    justified_num x < justified_num y \<or> (justified_num x = justified_num y \<and>
      (a < b \<or> (a = b \<and>
        (number (fc_header y) < number (fc_header x) \<or> (number (fc_header y) = number (fc_header x) \<and>
          timestamp (fc_header y) < timestamp (fc_header x))))))"
  using assms by (auto simp: fc_rank_def word_less_def word_uint_eq_iff)

lemma rank_eq_iff:
  assumes "td x = Some a" and "td y = Some b"
  shows "fc_rank x = fc_rank y \<longleftrightarrow>
    justified_num x = justified_num y \<and> a = b \<and> number (fc_header y) = number (fc_header x) \<and>
    timestamp (fc_header y) = timestamp (fc_header x)"
  using assms by (auto simp: fc_rank_def word_uint_eq_iff)

definition plato_on :: "chain_spec \<Rightarrow> header_for_forkchoice \<Rightarrow> bool" where
  "plato_on cs x = is_plato_active_at_block cs (number (fc_header x))"

lemma need_reorg_rank:
  assumes "plato_on cs current" and "td incoming = Some a" and "td current = Some b"
  shows "is_need_reorg hash coin cs incoming current =
    Inr (fc_rank current < fc_rank incoming \<or>
         (fc_rank current = fc_rank incoming \<and>
          (if beneficiary (fc_header incoming) = beneficiary (fc_header current)
           then hash (fc_header incoming) < hash (fc_header current) else coin)))"
  unfolding rank_less_iff [OF assms(3,2)] rank_eq_iff [OF assms(3,2)]
  using assms
  by (auto simp: is_need_reorg_def head_choice_with_fast_finality_def head_choice_with_td_def
      equal_td_choice_def plato_on_def not_less_iff_gr_or_eq split: option.splits)

text \<open>A run of head switches: each new head won the fork choice against the one before.\<close>

inductive head_switch ::
  "(header \<Rightarrow> b256) \<Rightarrow> chain_spec \<Rightarrow> header_for_forkchoice \<Rightarrow> header_for_forkchoice \<Rightarrow> bool"
  for hash cs where
  "plato_on cs current \<Longrightarrow> is_need_reorg hash coin cs incoming current = Inr True \<Longrightarrow>
     head_switch hash cs current incoming"

inductive_cases head_switchE: "head_switch hash cs x y"

lemma head_switch_justified: "head_switch hash cs x y \<Longrightarrow> justified_num x \<le> justified_num y"
  by (erule head_switchE)
    (auto simp: is_need_reorg_def head_choice_with_fast_finality_def plato_on_def
      split: if_splits option.splits)

interpretation head_runs: transition_system
  "\<lambda>x. x = x0" "head_switch hash cs" "\<lambda>y. justified_num x0 \<le> justified_num y" for x0 hash cs
  by unfold_locales (auto dest: head_switch_justified)

section \<open>Properties\<close>

text \<open>
  C31. The fork choice is a lexicographic order. With Plato active and total difficulties known, an
  incoming head replaces the current one exactly when its rank (justified number, total
  difficulty, lower height, earlier timestamp) is larger; on equal ranks the lower hash wins
  between blocks of one proposer and the coin decides between two proposers.
\<close>

theorem forkchoice_lexicographic:
  assumes "plato_on cs current" and "td incoming = Some a" and "td current = Some b"
  shows "is_need_reorg hash coin cs incoming current =
    Inr (fc_rank current < fc_rank incoming \<or>
         (fc_rank current = fc_rank incoming \<and>
          (if beneficiary (fc_header incoming) = beneficiary (fc_header current)
           then hash (fc_header incoming) < hash (fc_header current) else coin)))"
  using assms by (rule need_reorg_rank)

theorem forkchoice_lexicographic_witness:
  "is_need_reorg (\<lambda>_. 0) False mainnet_spec
     \<lparr>fc_header = sample_header 40000000 7, td = Some 9, justified_num = 3\<rparr>
     \<lparr>fc_header = sample_header 40000000 8, td = Some 9, justified_num = 3\<rparr> = Inr True"
proof -
  let ?y = "\<lparr>fc_header = sample_header 40000000 7, td = Some 9, justified_num = 3\<rparr>"
  let ?x = "\<lparr>fc_header = sample_header 40000000 8, td = Some 9, justified_num = 3\<rparr>"
  have "plato_on mainnet_spec ?x" by code_simp
  then have "is_need_reorg (\<lambda>_. 0) False mainnet_spec ?y ?x = Inr (fc_rank ?x < fc_rank ?y \<or>
      (fc_rank ?x = fc_rank ?y \<and> (if beneficiary (fc_header ?y) = beneficiary (fc_header ?x)
         then (0 :: b256) < 0 else False)))"
    by (rule forkchoice_lexicographic) simp_all
  also have "\<dots> = Inr True" by code_simp
  finally show ?thesis .
qed

text \<open>
  C32. Fast finality is never undone by the fork choice: along any sequence of head switches from
  Plato on, the justified number of the head does not decrease.
\<close>

theorem justified_never_regresses:
  assumes "(head_switch hash cs)\<^sup>*\<^sup>* x y"
  shows "justified_num x \<le> justified_num y"
  using head_runs.inv_reachable [OF refl assms] .

theorem justified_never_regresses_witness:
  "justified_num \<lparr>fc_header = sample_header 40000000 8, td = None, justified_num = 3\<rparr> \<le>
   justified_num \<lparr>fc_header = sample_header 40000000 7, td = None, justified_num = 4\<rparr>"
proof (rule justified_never_regresses)
  show "(head_switch (\<lambda>_. 0) mainnet_spec)\<^sup>*\<^sup>*
      \<lparr>fc_header = sample_header 40000000 8, td = None, justified_num = 3\<rparr>
      \<lparr>fc_header = sample_header 40000000 7, td = None, justified_num = 4\<rparr>"
    by (intro r_into_rtranclp head_switch.intros [where coin = True]; code_simp)
qed

text \<open>
  C33. Two nodes cannot talk each other into endless swapping: if each of two heads wins against
  the other, they tie on total difficulty, height and timestamp and have different proposers, so
  that only the coin toss decided.
\<close>

theorem mutual_reorg_only_by_coin:
  assumes "is_need_reorg hash coin cs x y = Inr True"
    and "is_need_reorg hash coin' cs y x = Inr True"
  shows "td x = td y \<and> number (fc_header x) = number (fc_header y) \<and>
         timestamp (fc_header x) = timestamp (fc_header y) \<and>
         beneficiary (fc_header x) \<noteq> beneficiary (fc_header y) \<and> coin \<and> coin'"
proof -
  obtain a b where td: "td x = Some a" "td y = Some b"
    and r: "head_choice_with_td hash coin x y = Inr True" "head_choice_with_td hash coin' y x = Inr True"
    using assms
    by (auto simp: is_need_reorg_def head_choice_with_fast_finality_def head_choice_with_td_def
        split: if_splits)
  then have ab: "a = b"
    and e: "equal_td_choice hash coin (fc_header x) (fc_header y)"
      "equal_td_choice hash coin' (fc_header y) (fc_header x)"
    by (auto simp: head_choice_with_td_def split: if_splits)
  from e have "number (fc_header x) = number (fc_header y)"
    and "timestamp (fc_header x) = timestamp (fc_header y)"
    and "beneficiary (fc_header x) \<noteq> beneficiary (fc_header y) \<and> coin \<and> coin'"
    by (auto simp: equal_td_choice_def split: if_splits)
  with ab td show ?thesis by simp
qed

theorem mutual_reorg_only_by_coin_witness:
  "beneficiary (sample_header 5 7) \<noteq> beneficiary (sample_header 5 7\<lparr>beneficiary := 1\<rparr>)"
proof -
  let ?x = "\<lparr>fc_header = sample_header 5 7, td = Some 9, justified_num = 3\<rparr>"
  let ?y = "\<lparr>fc_header = sample_header 5 7\<lparr>beneficiary := 1\<rparr>, td = Some 9, justified_num = 3\<rparr>"
  have "is_need_reorg (\<lambda>_. 0) True mainnet_spec ?x ?y = Inr True"
    and "is_need_reorg (\<lambda>_. 0) True mainnet_spec ?y ?x = Inr True"
    by code_simp+
  from mutual_reorg_only_by_coin [OF this] show ?thesis by simp
qed

text \<open>
  The fork choice fails only for a missing total difficulty that it needs: when fast finality
  does not decide and the difficulty of the current or the incoming head is unknown; the error
  names the current head first.
\<close>

theorem forkchoice_errors:
  "is_need_reorg hash coin cs incoming current = Inl e \<longleftrightarrow>
     head_choice_with_fast_finality cs incoming current = None \<and>
     (if td current = None
      then e = UnknownTotalDifficulty (hash (fc_header current)) (number (fc_header current))
      else td incoming = None \<and>
        e = UnknownTotalDifficulty (hash (fc_header incoming)) (number (fc_header incoming)))"
  by (cases "td current"; cases "td incoming")
    (auto simp: is_need_reorg_def head_choice_with_td_def split: option.splits)

end
