(* ===== verification/Snapshot.thy ===== *)
theory Snapshot
  imports Headers
begin

text \<open>
  \<open>src/consensus/parlia/snapshot.rs\<close>: the Parlia snapshot, its construction at an epoch block,
  and \<open>apply\<close>, which carries it over one header.

  \<open>validators_map\<close> is a \<open>HashMap\<close>, \<open>recent_proposers\<close> and \<open>recent_fork_hashes\<close> are
  \<open>BTreeMap\<close>s. The block hash of a header and \<open>hex::encode\<close> are library functions and arguments
  of the definitions (\<open>hash\<close>, \<open>hex\<close>). \<open>apply\<close> returns \<open>Option<Snapshot>\<close>; the outer option of
  the model is \<open>None\<close> for a panic (the length assertion, the division by the epoch length).
  Logging and metrics are left out.
\<close>

section \<open>Data\<close>

record validator_info =
  info_index :: u64
  vote_addr :: vote_address

record snapshot =
  epoch_num :: u64
  block_number :: u64
  block_hash :: b256
  validators :: "address list"
  validators_map :: "(address, validator_info) hash_map"
  recent_proposers :: "(u64, address) btree_map"
  vote_data :: vote_data
  turn_length :: "u8 option"
  block_interval :: u64
  recent_fork_hashes :: "(u64, string) btree_map"

definition CHECKPOINT_INTERVAL :: u64 where "CHECKPOINT_INTERVAL = 1024"
definition DEFAULT_EPOCH_LENGTH :: u64 where "DEFAULT_EPOCH_LENGTH = 200"
definition LORENTZ_EPOCH_LENGTH :: u64 where "LORENTZ_EPOCH_LENGTH = 500"
definition MAXWELL_EPOCH_LENGTH :: u64 where "MAXWELL_EPOCH_LENGTH = 1000"
definition DEFAULT_TURN_LENGTH :: u8 where "DEFAULT_TURN_LENGTH = 1"
definition DEFAULT_BLOCK_INTERVAL :: u64 where "DEFAULT_BLOCK_INTERVAL = 3000"
definition LORENTZ_BLOCK_INTERVAL :: u64 where "LORENTZ_BLOCK_INTERVAL = 1500"
definition MAXWELL_BLOCK_INTERVAL :: u64 where "MAXWELL_BLOCK_INTERVAL = 750"
definition FERMI_BLOCK_INTERVAL :: u64 where "FERMI_BLOCK_INTERVAL = 450"

lemmas epoch_consts =
  DEFAULT_EPOCH_LENGTH_def LORENTZ_EPOCH_LENGTH_def MAXWELL_EPOCH_LENGTH_def
lemmas interval_consts =
  DEFAULT_BLOCK_INTERVAL_def LORENTZ_BLOCK_INTERVAL_def MAXWELL_BLOCK_INTERVAL_def
  FERMI_BLOCK_INTERVAL_def

section \<open>The validator map\<close>

text \<open>
  The loops that fill \<open>validators_map\<close>: the vote addresses are attached in the given order,
  the indices are set after sorting. A mismatch of the two lengths fails the assertion.
\<close>

definition insert_vote_addrs ::
  "address list \<Rightarrow> vote_address list \<Rightarrow> (address, validator_info) hash_map" where
  "insert_vote_addrs vs as =
     fold (\<lambda>(v, a). AList.update v \<lparr>info_index = 0, vote_addr = a\<rparr>) (zip vs as) []"

definition set_indices ::
  "address list \<Rightarrow> (address, validator_info) hash_map \<Rightarrow> (address, validator_info) hash_map" where
  "set_indices sorted_vs m =
     fold (\<lambda>(i, v). hm_modify v (\<lambda>info. info\<lparr>info_index := word_of_nat i + 1\<rparr>))
       (enumerate 0 sorted_vs) m"

definition indexed_map :: "address list \<Rightarrow> (address, validator_info) hash_map" where
  "indexed_map sorted_vs =
     fold (\<lambda>(i, v). AList.update v \<lparr>info_index = word_of_nat i + 1, vote_addr = 0\<rparr>)
       (enumerate 0 sorted_vs) []"

definition build_validators_map ::
  "address list \<Rightarrow> vote_address list option \<Rightarrow> (address, validator_info) hash_map option" where
  "build_validators_map vs vote_addrs =
     (case vote_addrs of
        Some as \<Rightarrow>
          if length vs \<noteq> length as then None
          else Some (set_indices (sort vs) (insert_vote_addrs vs as))
      | None \<Rightarrow> Some (indexed_map (sort vs)))"

definition snapshot_new ::
  "address list \<Rightarrow> u64 \<Rightarrow> b256 \<Rightarrow> u64 \<Rightarrow> vote_address list option \<Rightarrow> snapshot option" where
  "snapshot_new vs bn bh epoch vote_addrs =
     (let epoch' = (if epoch = 0 then DEFAULT_EPOCH_LENGTH else epoch) in
      do {
        m \<leftarrow> build_validators_map vs vote_addrs;
        Some \<lparr>epoch_num = epoch', block_number = bn, block_hash = bh, validators = sort vs,
              validators_map = m, recent_proposers = [], vote_data = vote_data_default,
              turn_length = Some DEFAULT_TURN_LENGTH, block_interval = DEFAULT_BLOCK_INTERVAL,
              recent_fork_hashes = []\<rparr>
      })"

section \<open>Windows and turns\<close>

definition turn_of :: "snapshot \<Rightarrow> u64" where
  "turn_of s = ucast (unwrap_or (turn_length s) 1)"

definition miner_history_check_len :: "snapshot \<Rightarrow> u64" where
  "miner_history_check_len s = word_of_nat (length (validators s) div 2 + 1) * turn_of s - 1"

definition version_history_check_len :: "snapshot \<Rightarrow> u64" where
  "version_history_check_len s = word_of_nat (length (validators s)) * turn_of s"

definition inturn_validator :: "snapshot \<Rightarrow> address option" where
  "inturn_validator s =
     (let turn_length = ucast (unwrap_or (turn_length s) DEFAULT_TURN_LENGTH);
          next_block = block_number s + 1
      in do {
        q \<leftarrow> checked_div next_block turn_length;
        if length (validators s) = 0 then None
        else index (validators s) (unat q mod length (validators s))
      })"

definition is_inturn :: "snapshot \<Rightarrow> address \<Rightarrow> bool option" where
  "is_inturn s proposer = map_option (\<lambda>v. v = proposer) (inturn_validator s)"

definition index_of :: "snapshot \<Rightarrow> address \<Rightarrow> nat option" where
  "index_of s v = map_option fst (find (\<lambda>(_, w). w = v) (enumerate 0 (validators s)))"

definition last_block_in_one_turn :: "snapshot \<Rightarrow> u64 \<Rightarrow> bool" where
  "last_block_in_one_turn s bn =
     (let tl = ucast (unwrap_or (turn_length s) DEFAULT_TURN_LENGTH) in
      if tl \<le> 1 then True else bn mod tl = tl - 1)"

definition first_block_in_one_turn :: "snapshot \<Rightarrow> u64 \<Rightarrow> bool" where
  "first_block_in_one_turn s bn =
     (let tl = ucast (unwrap_or (turn_length s) DEFAULT_TURN_LENGTH) in
      if tl \<le> 1 then True else is_multiple_of bn tl)"

definition calculate_difficulty :: "snapshot \<Rightarrow> address \<Rightarrow> u256 option" where
  "calculate_difficulty s signer =
     map_option (\<lambda>b. if b then DIFF_INTURN else DIFF_NOTURN) (is_inturn s signer)"

section \<open>Recent proposers\<close>

definition left_bound :: "snapshot \<Rightarrow> u64" where
  "left_bound s =
     (if block_number s > miner_history_check_len s
      then block_number s - miner_history_check_len s else 0)"

definition count_recent_proposers :: "snapshot \<Rightarrow> (address, u8) hash_map" where
  "count_recent_proposers s =
     fold (\<lambda>(block, v) counts.
             if block \<le> left_bound s \<or> v = 0 then counts
             else AList.update v (unwrap_or (map_of counts v) 0 + 1) counts)
       (recent_proposers s) []"

definition sign_recently_by_counts :: "snapshot \<Rightarrow> address \<Rightarrow> (address, u8) hash_map \<Rightarrow> bool" where
  "sign_recently_by_counts s v counts =
     (case map_of counts v of
        Some k \<Rightarrow> turn_of s \<le> ucast k
      | None \<Rightarrow> False)"

definition sign_recently :: "snapshot \<Rightarrow> address \<Rightarrow> bool" where
  "sign_recently s v = sign_recently_by_counts s v (count_recent_proposers s)"

definition get_finalized_number :: "snapshot \<Rightarrow> u64" where
  "get_finalized_number s =
     (if source_number (vote_data s) > 0 then source_number (vote_data s) else 0)"

section \<open>Attestations\<close>

definition has_existing_attestation :: "snapshot \<Rightarrow> bool" where
  "has_existing_attestation s \<longleftrightarrow>
     source_number (vote_data s) \<noteq> 0 \<or> source_hash (vote_data s) \<noteq> 0 \<or>
     target_number (vote_data s) \<noteq> 0 \<or> target_hash (vote_data s) \<noteq> 0"

definition update_attestation ::
  "chain_spec \<Rightarrow> header \<Rightarrow> vote_attestation option \<Rightarrow> snapshot \<Rightarrow> snapshot" where
  "update_attestation cs h attestation s =
     (case attestation of
        None \<Rightarrow> s
      | Some att \<Rightarrow>
          if \<not> is_fermi_active_at_timestamp cs (number h) (timestamp h) \<and>
             (target_number (att_data att) + 1 \<noteq> number h \<or>
              target_hash (att_data att) \<noteq> parent_hash h)
          then s
          else if has_existing_attestation s \<and>
                  source_number (att_data att) + 1 \<noteq> target_number (att_data att)
          then s\<lparr>vote_data := (vote_data s)\<lparr>target_number := target_number (att_data att),
                                             target_hash := target_hash (att_data att)\<rparr>\<rparr>
          else s\<lparr>vote_data := att_data att\<rparr>)"

section \<open>Applying a header\<close>

text \<open>The two sliding windows and the fork hash of the new header.\<close>

definition slide_windows ::
  "(header \<Rightarrow> b256) \<Rightarrow> (bytes \<Rightarrow> string) \<Rightarrow> header \<Rightarrow> snapshot \<Rightarrow> snapshot" where
  "slide_windows hash hex h s =
     (let bn = number h;
          limit = miner_history_check_len s + 1;
          version_limit = version_history_check_len s;
          recents = (if limit \<le> bn then bt_remove (bn - limit) (recent_proposers s)
                     else recent_proposers s);
          forks = (if version_limit \<le> bn then bt_remove (bn - version_limit) (recent_fork_hashes s)
                   else recent_fork_hashes s);
          forks' = (if EXTRA_VANITY_LEN \<le> length (extra_data h)
                    then bt_insert bn (hex (take 4 (drop (EXTRA_VANITY_LEN - 4) (extra_data h)))) forks
                    else forks)
      in s\<lparr>block_hash := hash h, block_number := bn, recent_proposers := recents,
           recent_fork_hashes := forks'\<rparr>)"

definition over_proposed :: "bool \<Rightarrow> address \<Rightarrow> snapshot \<Rightarrow> bool" where
  "over_proposed is_bohr v s =
     (if is_bohr then sign_recently s v else v \<in> set (map snd (recent_proposers s)))"

text \<open>BEP-524: from Maxwell on, entries up to the finalized block are dropped.\<close>

definition clear_finalized :: "bool \<Rightarrow> snapshot \<Rightarrow> snapshot" where
  "clear_finalized is_maxwell s =
     (if is_maxwell then
        (let fin = get_finalized_number s;
             blocks_to_remove = filter (\<lambda>b. b \<le> fin) (map fst (recent_proposers s))
         in s\<lparr>recent_proposers := fold bt_remove blocks_to_remove (recent_proposers s)\<rparr>)
      else s)"

definition update_block_interval :: "bool \<Rightarrow> bool \<Rightarrow> bool \<Rightarrow> snapshot \<Rightarrow> snapshot" where
  "update_block_interval is_lorentz is_maxwell is_fermi s =
     (if is_fermi then s\<lparr>block_interval := FERMI_BLOCK_INTERVAL\<rparr>
      else if is_maxwell then s\<lparr>block_interval := MAXWELL_BLOCK_INTERVAL\<rparr>
      else if is_lorentz then s\<lparr>block_interval := LORENTZ_BLOCK_INTERVAL\<rparr>
      else s)"

text \<open>The accepted block recorded: attestation, proposer, BEP-524 clearing, block interval.\<close>

definition record_block ::
  "chain_spec \<Rightarrow> address \<Rightarrow> header \<Rightarrow> vote_attestation option \<Rightarrow> snapshot \<Rightarrow> snapshot" where
  "record_block cs validator h attestation s =
     (let is_maxwell = is_maxwell_active_at_timestamp cs (number h) (timestamp h);
          is_lorentz = is_lorentz_active_at_timestamp cs (number h) (timestamp h);
          is_fermi = is_fermi_active_at_timestamp cs (number h) (timestamp h);
          s2 = update_attestation cs h attestation s;
          s3 = s2\<lparr>recent_proposers := bt_insert (number h) validator (recent_proposers s2)\<rparr>;
          s4 = clear_finalized is_maxwell s3
      in update_block_interval is_lorentz is_maxwell is_fermi s4)"

definition update_epoch_num :: "bool \<Rightarrow> bool \<Rightarrow> u64 \<Rightarrow> snapshot \<Rightarrow> snapshot" where
  "update_epoch_num is_lorentz is_maxwell next_block_number s =
     (let s1 = (if epoch_num s = DEFAULT_EPOCH_LENGTH \<and> is_lorentz \<and>
                   is_multiple_of next_block_number LORENTZ_EPOCH_LENGTH
                then s\<lparr>epoch_num := LORENTZ_EPOCH_LENGTH\<rparr> else s)
      in if epoch_num s1 = LORENTZ_EPOCH_LENGTH \<and> is_maxwell \<and>
            is_multiple_of next_block_number MAXWELL_EPOCH_LENGTH
         then s1\<lparr>epoch_num := MAXWELL_EPOCH_LENGTH\<rparr> else s1)"

definition clear_miner_history :: "bool \<Rightarrow> u64 \<Rightarrow> u64 \<Rightarrow> nat \<Rightarrow> snapshot \<Rightarrow> snapshot" where
  "clear_miner_history is_bohr epoch_key bn new_len s =
     (if is_bohr then s\<lparr>recent_proposers := bt_insert epoch_key 0 []\<rparr>
      else
        (let old_limit = length (validators s) div 2 + 1;
             new_limit = new_len div 2 + 1
         in if new_limit < old_limit
            then s\<lparr>recent_proposers :=
                    fold (\<lambda>i. bt_remove (bn - word_of_nat new_limit - word_of_nat i))
                      [0..<old_limit - new_limit] (recent_proposers s)\<rparr>
            else s))"

definition clean_fork_hashes :: "u64 \<Rightarrow> u64 \<Rightarrow> snapshot \<Rightarrow> snapshot" where
  "clean_fork_hashes old_version_len bn s =
     (let new_version_len = version_history_check_len s in
      if new_version_len < old_version_len
      then s\<lparr>recent_fork_hashes :=
              fold (\<lambda>i. bt_remove (saturating_sub bn (word_of_nat i)))
                [unat new_version_len..<unat old_version_len] (recent_fork_hashes s)\<rparr>
      else s)"

definition change_validators ::
  "snapshot \<Rightarrow> bool \<Rightarrow> u64 \<Rightarrow> u64 \<Rightarrow> address list \<Rightarrow> vote_address list option \<Rightarrow> u8 option \<Rightarrow>
     snapshot \<Rightarrow> snapshot option" where
  "change_validators original is_bohr epoch_key bn new_validators vote_addrs new_turn s =
     (let s1 = (case new_turn of Some t \<Rightarrow> s\<lparr>turn_length := Some t\<rparr> | None \<Rightarrow> s);
          s2 = clear_miner_history is_bohr epoch_key bn (length new_validators) s1
      in do {
        m \<leftarrow> build_validators_map new_validators vote_addrs;
        let s3 = clean_fork_hashes (version_history_check_len original) bn s2;
        Some (s3\<lparr>validators := sort new_validators, validators_map := m\<rparr>)
      })"

definition snap_apply ::
  "(header \<Rightarrow> b256) \<Rightarrow> (bytes \<Rightarrow> string) \<Rightarrow> chain_spec \<Rightarrow> snapshot \<Rightarrow> address \<Rightarrow> header \<Rightarrow>
     address list \<Rightarrow> vote_address list option \<Rightarrow> vote_attestation option \<Rightarrow> u8 option \<Rightarrow>
     snapshot option option" where
  "snap_apply hash hex cs self validator h new_validators vote_addrs attestation new_turn =
     (let bn = number h in
      if block_number self + 1 \<noteq> bn \<or> block_hash self \<noteq> parent_hash h then Some None
      else
        (let s1 = slide_windows hash hex h self;
             is_bohr = is_bohr_active_at_timestamp cs bn (timestamp h);
             is_maxwell = is_maxwell_active_at_timestamp cs bn (timestamp h);
             is_lorentz = is_lorentz_active_at_timestamp cs bn (timestamp h)
         in if validator \<notin> set (validators s1) then Some None
            else if over_proposed is_bohr validator s1 then Some None
            else
              (let s5 = record_block cs validator h attestation s1;
                   epoch_length = epoch_num s5;
                   s6 = update_epoch_num is_lorentz is_maxwell (bn + 1) s5
               in do {
                 epoch \<leftarrow> checked_div bn epoch_length;
                 let epoch_key = u64_max - epoch;
                 if new_validators \<noteq> [] \<and>
                    (\<not> is_bohr \<or> \<not> bt_contains (recent_proposers s6) epoch_key)
                 then map_option Some
                   (change_validators self is_bohr epoch_key bn new_validators vote_addrs new_turn s6)
                 else Some (Some s6)
               })))"

section \<open>Well-formed snapshots\<close>

text \<open>
  What every snapshot the code builds satisfies: a non-zero epoch length (the divisor in
  \<open>apply\<close>), validators in address order, a validator map with exactly those addresses whose
  1-based index points back into the list, and ordered windows.
\<close>

definition map_indexes :: "address list \<Rightarrow> (address, validator_info) hash_map \<Rightarrow> bool" where
  "map_indexes vs m \<longleftrightarrow>
     hm_wf m \<and> fst ` set m = set vs \<and>
     (\<forall>(v, info) \<in> set m. \<exists>i < length vs. vs ! i = v \<and> info_index info = word_of_nat i + 1)"

definition snap_wf :: "snapshot \<Rightarrow> bool" where
  "snap_wf s \<longleftrightarrow>
     epoch_num s \<noteq> 0 \<and> sorted (validators s) \<and> map_indexes (validators s) (validators_map s) \<and>
     bt_wf (recent_proposers s) \<and> bt_wf (recent_fork_hashes s) \<and>
     block_interval s \<in> {DEFAULT_BLOCK_INTERVAL, LORENTZ_BLOCK_INTERVAL, MAXWELL_BLOCK_INTERVAL,
                         FERMI_BLOCK_INTERVAL}"

lemma keys_fold_update:
  "fst ` set (fold (\<lambda>(k, x). AList.update k (f k x)) kxs m) = fst ` set kxs \<union> fst ` set m"
  by (induction kxs arbitrary: m) (simp_all add: keys_hm_update split: prod.splits)

lemma keys_fold_update_snd:
  "fst ` set (fold (\<lambda>(i, v). AList.update v (g i)) ivs m) = snd ` set ivs \<union> fst ` set m"
  by (induction ivs arbitrary: m) (simp_all add: keys_hm_update split: prod.splits)

lemma hm_wf_fold:
  assumes "\<And>x m. hm_wf m \<Longrightarrow> hm_wf (f x m)"
  shows "hm_wf m \<Longrightarrow> hm_wf (fold f xs m)"
  by (induction xs arbitrary: m) (simp_all add: assms)

lemma keys_fold_modify [simp]:
  "map fst (fold (\<lambda>(i, v). hm_modify v (f i)) ivs m) = map fst m"
  by (induction ivs arbitrary: m) (auto split: prod.splits)

lemma fold_modify_mem:
  assumes "(v, info) \<in> set (fold (\<lambda>(i, v). hm_modify v (\<lambda>info. info\<lparr>info_index := g i\<rparr>)) ivs m)"
  shows "(\<exists>i. (i, v) \<in> set ivs \<and> info_index info = g i) \<or>
         (v \<notin> snd ` set ivs \<and> (v, info) \<in> set m)"
  using assms
proof (induction ivs arbitrary: m)
  case (Cons iv ivs)
  obtain i w where iv: "iv = (i, w)" by (cases iv)
  have "(\<exists>j. (j, v) \<in> set ivs \<and> info_index info = g j) \<or>
        (v \<notin> snd ` set ivs \<and>
           (v, info) \<in> set (hm_modify w (\<lambda>info. info\<lparr>info_index := g i\<rparr>) m))"
    using Cons.prems Cons.IH by (simp add: iv)
  then show ?case by (auto simp: iv hm_modify_def split: if_splits)
qed simp

lemma fold_update_mem:
  assumes "(v, info) \<in> set (fold (\<lambda>(i, v). AList.update v (g i)) ivs m)" and "hm_wf m"
  shows "(\<exists>i. (i, v) \<in> set ivs \<and> info = g i) \<or> (v \<notin> snd ` set ivs \<and> (v, info) \<in> set m)"
  using assms
proof (induction ivs arbitrary: m)
  case (Cons iv ivs)
  obtain i w where iv: "iv = (i, w)" by (cases iv)
  have wf: "hm_wf (AList.update w (g i) m)" using Cons.prems by (simp add: hm.invar_ins)
  have eq: "(v, info) \<in> set (AList.update w (g i) m) \<Longrightarrow>
            (v = w \<and> info = g i) \<or> (v \<noteq> w \<and> (v, info) \<in> set m)"
    using map_of_eq_Some_iff [OF wf [unfolded hm_wf_def], of v info]
      map_of_eq_Some_iff [OF Cons.prems(2) [unfolded hm_wf_def], of v info]
    by (simp add: update_conv' split: if_splits)
  have "(\<exists>j. (j, v) \<in> set ivs \<and> info = g j) \<or>
        (v \<notin> snd ` set ivs \<and> (v, info) \<in> set (AList.update w (g i) m))"
    using Cons.prems Cons.IH [OF _ wf] by (simp add: iv)
  then show ?case using eq by (auto simp: iv)
qed simp

lemma snd_enumerate: "snd ` set (enumerate n xs) = set xs"
  by (metis list.set_map map_snd_enumerate)

lemma map_indexes_set_indices:
  assumes wf: "hm_wf m" and keys: "fst ` set m = set vs"
  shows "map_indexes vs (set_indices vs m)"
proof -
  have same: "map fst (set_indices vs m) = map fst m"
    unfolding set_indices_def by simp
  then have k: "fst ` set (set_indices vs m) = set vs"
    using keys by (metis list.set_map)
  have "\<exists>i < length vs. vs ! i = v \<and> info_index info = word_of_nat i + 1"
    if "(v, info) \<in> set (set_indices vs m)" for v info
  proof -
    have "v \<in> snd ` set (enumerate 0 vs)" using that k by (force simp: snd_enumerate)
    with fold_modify_mem [OF that [unfolded set_indices_def]] show ?thesis
      by (auto simp: enumerate_nth)
  qed
  then show ?thesis using same k wf by (auto simp: map_indexes_def hm_wf_def)
qed

lemma map_indexes_indexed_map: "map_indexes vs (indexed_map vs)"
proof -
  have wf: "hm_wf (indexed_map vs)"
    unfolding indexed_map_def
    by (rule hm_wf_fold) (auto simp: hm.invar_ins hm.invar_emp split: prod.splits)
  have k: "fst ` set (indexed_map vs) = set vs"
    using keys_fold_update_snd
      [of "\<lambda>i. \<lparr>info_index = word_of_nat i + 1, vote_addr = 0\<rparr>" "enumerate 0 vs" "[]"]
    by (simp add: indexed_map_def snd_enumerate)
  have "\<exists>i < length vs. vs ! i = v \<and> info_index info = word_of_nat i + 1"
    if "(v, info) \<in> set (indexed_map vs)" for v info
    using fold_update_mem [OF that [unfolded indexed_map_def] hm.invar_emp]
    by (auto simp: enumerate_nth)
  then show ?thesis using wf k by (auto simp: map_indexes_def)
qed

lemma build_validators_map_indexes:
  assumes "build_validators_map vs vote_addrs = Some m"
  shows "map_indexes (sort vs) m"
proof (cases vote_addrs)
  case None
  then show ?thesis using assms by (auto simp: build_validators_map_def map_indexes_indexed_map)
next
  case (Some as)
  then have len: "length vs = length as" and m: "m = set_indices (sort vs) (insert_vote_addrs vs as)"
    using assms by (auto simp: build_validators_map_def split: if_splits)
  have "set (map fst (zip vs as)) = set vs" by (simp only: map_fst_zip [OF len])
  then have zip: "fst ` set (zip vs as) = set vs" by (simp only: list.set_map)
  have "hm_wf (insert_vote_addrs vs as)"
    unfolding insert_vote_addrs_def
    by (rule hm_wf_fold) (auto simp: hm.invar_ins hm.invar_emp split: prod.splits)
  moreover have "fst ` set (insert_vote_addrs vs as) = set (sort vs)"
    unfolding insert_vote_addrs_def
    using keys_fold_update [of "\<lambda>_ a. \<lparr>info_index = 0, vote_addr = a\<rparr>" "zip vs as" "[]"]
    by (simp add: zip)
  ultimately show ?thesis unfolding m by (rule map_indexes_set_indices)
qed

lemma build_validators_map_Some [panic_free]:
  "build_validators_map vs vote_addrs \<noteq> None \<longleftrightarrow>
     (\<forall>as. vote_addrs = Some as \<longrightarrow> length vs = length as)"
  by (auto simp: build_validators_map_def split: option.splits)

lemma slide_windows_fields [simp]:
  "epoch_num (slide_windows hash hex h s) = epoch_num s"
  "block_number (slide_windows hash hex h s) = number h"
  "block_hash (slide_windows hash hex h s) = hash h"
  "validators (slide_windows hash hex h s) = validators s"
  "validators_map (slide_windows hash hex h s) = validators_map s"
  "vote_data (slide_windows hash hex h s) = vote_data s"
  "turn_length (slide_windows hash hex h s) = turn_length s"
  "block_interval (slide_windows hash hex h s) = block_interval s"
  by (simp_all add: slide_windows_def Let_def)

lemma update_attestation_fields [simp]:
  "epoch_num (update_attestation cs h att s) = epoch_num s"
  "block_number (update_attestation cs h att s) = block_number s"
  "block_hash (update_attestation cs h att s) = block_hash s"
  "validators (update_attestation cs h att s) = validators s"
  "validators_map (update_attestation cs h att s) = validators_map s"
  "recent_proposers (update_attestation cs h att s) = recent_proposers s"
  "turn_length (update_attestation cs h att s) = turn_length s"
  "block_interval (update_attestation cs h att s) = block_interval s"
  "recent_fork_hashes (update_attestation cs h att s) = recent_fork_hashes s"
  by (simp_all add: update_attestation_def split: option.splits)

lemma clear_finalized_recents:
  "recent_proposers (clear_finalized m s) =
     (if m then fold bt_remove (filter (\<lambda>b. b \<le> get_finalized_number s) (map fst (recent_proposers s)))
                  (recent_proposers s)
      else recent_proposers s)"
  by (simp add: clear_finalized_def Let_def)

lemma clear_finalized_fields [simp]:
  "epoch_num (clear_finalized m s) = epoch_num s"
  "block_number (clear_finalized m s) = block_number s"
  "block_hash (clear_finalized m s) = block_hash s"
  "validators (clear_finalized m s) = validators s"
  "validators_map (clear_finalized m s) = validators_map s"
  "vote_data (clear_finalized m s) = vote_data s"
  "turn_length (clear_finalized m s) = turn_length s"
  "block_interval (clear_finalized m s) = block_interval s"
  "recent_fork_hashes (clear_finalized m s) = recent_fork_hashes s"
  by (simp_all add: clear_finalized_def Let_def)

lemma update_block_interval_fields [simp]:
  "epoch_num (update_block_interval l m f s) = epoch_num s"
  "block_number (update_block_interval l m f s) = block_number s"
  "block_hash (update_block_interval l m f s) = block_hash s"
  "validators (update_block_interval l m f s) = validators s"
  "validators_map (update_block_interval l m f s) = validators_map s"
  "recent_proposers (update_block_interval l m f s) = recent_proposers s"
  "vote_data (update_block_interval l m f s) = vote_data s"
  "turn_length (update_block_interval l m f s) = turn_length s"
  "recent_fork_hashes (update_block_interval l m f s) = recent_fork_hashes s"
  by (simp_all add: update_block_interval_def)

lemma update_epoch_num_fields [simp]:
  "block_number (update_epoch_num l m n s) = block_number s"
  "block_hash (update_epoch_num l m n s) = block_hash s"
  "validators (update_epoch_num l m n s) = validators s"
  "validators_map (update_epoch_num l m n s) = validators_map s"
  "recent_proposers (update_epoch_num l m n s) = recent_proposers s"
  "vote_data (update_epoch_num l m n s) = vote_data s"
  "turn_length (update_epoch_num l m n s) = turn_length s"
  "block_interval (update_epoch_num l m n s) = block_interval s"
  "recent_fork_hashes (update_epoch_num l m n s) = recent_fork_hashes s"
  by (simp_all add: update_epoch_num_def Let_def)

lemma record_block_fields [simp]:
  "epoch_num (record_block cs v h att s) = epoch_num s"
  "block_number (record_block cs v h att s) = block_number s"
  "block_hash (record_block cs v h att s) = block_hash s"
  "validators (record_block cs v h att s) = validators s"
  "validators_map (record_block cs v h att s) = validators_map s"
  "vote_data (record_block cs v h att s) = vote_data (update_attestation cs h att s)"
  "turn_length (record_block cs v h att s) = turn_length s"
  "recent_fork_hashes (record_block cs v h att s) = recent_fork_hashes s"
  by (simp_all add: record_block_def Let_def)

lemma clear_miner_history_fields [simp]:
  "epoch_num (clear_miner_history b k n l s) = epoch_num s"
  "block_number (clear_miner_history b k n l s) = block_number s"
  "block_hash (clear_miner_history b k n l s) = block_hash s"
  "validators (clear_miner_history b k n l s) = validators s"
  "vote_data (clear_miner_history b k n l s) = vote_data s"
  "turn_length (clear_miner_history b k n l s) = turn_length s"
  "block_interval (clear_miner_history b k n l s) = block_interval s"
  "recent_fork_hashes (clear_miner_history b k n l s) = recent_fork_hashes s"
  by (simp_all add: clear_miner_history_def Let_def)

lemma clean_fork_hashes_fields [simp]:
  "epoch_num (clean_fork_hashes l n s) = epoch_num s"
  "block_number (clean_fork_hashes l n s) = block_number s"
  "block_hash (clean_fork_hashes l n s) = block_hash s"
  "recent_proposers (clean_fork_hashes l n s) = recent_proposers s"
  "vote_data (clean_fork_hashes l n s) = vote_data s"
  "turn_length (clean_fork_hashes l n s) = turn_length s"
  "block_interval (clean_fork_hashes l n s) = block_interval s"
  by (simp_all add: clean_fork_hashes_def Let_def)

lemma fold_pres:
  assumes "\<And>x m. P m \<Longrightarrow> P (f x m)"
  shows "P m \<Longrightarrow> P (fold f xs m)"
  by (induction xs arbitrary: m) (simp_all add: assms)

lemma fold_bt_remove: "map_of (fold bt_remove ks m) k = (if k \<in> set ks then None else map_of m k)"
  by (induction ks arbitrary: m) (auto simp: map_of_bt_remove)

lemma snap_applyE:
  assumes "snap_apply hash hex cs self v h nv va att nt = Some (Some s')"
  obtains "block_number self + 1 = number h" and "block_hash self = parent_hash h"
    and "v \<in> set (validators self)" and "epoch_num self \<noteq> 0"
    and "\<not> over_proposed (is_bohr_active_at_timestamp cs (number h) (timestamp h)) v
           (slide_windows hash hex h self)"
    and "(let s6 = update_epoch_num (is_lorentz_active_at_timestamp cs (number h) (timestamp h))
                     (is_maxwell_active_at_timestamp cs (number h) (timestamp h)) (number h + 1)
                     (record_block cs v h att (slide_windows hash hex h self));
              key = u64_max - number h div epoch_num self
          in if nv \<noteq> [] \<and> (is_bohr_active_at_timestamp cs (number h) (timestamp h) \<longrightarrow>
                              \<not> bt_contains (recent_proposers s6) key)
             then change_validators self (is_bohr_active_at_timestamp cs (number h) (timestamp h)) key
                    (number h) nv va nt s6 = Some s'
             else s' = s6)"
proof (rule that)
  note ap = assms [unfolded snap_apply_def Let_def checked_div_def, simplified]
  show "block_number self + 1 = number h" and "block_hash self = parent_hash h"
    and "v \<in> set (validators self)" and "epoch_num self \<noteq> 0"
    and "\<not> over_proposed (is_bohr_active_at_timestamp cs (number h) (timestamp h)) v
           (slide_windows hash hex h self)"
    using ap by (auto split: if_splits)
  then show "let s6 = update_epoch_num (is_lorentz_active_at_timestamp cs (number h) (timestamp h))
                     (is_maxwell_active_at_timestamp cs (number h) (timestamp h)) (number h + 1)
                     (record_block cs v h att (slide_windows hash hex h self));
              key = u64_max - number h div epoch_num self
          in if nv \<noteq> [] \<and> (is_bohr_active_at_timestamp cs (number h) (timestamp h) \<longrightarrow>
                              \<not> bt_contains (recent_proposers s6) key)
             then change_validators self (is_bohr_active_at_timestamp cs (number h) (timestamp h)) key
                    (number h) nv va nt s6 = Some s'
             else s' = s6"
    using ap by (auto simp: Let_def split: if_splits)
qed

lemma bt_wf_slide_windows:
  assumes "bt_wf (recent_proposers s)" and "bt_wf (recent_fork_hashes s)"
  shows "bt_wf (recent_proposers (slide_windows hash hex h s))"
    and "bt_wf (recent_fork_hashes (slide_windows hash hex h s))"
  using assms by (simp_all add: slide_windows_def Let_def bt.invar_del bt.invar_ins)

lemma snap_wf_record_block:
  assumes "snap_wf s" shows "snap_wf (record_block cs v h att s)"
proof -
  have "bt_wf (recent_proposers (record_block cs v h att s))"
    using assms
    by (simp add: record_block_def Let_def clear_finalized_recents snap_wf_def
        bt.invar_ins bt.invar_dels)
  moreover have "block_interval (record_block cs v h att s) \<in>
    {DEFAULT_BLOCK_INTERVAL, LORENTZ_BLOCK_INTERVAL, MAXWELL_BLOCK_INTERVAL, FERMI_BLOCK_INTERVAL}"
    using assms
    by (simp add: record_block_def Let_def update_block_interval_def snap_wf_def)
  ultimately show ?thesis using assms by (simp add: snap_wf_def)
qed

lemma snap_wf_update_epoch_num:
  assumes "snap_wf s" shows "snap_wf (update_epoch_num l m n s)"
proof -
  have "epoch_num (update_epoch_num l m n s) \<noteq> 0"
    using assms by (simp add: update_epoch_num_def Let_def snap_wf_def epoch_consts)
  then show ?thesis using assms by (simp add: snap_wf_def)
qed

lemma change_validators_wf:
  assumes wf: "snap_wf s" and "change_validators o' b k n nv va nt s = Some s'"
  shows "snap_wf s'"
proof -
  define s1 where "s1 = (case nt of Some t \<Rightarrow> s\<lparr>turn_length := Some t\<rparr> | None \<Rightarrow> s)"
  define s3 where "s3 = clean_fork_hashes (version_history_check_len o') n
    (clear_miner_history b k n (length nv) s1)"
  obtain m where m: "build_validators_map nv va = Some m"
    and s': "s' = s3\<lparr>validators := sort nv, validators_map := m\<rparr>"
    using assms(2) by (auto simp: change_validators_def Let_def s1_def s3_def split: bind_splits)
  have s1: "epoch_num s1 = epoch_num s" "recent_proposers s1 = recent_proposers s"
    "recent_fork_hashes s1 = recent_fork_hashes s" "block_interval s1 = block_interval s"
    by (simp_all add: s1_def split: option.splits)
  have "bt_wf (recent_proposers s)" "bt_wf (recent_fork_hashes s)"
    using wf by (simp_all add: snap_wf_def)
  then have "bt_wf (recent_proposers s3)" and "bt_wf (recent_fork_hashes s3)"
    by (auto simp: s3_def clear_miner_history_def clean_fork_hashes_def Let_def s1 bt_wf_def [of "[_]"]
        bt.invar_del intro!: fold_pres [where P = bt_wf])
  then show ?thesis
    using wf build_validators_map_indexes [OF m] by (simp add: snap_wf_def s' s3_def s1)
qed

lemma snap_new_wf:
  assumes "snapshot_new vs bn bh e va = Some s"
  shows "snap_wf s"
  using assms build_validators_map_indexes
  by (auto simp: snapshot_new_def snap_wf_def Let_def epoch_consts split: bind_splits if_splits)

lemma snap_apply_wf:
  assumes wf: "snap_wf self"
    and ap: "snap_apply hash hex cs self v h nv va att nt = Some (Some s')"
  shows "snap_wf s'"
proof -
  have "snap_wf (slide_windows hash hex h self)"
    using wf bt_wf_slide_windows [of self] by (simp add: snap_wf_def)
  then have "snap_wf (update_epoch_num l m n (record_block cs v h att (slide_windows hash hex h self)))"
    for l m n
    by (intro snap_wf_update_epoch_num snap_wf_record_block)
  with ap show ?thesis
    by (elim snap_applyE) (auto simp: Let_def intro: change_validators_wf split: if_splits)
qed

text \<open>A snapshot chain: the genesis snapshot, then one header after the other.\<close>

inductive snap_init :: "snapshot \<Rightarrow> bool" where
  "snapshot_new vs bn bh e va = Some s \<Longrightarrow> snap_init s"

inductive snap_step ::
  "(header \<Rightarrow> b256) \<Rightarrow> (bytes \<Rightarrow> string) \<Rightarrow> chain_spec \<Rightarrow> snapshot \<Rightarrow> snapshot \<Rightarrow> bool"
  for hash hex cs where
  "snap_apply hash hex cs s v h nv va att nt = Some (Some s') \<Longrightarrow> snap_step hash hex cs s s'"

inductive_cases snap_stepE: "snap_step hash hex cs s s'"
inductive_cases snap_initE: "snap_init s"

interpretation chain: transition_system snap_init "snap_step hash hex cs" snap_wf for hash hex cs
  by unfold_locales (auto elim!: snap_stepE snap_initE intro: snap_new_wf snap_apply_wf)

section \<open>Runs and the proposer window\<close>

text \<open>
  A run applies a list of blocks; each block comes with its signer and with what the caller
  parsed from its header. A quiet run has no validator change and lies before Maxwell, so that
  nothing but the sliding window removes entries.
\<close>

type_synonym applied_block =
  "address \<times> header \<times> address list \<times> vote_address list option \<times> vote_attestation option \<times> u8 option"

fun snap_run ::
  "(header \<Rightarrow> b256) \<Rightarrow> (bytes \<Rightarrow> string) \<Rightarrow> chain_spec \<Rightarrow> snapshot \<Rightarrow> applied_block list \<Rightarrow>
     snapshot option" where
  "snap_run hash hex cs s [] = Some s"
| "snap_run hash hex cs s ((v, h, nv, va, att, nt) # xs) =
     (case snap_apply hash hex cs s v h nv va att nt of
        Some (Some s') \<Rightarrow> snap_run hash hex cs s' xs
      | _ \<Rightarrow> None)"

definition quiet :: "chain_spec \<Rightarrow> bool \<Rightarrow> applied_block \<Rightarrow> bool" where
  "quiet cs bohr x = (case x of (v, h, nv, _) \<Rightarrow>
     nv = [] \<and> \<not> is_maxwell_active_at_timestamp cs (number h) (timestamp h) \<and>
     is_bohr_active_at_timestamp cs (number h) (timestamp h) = bohr)"

lemma snap_run_snoc:
  "snap_run hash hex cs s (xs @ [(v, h, nv, va, att, nt)]) = Some s' \<longleftrightarrow>
     (\<exists>s1. snap_run hash hex cs s xs = Some s1 \<and>
           snap_apply hash hex cs s1 v h nv va att nt = Some (Some s'))"
  by (induction hash hex cs s xs rule: snap_run.induct) (auto split: option.splits)

lemma quiet_apply:
  assumes "snap_apply hash hex cs s v h [] va att nt = Some (Some s')"
    and "\<not> is_maxwell_active_at_timestamp cs (number h) (timestamp h)"
  shows "validators s' = validators s" and "turn_length s' = turn_length s"
    and "block_number s' = block_number s + 1"
    and "recent_proposers s' =
           bt_insert (number h) v (recent_proposers (slide_windows hash hex h s))"
  using assms
  by (auto elim!: snap_applyE simp: Let_def record_block_def clear_finalized_recents)

lemma unat_miner_history:
  assumes "turn_of s \<noteq> 0" and "length (validators s) < 2 ^ 32"
  shows "unat (miner_history_check_len s) =
           (length (validators s) div 2 + 1) * unat (turn_of s) - 1"
    and "unat (miner_history_check_len s + 1) =
           (length (validators s) div 2 + 1) * unat (turn_of s)"
proof -
  let ?n = "length (validators s) div 2 + 1" and ?t = "unat (turn_of s)"
  have t: "0 < ?t" using assms(1) by (simp add: unat_gt_0)
  have "?t < 256"
    using unsigned_less [of "unwrap_or (turn_length s) 1"]
    by (simp add: turn_of_def unat_ucast_up)
  moreover have "?n < 2 ^ 32" using assms(2) by simp
  ultimately have b: "?n * ?t < 2 ^ 40"
    using mult_strict_mono [of ?n "2 ^ 32" ?t 256] t by simp
  have n: "unat (word_of_nat ?n :: u64) = ?n"
    by (rule unat_word_of_nat) (use \<open>?n < 2 ^ 32\<close> in simp)
  have prd: "unat (word_of_nat ?n * turn_of s) = ?n * ?t"
    using unat_mult_nowrap [of "word_of_nat ?n :: u64" "turn_of s"] n b by simp
  have ge: "1 \<le> ?n * ?t" using t by (cases ?t) simp_all
  have "unat (word_of_nat ?n * turn_of s - 1) = ?n * ?t - 1"
    using unat_sub_nowrap [of 1 "word_of_nat ?n * turn_of s"] prd ge
    by (simp add: word_le_nat_alt)
  then show "unat (miner_history_check_len s) = ?n * ?t - 1"
    by (simp only: miner_history_check_len_def)
  then show "unat (miner_history_check_len s + 1) = ?n * ?t"
    using prd by (simp add: miner_history_check_len_def)
qed

definition window_hist :: "nat \<Rightarrow> nat \<Rightarrow> nat \<Rightarrow> address list \<Rightarrow> (u64, address) btree_map \<Rightarrow> bool" where
  "window_hist b0 L n ps m \<longleftrightarrow>
     (\<forall>k v. v \<noteq> 0 \<longrightarrow>
        (map_of m k = Some v \<longleftrightarrow>
           (\<exists>j < length ps. unat k = b0 + 1 + j \<and> ps ! j = v \<and> n \<le> j + L)))"

lemma window_hist_slide:
  assumes hist: "window_hist b0 L (length ps) ps (recent_proposers s)"
    and bn: "unat (number h) = b0 + 1 + length ps"
    and L: "unat (miner_history_check_len s + 1) = L"
  shows "window_hist b0 L (length ps + 1) ps (recent_proposers (slide_windows hash hex h s))"
proof -
  let ?m = "recent_proposers (slide_windows hash hex h s)"
  have m: "map_of ?m k =
      (if L \<le> unat (number h) \<and> unat k = unat (number h) - L then None
       else map_of (recent_proposers s) k)" for k
    using L unat_sub_nowrap [of "miner_history_check_len s + 1" "number h"]
    by (auto simp: slide_windows_def Let_def map_of_bt_remove word_le_nat_alt word_unat_eq_iff)
  show ?thesis
    unfolding window_hist_def m
    using hist bn by (auto simp: window_hist_def)
qed

lemma window_hist_insert:
  assumes hist: "window_hist b0 L (length ps + 1) ps m"
    and bn: "unat k = b0 + 1 + length ps" and L: "1 \<le> L"
  shows "window_hist b0 L (length (ps @ [v])) (ps @ [v]) (bt_insert k v m)"
proof -
  have "map_of (bt_insert k v m) k' = Some w \<longleftrightarrow>
      (\<exists>j < length (ps @ [v]). unat k' = b0 + 1 + j \<and> (ps @ [v]) ! j = w \<and> length (ps @ [v]) \<le> j + L)"
    if "w \<noteq> 0" for k' w
  proof (cases "k' = k")
    case True
    then show ?thesis using bn L by (auto simp: map_of_bt_insert nth_append)
  next
    case False
    then have "unat k' \<noteq> b0 + 1 + length ps" using bn by (simp add: word_unat_eq_iff)
    moreover have "map_of m k' = Some w \<longleftrightarrow>
        (\<exists>j < length ps. unat k' = b0 + 1 + j \<and> ps ! j = w \<and> length ps + 1 \<le> j + L)"
      using hist that by (simp add: window_hist_def)
    ultimately show ?thesis using False by (auto simp: map_of_bt_insert nth_append less_Suc_eq)
  qed
  then show ?thesis by (simp add: window_hist_def)
qed

definition quiet_start :: "chain_spec \<Rightarrow> bool \<Rightarrow> snapshot \<Rightarrow> applied_block list \<Rightarrow> bool" where
  "quiet_start cs bohr s0 xs \<longleftrightarrow>
     snap_wf s0 \<and> (\<forall>(_, v) \<in> set (recent_proposers s0). v = 0) \<and> 0 \<notin> set (validators s0) \<and>
     turn_of s0 \<noteq> 0 \<and> length (validators s0) < 2 ^ 32 \<and>
     unat (block_number s0) + length xs < 2 ^ 64 \<and> (\<forall>x \<in> set xs. quiet cs bohr x)"

definition proposal_limit :: "snapshot \<Rightarrow> nat" where
  "proposal_limit s = (length (validators s) div 2 + 1) * unat (turn_of s)"

lemma proposal_limit_pos: "turn_of s \<noteq> 0 \<Longrightarrow> 1 \<le> proposal_limit s"
  by (cases "unat (turn_of s)") (simp_all add: unat_eq_zero proposal_limit_def)

lemma turn_of_cong: "turn_length s = turn_length s' \<Longrightarrow> turn_of s = turn_of s'"
  by (simp add: turn_of_def)

lemma miner_history_cong:
  "validators s = validators s' \<Longrightarrow> turn_length s = turn_length s' \<Longrightarrow>
     miner_history_check_len s = miner_history_check_len s'"
  by (simp add: miner_history_check_len_def turn_of_def)

lemma quiet_run:
  assumes "snap_run hash hex cs s0 xs = Some s" and "quiet_start cs bohr s0 xs"
  shows "validators s = validators s0 \<and> turn_length s = turn_length s0 \<and> snap_wf s \<and>
         unat (block_number s) = unat (block_number s0) + length xs \<and>
         window_hist (unat (block_number s0)) (proposal_limit s0) (length xs) (map fst xs)
           (recent_proposers s)"
  using assms
proof (induction xs arbitrary: s rule: rev_induct)
  case Nil
  then show ?case
    by (auto simp: quiet_start_def window_hist_def dest!: map_of_SomeD)
next
  case (snoc x xs)
  obtain v h nv va att nt where x: "x = (v, h, nv, va, att, nt)" by (cases x) auto
  obtain s1 where run: "snap_run hash hex cs s0 xs = Some s1"
    and ap: "snap_apply hash hex cs s1 v h nv va att nt = Some (Some s)"
    using snoc.prems(1) by (auto simp: x snap_run_snoc)
  have "quiet_start cs bohr s0 xs" using snoc.prems(2) by (simp add: quiet_start_def)
  note IH = snoc.IH [OF run this]
  have nv: "nv = []" "\<not> is_maxwell_active_at_timestamp cs (number h) (timestamp h)"
    using snoc.prems(2) by (auto simp: quiet_start_def x quiet_def)
  note q = quiet_apply [OF ap [unfolded nv(1)] nv(2)]
  have "block_number s1 + 1 = number h" using ap by (rule snap_applyE)
  then have bn: "unat (number h) = unat (block_number s0) + 1 + length (map fst xs)"
    using IH snoc.prems(2) unat_add_nowrap [of "block_number s1" 1] by (auto simp: quiet_start_def)
  have L: "unat (miner_history_check_len s1 + 1) = proposal_limit s0"
    using IH snoc.prems(2) unat_miner_history(2) [of s0] miner_history_cong [of s1 s0]
    by (simp add: quiet_start_def proposal_limit_def)
  have "window_hist (unat (block_number s0)) (proposal_limit s0) (length (map fst xs))
      (map fst xs) (recent_proposers s1)"
    using IH by simp
  note window_hist_insert [OF window_hist_slide [OF this bn L] bn proposal_limit_pos]
  moreover have "turn_of s0 \<noteq> 0" using snoc.prems(2) by (simp add: quiet_start_def)
  ultimately show ?case
    using q IH bn snap_apply_wf [OF _ ap] \<open>block_number s1 + 1 = number h\<close> by (simp add: x)
qed

lemma snap_run_append:
  "snap_run hash hex cs s (xs @ ys) =
     (case snap_run hash hex cs s xs of None \<Rightarrow> None | Some s1 \<Rightarrow> snap_run hash hex cs s1 ys)"
  by (induction hash hex cs s xs rule: snap_run.induct) (auto split: option.splits)

text \<open>What the check saw when block \<open>j\<close> of a quiet run was accepted.\<close>

lemma quiet_run_accepted:
  assumes run: "snap_run hash hex cs s0 xs = Some s" and start: "quiet_start cs bohr s0 xs"
    and j: "j < length xs"
  obtains m where
    "window_hist (unat (block_number s0)) (proposal_limit s0) (j + 1) (take j (map fst xs))
       (recent_proposers m)"
    and "\<not> over_proposed bohr (map fst xs ! j) m" and "map fst xs ! j \<noteq> 0"
    and "unat (block_number m) = unat (block_number s0) + 1 + j"
    and "validators m = validators s0" and "turn_length m = turn_length s0"
    and "bt_wf (recent_proposers m)"
proof -
  obtain v h nv va att nt where x: "xs ! j = (v, h, nv, va, att, nt)" by (cases "xs ! j") auto
  have split: "xs = take j xs @ (v, h, nv, va, att, nt) # drop (Suc j) xs"
    using id_take_nth_drop [OF j] x by simp
  have q: "quiet cs bohr (xs ! j)" using start j by (simp add: quiet_start_def)
  have start': "quiet_start cs bohr s0 (take j xs)"
    using start by (auto simp: quiet_start_def dest: in_set_takeD)
  obtain s1 s2 where s1: "snap_run hash hex cs s0 (take j xs) = Some s1"
    and ap: "snap_apply hash hex cs s1 v h nv va att nt = Some (Some s2)"
    using run by (subst (asm) split) (auto simp: snap_run_append split: option.splits)
  note R = quiet_run [OF s1 start']
  have "block_number s1 + 1 = number h" and over: "\<not> over_proposed bohr v (slide_windows hash hex h s1)"
    and mem: "v \<in> set (validators s1)"
    using ap q by (auto elim!: snap_applyE simp: x quiet_def)
  then have bn: "unat (number h) = unat (block_number s0) + 1 + length (map fst (take j xs))"
    using R start j unat_add_nowrap [of "block_number s1" 1] by (auto simp: quiet_start_def)
  have L: "unat (miner_history_check_len s1 + 1) = proposal_limit s0"
    using R start unat_miner_history(2) [of s0] miner_history_cong [of s1 s0]
    by (simp add: quiet_start_def proposal_limit_def)
  have "window_hist (unat (block_number s0)) (proposal_limit s0) (length (map fst (take j xs)))
      (map fst (take j xs)) (recent_proposers s1)"
    using R by simp
  note hist = window_hist_slide [OF this bn L, of hash hex]
  show thesis
  proof (rule that [of "slide_windows hash hex h s1"])
    show "bt_wf (recent_proposers (slide_windows hash hex h s1))"
      using R bt_wf_slide_windows(1) by (simp add: snap_wf_def)
  qed (use hist over mem R j start bn x in
      \<open>auto simp: take_map quiet_start_def min_def\<close>)
qed

lemma quiet_run_spacing:
  assumes run: "snap_run hash hex cs s0 xs = Some s" and start: "quiet_start cs False s0 xs"
    and ij: "i < j" "j < length xs" and near: "j < i + proposal_limit s0"
  shows "map fst xs ! i \<noteq> map fst xs ! j"
proof -
  obtain m where hist: "window_hist (unat (block_number s0)) (proposal_limit s0) (j + 1)
       (take j (map fst xs)) (recent_proposers m)"
    and over: "\<not> over_proposed False (map fst xs ! j) m" and nz: "map fst xs ! j \<noteq> 0"
    by (rule quiet_run_accepted [OF run start ij(2)])
  have bound: "unat (block_number s0) + 1 + i < 2 ^ 64"
    using start ij by (simp add: quiet_start_def)
  let ?k = "word_of_nat (unat (block_number s0) + 1 + i) :: u64"
  have k: "unat ?k = unat (block_number s0) + 1 + i"
    by (rule unat_word_of_nat) (use bound in simp)
  show ?thesis
  proof
    assume eq: "map fst xs ! i = map fst xs ! j"
    have "map_of (recent_proposers m) ?k = Some (map fst xs ! j)"
      using hist nz ij near k eq by (auto simp: window_hist_def)
    then have "map fst xs ! j \<in> set (map snd (recent_proposers m))"
      by (force dest: map_of_SomeD)
    with over show False by (simp add: over_proposed_def)
  qed
qed

lemma count_fold:
  "map_of (fold (\<lambda>(b, w) c. if P b w then c
                  else AList.update w (unwrap_or (map_of c w) 0 + (1 :: u8)) c) m c0) v =
     (let n = length (filter (\<lambda>(b, w). w = v \<and> \<not> P b w) m) in
      if n = 0 then map_of c0 v else Some (unwrap_or (map_of c0 v) 0 + word_of_nat n))"
  by (induction m arbitrary: c0) (auto simp: Let_def update_conv' split: if_splits)

lemma sign_recently_iff:
  assumes "v \<noteq> 0" and "turn_of s \<noteq> 0"
    and "n = length (filter (\<lambda>(b, w). w = v \<and> left_bound s < b) (recent_proposers s))"
    and "n < 256"
  shows "sign_recently s v \<longleftrightarrow> unat (turn_of s) \<le> n"
proof -
  have c: "map_of (count_recent_proposers s) v = (if n = 0 then None else Some (word_of_nat n))"
    unfolding count_recent_proposers_def using assms(1,3)
    by (subst count_fold) (simp add: Let_def not_le conj_commute split: if_splits cong: conj_cong)
  have "unat (ucast (word_of_nat n :: u8) :: u64) = n"
    using assms(4) by (simp add: unat_ucast_up unat_word_of_nat)
  then show ?thesis
    using assms(2) by (auto simp: sign_recently_def sign_recently_by_counts_def c word_le_nat_alt
        unat_eq_zero)
qed

lemma window_count:
  assumes hist: "window_hist b0 (Suc W) (j + 1) ps (recent_proposers m)"
    and "length ps = j" and bn: "unat (block_number m) = b0 + 1 + j"
    and W: "unat (miner_history_check_len m) = W" and wf: "bt_wf (recent_proposers m)" and "v \<noteq> 0"
  shows "length (filter (\<lambda>(b, w). w = v \<and> left_bound m < b) (recent_proposers m)) =
           card {i. i < j \<and> ps ! i = v \<and> j < i + W}" (is "length (filter ?P ?m) = card ?J")
proof -
  have lb: "left_bound m < k \<longleftrightarrow> j < i + W" if "unat k = b0 + 1 + i" for k i
    using W bn that unat_sub_nowrap [of "miner_history_check_len m" "block_number m"]
    by (auto simp: left_bound_def word_less_nat_alt word_le_nat_alt)
  have dist: "distinct (map fst ?m)" using wf by (rule bt_wf_distinct)
  have mem: "(k, v) \<in> set ?m \<longleftrightarrow> (\<exists>i < j. unat k = b0 + 1 + i \<and> ps ! i = v \<and> j + 1 \<le> i + Suc W)"
    for k
    using hist assms(2,6) by (auto simp: window_hist_def map_of_eq_Some_iff [OF dist, symmetric])
  have el: "\<exists>k i. x = (k, v) \<and> unat k = b0 + 1 + i" if "x \<in> set (filter ?P ?m)" for x
    using that by (auto simp: mem)
  have "length (filter ?P ?m) = card (set (filter ?P ?m))"
    using dist by (intro distinct_card [symmetric] distinct_filter) (simp add: distinct_map)
  also have "\<dots> = card ?J"
  proof (rule bij_betw_same_card [of "\<lambda>(k, _). unat k - (b0 + 1)"], rule bij_betwI')
    fix x y assume "x \<in> set (filter ?P ?m)" and "y \<in> set (filter ?P ?m)"
    then obtain k i k' i' where "x = (k, v)" "unat k = b0 + 1 + i" "y = (k', v)" "unat k' = b0 + 1 + i'"
      using el by meson
    then show "((case x of (k, _) \<Rightarrow> unat k - (b0 + 1)) = (case y of (k, _) \<Rightarrow> unat k - (b0 + 1)))
        = (x = y)"
      by (simp add: word_unat_eq_iff)
  next
    fix x assume "x \<in> set (filter ?P ?m)"
    then show "(case x of (k, _) \<Rightarrow> unat k - (b0 + 1)) \<in> ?J"
      using lb by (auto simp: mem)
  next
    fix i assume i: "i \<in> ?J"
    have "unat (word_of_nat (b0 + 1 + i) :: u64) = b0 + 1 + i"
      by (rule unat_word_of_nat) (use i bn unat_lt2p [of "block_number m"] in simp)
    with i show "\<exists>x \<in> set (filter ?P ?m). i = (case x of (k, _) \<Rightarrow> unat k - (b0 + 1))"
      by (intro bexI [of _ "(word_of_nat (b0 + 1 + i), v)"]) (auto simp: mem lb)
  qed
  finally show ?thesis .
qed

lemma quiet_run_count:
  assumes run: "snap_run hash hex cs s0 xs = Some s" and start: "quiet_start cs True s0 xs"
    and "j \<le> length xs"
  shows "card {i. i < j \<and> map fst xs ! i = v \<and> j \<le> i + (proposal_limit s0 - 1)} \<le> unat (turn_of s0)"
  using assms(3)
proof (induction j)
  case (Suc j)
  let ?W = "proposal_limit s0 - 1" and ?ps = "map fst xs" and ?t = "unat (turn_of s0)"
  let ?B = "{i. i < j \<and> ?ps ! i = v \<and> j < i + ?W}"
  have t256: "?t < 256"
    using unsigned_less [of "unwrap_or (turn_length s0) 1"] by (simp add: turn_of_def unat_ucast_up)
  have B: "card ?B \<le> ?t"
    using Suc by (intro order.trans [OF card_mono Suc.IH]) auto
  show ?case
  proof (cases "?ps ! j = v")
    case False
    then have "{i. i < Suc j \<and> ?ps ! i = v \<and> Suc j \<le> i + ?W} = ?B"
      by (auto simp: less_Suc_eq)
    with B show ?thesis by simp
  next
    case True
    have j: "j < length xs" using Suc.prems by simp
    obtain m where hist: "window_hist (unat (block_number s0)) (proposal_limit s0) (j + 1)
         (take j ?ps) (recent_proposers m)"
      and over: "\<not> over_proposed True (?ps ! j) m" and nz: "?ps ! j \<noteq> 0"
      and bn: "unat (block_number m) = unat (block_number s0) + 1 + j"
      and same: "validators m = validators s0" "turn_length m = turn_length s0"
      and wf: "bt_wf (recent_proposers m)"
      by (rule quiet_run_accepted [OF run start j])
    have tn: "turn_of s0 \<noteq> 0" and len: "length (validators s0) < 2 ^ 32"
      using start by (simp_all add: quiet_start_def)
    have W: "unat (miner_history_check_len m) = ?W"
      using unat_miner_history(1) [OF tn len] miner_history_cong [OF same]
      by (simp add: proposal_limit_def)
    have L: "window_hist b (proposal_limit s0) = window_hist b (Suc ?W)" for b
      using proposal_limit_pos [OF tn] by simp
    let ?n = "length (filter (\<lambda>(b, w). w = v \<and> left_bound m < b) (recent_proposers m))"
    have "?n = card {i. i < j \<and> take j ?ps ! i = v \<and> j < i + ?W}"
      using nz True j by (intro window_count [OF hist [unfolded L] _ bn W wf]) simp_all
    also have "{i. i < j \<and> take j ?ps ! i = v \<and> j < i + ?W} = ?B" by auto
    finally have n: "?n = card ?B" .
    have "\<not> ?t \<le> ?n"
      using over nz True sign_recently_iff [of v m ?n] turn_of_cong [OF same(2)] tn n B t256
      by (simp add: over_proposed_def)
    moreover have "{i. i < Suc j \<and> ?ps ! i = v \<and> Suc j \<le> i + ?W} \<subseteq> insert j ?B"
      by (auto simp: less_Suc_eq)
    then have "card {i. i < Suc j \<and> ?ps ! i = v \<and> Suc j \<le> i + ?W} \<le> card (insert j ?B)"
      by (intro card_mono) auto
    ultimately show ?thesis using n by (simp add: card_insert_if split: if_splits)
  qed
qed simp

lemma count_list_window:
  "count_list (take W (drop i ps)) v = card {k. i \<le> k \<and> k < i + W \<and> k < length ps \<and> ps ! k = v}"
proof -
  have "count_list (take W (drop i ps)) v =
      card {k. k < min W (length ps - i) \<and> ps ! (i + k) = v}" (is "_ = card ?A")
    by (auto simp: count_list_eq_length_filter length_filter_conv_card intro!: arg_cong [of _ _ card])
  also have "\<dots> = card ((+) i ` ?A)" by (simp add: card_image)
  also have "(+) i ` ?A = {k. i \<le> k \<and> k < i + W \<and> k < length ps \<and> ps ! k = v}"
  proof (intro set_eqI iffI)
    fix k assume "k \<in> {k. i \<le> k \<and> k < i + W \<and> k < length ps \<and> ps ! k = v}"
    then show "k \<in> (+) i ` ?A" by (intro image_eqI [of _ _ "k - i"]) auto
  qed auto
  finally show ?thesis .
qed

section \<open>Turns\<close>

lemma card_turn_base:
  assumes "0 < t" and "i < n"
  shows "card {b \<in> {0..<n * t}. b div t mod n = i} = (t :: nat)"
proof -
  have iff: "b div t mod n = i \<longleftrightarrow> b \<in> {i * t..<i * t + t}" if "b < n * t" for b
  proof -
    have "b div t < n" using that assms by (simp add: less_mult_imp_div_less)
    then have "b div t mod n = i \<longleftrightarrow> b div t = i" by simp
    also have "\<dots> \<longleftrightarrow> i * t \<le> b \<and> b < i * t + t"
    proof
      assume "b div t = i"
      then have "i * t + b mod t = b" using div_mult_mod_eq [of b t] by simp
      then show "i * t \<le> b \<and> b < i * t + t"
        using mod_less_divisor [OF assms(1), of b] by linarith
    qed (auto intro!: div_nat_eqI simp: mult.commute)
    finally show ?thesis by simp
  qed
  have le: "i * t + t \<le> n * t"
    using mult_le_mono1 [of "Suc i" n t] assms(2) by simp
  have "{b \<in> {0..<n * t}. b div t mod n = i} = {i * t..<i * t + t}"
  proof (intro set_eqI iffI)
    fix b assume "b \<in> {b \<in> {0..<n * t}. b div t mod n = i}"
    then show "b \<in> {i * t..<i * t + t}" using iff [of b] by simp
  next
    fix b assume "b \<in> {i * t..<i * t + t}"
    then show "b \<in> {b \<in> {0..<n * t}. b div t mod n = i}" using iff [of b] le by simp
  qed
  then show ?thesis by simp
qed

lemma card_turn:
  assumes "0 < t" and "i < n"
  shows "card {b \<in> {a..<a + n * t}. b div t mod n = i} = (t :: nat)"
proof (induction a)
  case 0
  then show ?case using card_turn_base [OF assms] by simp
next
  case (Suc a)
  let ?f = "\<lambda>b. b div t mod n = i"
  let ?A = "{b \<in> {a..<a + n * t}. ?f b}" and ?B = "{b \<in> {Suc a..<Suc a + n * t}. ?f b}"
  have n: "0 < n * t" using assms by simp
  have per: "?f (a + n * t) = ?f a" using assms by simp
  have mem: "b \<in> insert (a + n * t) {a..<a + n * t} \<longleftrightarrow> b \<in> insert a {Suc a..<Suc a + n * t}" for b
    using n by auto
  have "card ?A = card ?B"
  proof (cases "?f a")
    case True
    have "insert (a + n * t) ?A = insert a ?B"
    proof (intro set_eqI)
      fix b
      show "b \<in> insert (a + n * t) ?A \<longleftrightarrow> b \<in> insert a ?B"
        using mem [of b] True per by (cases "b = a \<or> b = a + n * t") auto
    qed
    then have "card (insert (a + n * t) ?A) = card (insert a ?B)" by (rule arg_cong)
    then show ?thesis by simp
  next
    case False
    have "?A = ?B"
    proof (intro set_eqI)
      fix b
      show "b \<in> ?A \<longleftrightarrow> b \<in> ?B"
        using mem [of b] False per by (cases "b = a \<or> b = a + n * t") auto
    qed
    then show ?thesis by (rule arg_cong)
  qed
  with Suc show ?case by simp
qed

lemma inturn_validator_at:
  assumes "turn_of s \<noteq> 0" and "validators s \<noteq> []" and "Suc b < 2 ^ 64"
  shows "inturn_validator (s\<lparr>block_number := word_of_nat b\<rparr>) =
           Some (validators s ! (Suc b div unat (turn_of s) mod length (validators s)))"
proof -
  have "unat (word_of_nat b + 1 :: u64) = Suc b"
  proof -
    have "word_of_nat b + 1 = (word_of_nat (Suc b) :: u64)" by simp
    moreover have "unat (word_of_nat (Suc b) :: u64) = Suc b"
      by (rule unat_word_of_nat) (use assms(3) in simp)
    ultimately show ?thesis by (simp only:)
  qed
  moreover have "(ucast (unwrap_or (turn_length s) DEFAULT_TURN_LENGTH) :: u64) = turn_of s"
    by (simp add: turn_of_def DEFAULT_TURN_LENGTH_def)
  ultimately show ?thesis
    using assms(1,2)
    by (simp add: inturn_validator_def Let_def checked_div_def index_Some unat_div_distrib)
qed

section \<open>Epoch switches\<close>

lemma change_validators_fields:
  assumes "change_validators o' b k n nv va nt s = Some s'"
  shows "vote_data s' = vote_data s" and "epoch_num s' = epoch_num s"
    and "block_number s' = block_number s" and "validators s' = sort nv"
    and "b \<Longrightarrow> recent_proposers s' = [(k, 0)]"
  using assms
  by (auto simp: change_validators_def Let_def clear_miner_history_def
      split: bind_splits option.splits)

lemma snap_apply_vote_data:
  assumes "snap_apply hash hex cs s v h nv va att nt = Some (Some s')"
  shows "vote_data s' = vote_data (update_attestation cs h att s)"
    and "block_number s' = number h"
proof -
  have "vote_data (update_attestation cs h att (slide_windows hash hex h s)) =
      vote_data (update_attestation cs h att s)"
    by (simp add: update_attestation_def has_existing_attestation_def split: option.splits)
  then show "vote_data s' = vote_data (update_attestation cs h att s)"
    and "block_number s' = number h"
    using assms change_validators_fields(1,3)
    by (auto elim!: snap_applyE simp: Let_def split: if_splits)
qed

lemma epoch_key_high:
  assumes "bn < 2 ^ 63"
  shows "(2 ^ 63 :: u64) \<le> u64_max - bn div e"
proof -
  have "unat (bn div e) \<le> unat bn" by (simp add: unat_div_distrib)
  also have "unat bn < 2 ^ 63" using assms by (simp add: word_less_nat_alt)
  finally have d: "unat (bn div e) < 2 ^ 63" .
  have "bn div e \<le> u64_max"
    using d by (simp add: word_le_nat_alt)
  then have "unat (u64_max - bn div e) = 2 ^ 64 - 1 - unat (bn div e)"
    by (simp add: unat_sub_nowrap)
  with d show ?thesis by (simp add: word_le_nat_alt)
qed

text \<open>The marker left by a switch survives the next block and blocks a second switch.\<close>

lemma marker_step:
  assumes ap: "snap_apply hash hex cs s v h nv va att nt = Some (Some s')"
    and bohr: "is_bohr_active_at_timestamp cs (number h) (timestamp h)"
    and marker: "bt_contains (recent_proposers s) (u64_max - number h div epoch_num s)"
    and bound: "number h < 2 ^ 63" "source_number (vote_data s') < 2 ^ 63"
  shows "validators s' = validators s \<and> validators_map s' = validators_map s \<and>
         turn_length s' = turn_length s \<and>
         bt_contains (recent_proposers s') (u64_max - number h div epoch_num s)"
proof -
  let ?key = "u64_max - number h div epoch_num s"
  let ?s5 = "record_block cs v h att (slide_windows hash hex h s)"
  have high: "2 ^ 63 \<le> ?key" using bound(1) by (rule epoch_key_high)
  have far: "number h - k \<noteq> ?key" if "k \<le> number h" for k
  proof -
    have "number h - k \<le> number h"
      using that by (simp add: word_le_nat_alt unat_sub_nowrap)
    with high bound(1) show ?thesis by auto
  qed
  have slid: "bt_contains (recent_proposers (slide_windows hash hex h s)) ?key"
    using marker far [of "miner_history_check_len s + 1"]
    by (auto simp: slide_windows_def Let_def bt_contains_iff map_of_bt_remove split: if_splits)
  have "vote_data ?s5 = vote_data s'"
    using snap_apply_vote_data [OF ap]
    by (simp add: update_attestation_def has_existing_attestation_def split: option.splits)
  then have "\<not> ?key \<le> get_finalized_number ?s5"
    using bound(2) high by (auto simp: get_finalized_number_def)
  then have "bt_contains (recent_proposers ?s5) ?key"
    using slid
    by (auto simp: record_block_def Let_def clear_finalized_recents bt_contains_iff get_finalized_number_def
        fold_bt_remove map_of_bt_insert)
  then show ?thesis
    using ap bohr by (elim snap_applyE) (auto simp: Let_def)
qed

lemma change_validators_forks:
  assumes "change_validators o' b k bn nv va nt s = Some s'"
    and "version_history_check_len s = version_history_check_len o'"
    and "nt = None \<or> nt = turn_length s"
  shows "recent_fork_hashes s' = recent_fork_hashes s"
proof -
  define s2 where "s2 = clear_miner_history b k bn (length nv)
    (case nt of Some t \<Rightarrow> s\<lparr>turn_length := Some t\<rparr> | None \<Rightarrow> s)"
  have "validators s2 = validators s" and "turn_length s2 = turn_length s"
    and forks: "recent_fork_hashes s2 = recent_fork_hashes s"
    using assms(3) by (auto simp: s2_def split: option.splits)
  then have "version_history_check_len s2 = version_history_check_len o'"
    using assms(2) by (simp add: version_history_check_len_def turn_of_def)
  with assms(1) forks show ?thesis
    by (auto simp: change_validators_def Let_def clean_fork_hashes_def simp flip: s2_def
        split: bind_splits)
qed

lemma maxwell_epoch_stable:
  assumes "snap_apply hash hex cs s v h nv va att nt = Some (Some s')"
    and "epoch_num s = MAXWELL_EPOCH_LENGTH"
  shows "epoch_num s' = MAXWELL_EPOCH_LENGTH"
  using assms change_validators_fields(2)
  by (auto elim!: snap_applyE simp: Let_def update_epoch_num_def epoch_consts split: if_splits)

lemma marker_placed:
  assumes "snap_apply hash hex cs s v h nv va att nt = Some (Some s')" and "nv \<noteq> []"
    and "is_bohr_active_at_timestamp cs (number h) (timestamp h)"
    and "epoch_num s = MAXWELL_EPOCH_LENGTH"
  shows "epoch_num s' = MAXWELL_EPOCH_LENGTH \<and>
         bt_contains (recent_proposers s') (u64_max - number h div MAXWELL_EPOCH_LENGTH)"
  using maxwell_epoch_stable [OF assms(1,4)] assms change_validators_fields(5)
  by (auto elim!: snap_applyE simp: Let_def bt_contains_def split: if_splits)

section \<open>Properties\<close>

text \<open>Sample data the concrete instances below are evaluated on.\<close>

definition sample_snapshot :: "u64 \<Rightarrow> address list \<Rightarrow> u8 \<Rightarrow> u64 \<Rightarrow> snapshot" where
  "sample_snapshot n vs t e =
     \<lparr>epoch_num = e, block_number = n, block_hash = 0, validators = vs,
      validators_map = indexed_map vs, recent_proposers = [], vote_data = vote_data_default,
      turn_length = Some t, block_interval = DEFAULT_BLOCK_INTERVAL, recent_fork_hashes = []\<rparr>"

definition sample_block :: "u64 \<Rightarrow> u64 \<Rightarrow> address \<Rightarrow> applied_block" where
  "sample_block n ts v = (v, sample_header n ts, [], None, None, None)"

lemmas sample_defs = sample_header_def sample_snapshot_def sample_block_def

text \<open>
  C3. Every snapshot a chain reaches is well formed, and on such a snapshot \<open>apply\<close> returns:
  the division by the epoch length cannot panic, and the only panic left is the assertion on the
  number of vote addresses.
\<close>

theorem snapshot_chain_safe:
  assumes "snap_init s0" and "(snap_step hash hex cs)\<^sup>*\<^sup>* s0 s"
  shows "snap_wf s \<and>
         (snap_apply hash hex cs s v h nv va att nt = None \<longrightarrow>
            (\<exists>as. va = Some as \<and> length nv \<noteq> length as))"
proof -
  have wf: "snap_wf s" using chain.inv_reachable [OF assms] .
  have "snap_apply hash hex cs s v h nv va att nt \<noteq> None"
    if "\<forall>as. va = Some as \<longrightarrow> length nv = length as"
    using wf that build_validators_map_Some [of nv va]
    by (auto simp: snap_apply_def Let_def checked_div_def snap_wf_def change_validators_def
        split: if_splits bind_splits)
  with wf show ?thesis by blast
qed

theorem snapshot_chain_safe_witness:
  "snap_wf (the (snapshot_new [5, 3] 0 0 0 None))"
proof -
  let ?s = "the (snapshot_new [5, 3] 0 0 0 None)"
  have "snapshot_new [5, 3] 0 0 0 None = Some ?s"
    by (simp add: snapshot_new_def build_validators_map_def Let_def)
  then have "snap_init ?s" by (rule snap_init.intros)
  then show ?thesis using snapshot_chain_safe [of ?s hash hex mainnet_spec ?s] by blast
qed




lemma sample_start:
  assumes "snap_wf (sample_snapshot n vs t e)" and "0 \<notin> set vs" and "t \<noteq> 0"
    and "length vs < 2 ^ 32" and "unat n + length xs < 2 ^ 64" and "list_all (quiet cs bohr) xs"
  shows "quiet_start cs bohr (sample_snapshot n vs t e) xs"
  using assms
  by (simp add: quiet_start_def sample_snapshot_def turn_of_def list_all_iff unat_ucast_up
      flip: unat_eq_zero)


text \<open>
  C1. From Bohr on (before Maxwell, without a validator change), among any
  \<open>(validators / 2 + 1) * turn_length - 1\<close> consecutive blocks of an accepted chain no validator
  signs more than \<open>turn_length\<close> of them; the 8-bit counters never wrap on such a chain.
\<close>

theorem proposer_quota:
  assumes "snap_run hash hex cs s0 xs = Some s" and "quiet_start cs True s0 xs"
  shows "count_list (take (proposal_limit s0 - 1) (drop i (map fst xs))) v \<le> unat (turn_of s0)"
proof -
  let ?W = "proposal_limit s0 - 1" and ?ps = "map fst xs"
  let ?j = "min (i + ?W) (length xs)"
  have "count_list (take ?W (drop i ?ps)) v \<le> card {k. k < ?j \<and> ?ps ! k = v \<and> ?j \<le> k + ?W}"
    unfolding count_list_window by (intro card_mono) auto
  also have "\<dots> \<le> unat (turn_of s0)"
    using quiet_run_count [OF assms, of ?j v] by simp
  finally show ?thesis .
qed

theorem proposer_quota_witness:
  "count_list (take (proposal_limit (sample_snapshot 42000000 [3, 5, 7] 2 200) - 1)
     (drop 0 (map fst [sample_block 42000001 1727400000 3, sample_block 42000002 1727400003 3,
                       sample_block 42000003 1727400006 5]))) 3
   \<le> unat (turn_of (sample_snapshot 42000000 [3, 5, 7] 2 200))"
proof -
  let ?s0 = "sample_snapshot 42000000 [3, 5, 7] 2 200"
  let ?xs = "[sample_block 42000001 1727400000 3, sample_block 42000002 1727400003 3,
              sample_block 42000003 1727400006 5]"
  have "snap_run (\<lambda>_. 0) (\<lambda>_. []) mainnet_spec ?s0 ?xs \<noteq> None" by code_simp
  then obtain s where run: "snap_run (\<lambda>_. 0) (\<lambda>_. []) mainnet_spec ?s0 ?xs = Some s" by blast
  have "snap_wf ?s0" and "list_all (quiet mainnet_spec True) ?xs" by code_simp+
  then have "quiet_start mainnet_spec True ?s0 ?xs" by (intro sample_start) simp_all
  from proposer_quota [OF run this, of 0 3] show ?thesis .
qed

text \<open>
  C23. Turns are fair: over any \<open>validators * turn_length\<close> consecutive block numbers each
  validator is the in-turn proposer of exactly \<open>turn_length\<close> of them.
\<close>

theorem turn_fairness:
  assumes "turn_of s \<noteq> 0" and "distinct (validators s)" and "v \<in> set (validators s)"
    and "a + length (validators s) * unat (turn_of s) < 2 ^ 64"
  shows "card {b \<in> {a..<a + length (validators s) * unat (turn_of s)}.
                 inturn_validator (s\<lparr>block_number := word_of_nat b\<rparr>) = Some v} = unat (turn_of s)"
    (is "card ?B = ?t")
proof -
  let ?n = "length (validators s)"
  obtain i where i: "i < ?n" "validators s ! i = v" using assms(3) by (auto simp: in_set_conv_nth)
  have t: "0 < ?t" using assms(1) by (simp add: unat_gt_0)
  have ne: "validators s \<noteq> []" using i by auto
  have it: "b \<in> ?B \<longleftrightarrow> b \<in> {a..<a + ?n * ?t} \<and> Suc b div ?t mod ?n = i" for b
    using assms(1,2,4) i ne inturn_validator_at [of s b]
    by (auto simp: nth_eq_iff_index_eq)
  have "{b \<in> {Suc a..<Suc a + ?n * ?t}. b div ?t mod ?n = i} = Suc ` ?B"
  proof (intro set_eqI)
    fix c
    show "c \<in> {b \<in> {Suc a..<Suc a + ?n * ?t}. b div ?t mod ?n = i} \<longleftrightarrow> c \<in> Suc ` ?B"
      using it by (cases c) (simp_all add: image_iff)
  qed
  then have "card ?B = card {b \<in> {Suc a..<Suc a + ?n * ?t}. b div ?t mod ?n = i}"
    by (simp only: card_image [OF inj_Suc])
  also have "\<dots> = ?t" using card_turn [OF t i(1), of "Suc a"] .
  finally show ?thesis .
qed

theorem turn_fairness_witness:
  "card {b \<in> {5..<5 + 3 * 2}.
           inturn_validator (sample_snapshot 0 [3, 5, 7] 2 200\<lparr>block_number := word_of_nat b\<rparr>) = Some 5}
   = 2"
  using turn_fairness [of "sample_snapshot 0 [3, 5, 7] 2 200" 5 5]
  by (simp add: sample_snapshot_def turn_of_def)

text \<open>
  C4. Fast finality: once a snapshot carries an attestation, a header moves the finalized block
  (the source of the recorded vote) only with an attestation whose source is the direct parent
  height of its target, and before Fermi only if that target is the header's own parent.
\<close>

theorem finality_rule:
  assumes "snap_apply hash hex cs s v h nv va att nt = Some (Some s')"
    and "has_existing_attestation s"
    and "source_number (vote_data s') \<noteq> source_number (vote_data s) \<or>
         source_hash (vote_data s') \<noteq> source_hash (vote_data s)"
  shows "\<exists>a. att = Some a \<and> vote_data s' = att_data a \<and>
             source_number (att_data a) + 1 = target_number (att_data a) \<and>
             (is_fermi_active_at_timestamp cs (number h) (timestamp h) \<or>
              (target_number (att_data a) + 1 = number h \<and> target_hash (att_data a) = parent_hash h))"
  using assms snap_apply_vote_data(1) [OF assms(1)]
  by (auto simp: update_attestation_def split: option.splits if_splits)

definition sample_attestation :: "u64 \<Rightarrow> vote_attestation" where
  "sample_attestation n =
     \<lparr>vote_address_set = 7, agg_signature = 0,
      att_data = \<lparr>source_number = n, source_hash = 0, target_number = n + 1, target_hash = 0\<rparr>,
      att_extra = []\<rparr>"

theorem finality_rule_witness:
  "\<exists>s'. snap_apply (\<lambda>_. 0) (\<lambda>_. []) mainnet_spec
           (sample_snapshot 42 [3, 5, 7] 1 200\<lparr>vote_data := att_data (sample_attestation 40)\<rparr>) 3
           (sample_header 43 0) [] None (Some (sample_attestation 41)) None = Some (Some s') \<and>
        vote_data s' = att_data (sample_attestation 41)"
proof -
  let ?s = "sample_snapshot 42 [3, 5, 7] 1 200\<lparr>vote_data := att_data (sample_attestation 40)\<rparr>"
  let ?r = "snap_apply (\<lambda>_. 0) (\<lambda>_. []) mainnet_spec ?s 3
     (sample_header 43 0) [] None (Some (sample_attestation 41)) None"
  have "Option.bind ?r id \<noteq> None"
    and "\<forall>s' \<in> set_option (Option.bind ?r id). source_number (vote_data s') = 41"
    and "has_existing_attestation ?s"
    by code_simp+
  then obtain s' where s': "?r = Some (Some s')" and src: "source_number (vote_data s') = 41"
    by (cases ?r) auto
  have "source_number (vote_data s') \<noteq> source_number (vote_data ?s)"
    using src by (simp add: sample_attestation_def)
  with finality_rule [OF s' \<open>has_existing_attestation ?s\<close>] s' show ?thesis by auto
qed



text \<open>
  C30. The clean-up of fork hashes after a validator change compares the old window with the
  window of the \<^emph>\<open>old\<close> validator set (the set is replaced only afterwards): when the turn length
  stays, nothing is removed, however much the set shrinks.
\<close>

theorem fork_hashes_kept_on_shrink:
  assumes "snap_apply hash hex cs s v h nv va att nt = Some (Some s')"
    and "nt = None \<or> nt = turn_length s"
  shows "recent_fork_hashes s' = recent_fork_hashes (slide_windows hash hex h s)"
proof -
  have "version_history_check_len (update_epoch_num l m n (record_block cs v h att
      (slide_windows hash hex h s))) = version_history_check_len s" for l m n
    by (simp add: version_history_check_len_def turn_of_def)
  with assms change_validators_forks show ?thesis
    by (auto elim!: snap_applyE simp: Let_def split: if_splits)
qed

theorem fork_hashes_kept_on_shrink_witness:
  "\<exists>s'. snap_apply (\<lambda>_. 0) (\<lambda>_. ''ab'') mainnet_spec
           (sample_snapshot 42 [3, 5, 7, 9] 1 200
              \<lparr>recent_fork_hashes := [(39, ''ab''), (40, ''ab''), (41, ''ab''), (42, ''ab'')]\<rparr>) 3
           (sample_header 43 0) [5] None None None = Some (Some s') \<and>
        version_history_check_len s' = 1 \<and>
        map fst (recent_fork_hashes s') = [40, 41, 42]"
proof -
  let ?s = "sample_snapshot 42 [3, 5, 7, 9] 1 200
     \<lparr>recent_fork_hashes := [(39, ''ab''), (40, ''ab''), (41, ''ab''), (42, ''ab'')]\<rparr>"
  let ?r = "snap_apply (\<lambda>_. 0) (\<lambda>_. ''ab'') mainnet_spec ?s 3 (sample_header 43 0) [5] None None None"
  have "Option.bind ?r id \<noteq> None"
    and "\<forall>s' \<in> set_option (Option.bind ?r id). version_history_check_len s' = 1"
    and keys: "map fst (recent_fork_hashes (slide_windows (\<lambda>_. 0) (\<lambda>_. ''ab'') (sample_header 43 0) ?s)) =
      [40, 41, 42]"
    by code_simp+
  then obtain s' where s': "?r = Some (Some s')" and "version_history_check_len s' = 1"
    by (cases ?r) auto
  with keys fork_hashes_kept_on_shrink [OF s'] show ?thesis by auto
qed

end
