(* ===== verification/ExtraData.thy ===== *)
theory ExtraData
  imports Snapshot
begin

text \<open>
  The extra data of a header, from \<open>src/consensus/parlia/consensus.rs\<close>: 32 vanity bytes, at an
  epoch block the validators (from Luban on with a count and 48-byte vote addresses, from Bohr on
  followed by the turn length), an optional vote attestation, and the 65-byte seal. Here are the
  readers, the length checks, the writers used when a block is prepared, and the recovery of the
  signer with its cache.

  Indexing and slicing outside the bytes panics: the readers return an outer \<open>option\<close>, \<open>None\<close>
  for a panic. RLP decoding, the ECDSA operations and the LRU caches are arguments.
\<close>

section \<open>Data\<close>

record parlia =
  spec :: chain_spec
  epoch :: u64

record validators_info =
  consensus_addrs :: "address list"
  vote_addrs :: "vote_address list option"

datatype parlia_consensus_error =
    ExtraVanityMissing
  | ExtraSignatureMissing
  | InvalidHeaderExtraLen u64
  | InvalidHeaderExtraValidatorBytesLen bool nat
  | InvalidHeaderExtra
  | HeaderNotFound b256
  | SnapshotNotFound b256
  | NotInEpoch u64
  | RecoverECDSAInnerError
  | ExtraInvalidTurnLength
  | ExtraInvalidAttestation
  | FetchVoteError vote_address
  | AggregateSignatureError
  | InvalidAttestationVoteCount u32 u32
  | TurnLengthNotFound b256

text \<open>Subtraction on \<open>usize\<close>, which wraps in the release build.\<close>

definition usize_sub :: "nat \<Rightarrow> nat \<Rightarrow> nat" where
  [rust_std]: "usize_sub a b = (if b \<le> a then a - b else 2 ^ 64 + a - b)"

section \<open>Readers\<close>

definition get_epoch_length :: "parlia \<Rightarrow> header \<Rightarrow> u64" where
  "get_epoch_length p h =
     (if is_maxwell_active_at_timestamp (spec p) (number h) (timestamp h) then MAXWELL_EPOCH_LENGTH
      else if is_lorentz_active_at_timestamp (spec p) (number h) (timestamp h) then LORENTZ_EPOCH_LENGTH
      else epoch p)"

definition get_validator_bytes_from_header :: "parlia \<Rightarrow> header \<Rightarrow> u64 \<Rightarrow> bytes option option" where
  "get_validator_bytes_from_header p h epoch_length =
     (let extra_len = length (extra_data h) in
      if extra_len \<le> EXTRA_VANITY_LEN + EXTRA_SEAL_LEN then Some None
      else
        (let is_luban_active = is_luban_active_at_block (spec p) (number h);
             is_epoch = is_multiple_of (number h) epoch_length
         in if is_luban_active then
              (if \<not> is_epoch then Some None
               else do {
                 b \<leftarrow> index (extra_data h) EXTRA_VANITY_LEN;
                 let count = unat b;
                 let start = EXTRA_VANITY_LEN + VALIDATOR_NUMBER_SIZE;
                 let last = start + count * VALIDATOR_BYTES_LEN_AFTER_LUBAN;
                 let extra_min_len = last + EXTRA_SEAL_LEN +
                   (if is_bohr_active_at_timestamp (spec p) (number h) (timestamp h)
                    then TURN_LENGTH_SIZE else 0);
                 if count = 0 \<or> extra_len < extra_min_len then Some None
                 else map_option Some (slice start last (extra_data h))
               })
            else if is_epoch \<and>
                    \<not> VALIDATOR_BYTES_LEN_BEFORE_LUBAN dvd (extra_len - EXTRA_VANITY_LEN - EXTRA_SEAL_LEN)
            then Some None
            else map_option Some (slice EXTRA_VANITY_LEN (extra_len - EXTRA_SEAL_LEN) (extra_data h))))"

definition get_turn_length_from_header ::
  "parlia \<Rightarrow> header \<Rightarrow> u64 \<Rightarrow> (parlia_consensus_error + u8 option) option" where
  "get_turn_length_from_header p h epoch_length =
     (if \<not> is_multiple_of (number h) epoch_length \<or>
         \<not> is_bohr_active_at_timestamp (spec p) (number h) (timestamp h) then Some (Inr None)
      else if length (extra_data h) \<le> EXTRA_VANITY_LEN + EXTRA_SEAL_LEN
      then Some (Inl (InvalidHeaderExtraLen (word_of_nat (length (extra_data h)))))
      else do {
        b \<leftarrow> index (extra_data h) EXTRA_VANITY_LEN;
        let pos = EXTRA_VANITY_LEN + 1 + unat b * VALIDATOR_BYTES_LEN_AFTER_LUBAN;
        if length (extra_data h) \<le> pos then Some (Inl ExtraInvalidTurnLength)
        else map_option (\<lambda>t. Inr (Some t)) (index (extra_data h) pos)
      })"

text \<open>The bytes between the validator section and the seal.\<close>

definition raw_attestation_data :: "parlia \<Rightarrow> header \<Rightarrow> u64 \<Rightarrow> bytes option option" where
  "raw_attestation_data p h epoch_length =
     (let extra_len = length (extra_data h) in
      if \<not> is_multiple_of (number h) epoch_length
      then map_option Some (slice EXTRA_VANITY_LEN (extra_len - EXTRA_SEAL_LEN) (extra_data h))
      else do {
        b \<leftarrow> index (extra_data h) (EXTRA_VANITY_LEN + VALIDATOR_NUMBER_SIZE - 1);
        let start = EXTRA_VANITY_LEN + VALIDATOR_NUMBER_SIZE + unat b * VALIDATOR_BYTES_LEN_AFTER_LUBAN +
          (if is_bohr_active_at_timestamp (spec p) (number h) (timestamp h) then TURN_LENGTH_SIZE else 0);
        let last = extra_len - EXTRA_SEAL_LEN;
        if last \<le> start then Some None else map_option Some (slice start last (extra_data h))
      })"

definition get_vote_attestation_from_header ::
  "(bytes \<Rightarrow> vote_attestation option) \<Rightarrow> parlia \<Rightarrow> header \<Rightarrow> u64 \<Rightarrow>
     (parlia_consensus_error + vote_attestation option) option" where
  "get_vote_attestation_from_header decode p h epoch_length =
     (let extra_len = length (extra_data h) in
      if extra_len \<le> EXTRA_VANITY_LEN + EXTRA_SEAL_LEN then Some (Inr None)
      else if \<not> is_luban_active_at_block (spec p) (number h) then Some (Inr None)
      else do {
        raw \<leftarrow> raw_attestation_data p h epoch_length;
        Some (case raw of
            None \<Rightarrow> Inr None
          | Some bs \<Rightarrow>
              if bs = [] then Inr None
              else res_bind (ok_or (decode bs) ExtraInvalidAttestation) (\<lambda>a. Inr (Some a)))
      })"

section \<open>Length checks\<close>

definition get_validator_len_from_header ::
  "parlia \<Rightarrow> header \<Rightarrow> (parlia_consensus_error + nat) option" where
  "get_validator_len_from_header p h =
     (let is_epoch = is_multiple_of (number h) (get_epoch_length p h);
          extra_len = length (extra_data h)
      in if \<not> is_epoch then
           (if is_luban_active_at_block (spec p) (number h) then Some (Inr 0)
            else Some (Inr (usize_sub (usize_sub extra_len EXTRA_VANITY_LEN) EXTRA_SEAL_LEN)))
         else if \<not> is_luban_active_at_block (spec p) (number h)
         then Some (Inr (usize_sub (usize_sub extra_len EXTRA_VANITY_LEN) EXTRA_SEAL_LEN))
         else map_option (\<lambda>b. Inr (unat b * VALIDATOR_BYTES_LEN_AFTER_LUBAN))
                (index (extra_data h) (EXTRA_VANITY_LEN + VALIDATOR_NUMBER_SIZE - 1)))"

definition check_header_extra_len :: "parlia \<Rightarrow> header \<Rightarrow> (parlia_consensus_error + unit) option" where
  "check_header_extra_len p h =
     (let extra_len = length (extra_data h) in
      if extra_len < EXTRA_VANITY_LEN then Some (Inl ExtraVanityMissing)
      else if extra_len < EXTRA_VANITY_LEN + EXTRA_SEAL_LEN then Some (Inl ExtraSignatureMissing)
      else if \<not> is_multiple_of (number h) (get_epoch_length p h) then Some (Inr ())
      else if is_luban_active_at_block (spec p) (number h) then
        do {
          b \<leftarrow> index (extra_data h) (EXTRA_VANITY_LEN + VALIDATOR_NUMBER_SIZE - 1);
          let count = unat b;
          let expect = EXTRA_VANITY_LEN + VALIDATOR_NUMBER_SIZE + EXTRA_SEAL_LEN +
            count * VALIDATOR_BYTES_LEN_AFTER_LUBAN;
          if count = 0 \<or> extra_len < expect
          then Some (Inl (InvalidHeaderExtraLen (word_of_nat extra_len)))
          else Some (Inr ())
        }
      else
        (let validator_bytes_len = extra_len - EXTRA_VANITY_LEN - EXTRA_SEAL_LEN in
         if validator_bytes_len div VALIDATOR_BYTES_LEN_BEFORE_LUBAN = 0 \<or>
            \<not> VALIDATOR_BYTES_LEN_BEFORE_LUBAN dvd validator_bytes_len
         then Some (Inl (InvalidHeaderExtraLen (word_of_nat extra_len)))
         else Some (Inr ())))"

definition check_header_extra :: "parlia \<Rightarrow> header \<Rightarrow> (parlia_consensus_error + unit) option" where
  "check_header_extra p h =
     do {
       r \<leftarrow> check_header_extra_len p h;
       case r of
         Inl e \<Rightarrow> Some (Inl e)
       | Inr _ \<Rightarrow>
           do {
             let is_epoch = is_multiple_of (number h) (get_epoch_length p h);
             l \<leftarrow> get_validator_len_from_header p h;
             Some (res_bind l (\<lambda>validator_bytes_len.
               if (\<not> is_epoch \<and> validator_bytes_len \<noteq> 0) \<or> (is_epoch \<and> validator_bytes_len = 0)
               then Inl (InvalidHeaderExtraValidatorBytesLen is_epoch validator_bytes_len)
               else Inr ()))
           }
     }"

section \<open>Parsing the validators\<close>

text \<open>The slices of entry \<open>i\<close> of \<open>count\<close> stay within the bytes, so these loops cannot panic.\<close>

definition parse_validators_after_luban :: "bytes \<Rightarrow> validators_info" where
  "parse_validators_after_luban bs =
     (let count = length bs div VALIDATOR_BYTES_LEN_AFTER_LUBAN in
      \<lparr>consensus_addrs =
         map (\<lambda>i. from_be (take ADDRESS_LENGTH (drop (i * VALIDATOR_BYTES_LEN_AFTER_LUBAN) bs))) [0..<count],
       vote_addrs = Some
         (map (\<lambda>i. from_be (take (VALIDATOR_BYTES_LEN_AFTER_LUBAN - ADDRESS_LENGTH)
                             (drop (i * VALIDATOR_BYTES_LEN_AFTER_LUBAN + ADDRESS_LENGTH) bs))) [0..<count])\<rparr>)"

definition parse_validators_before_luban :: "bytes \<Rightarrow> validators_info" where
  "parse_validators_before_luban bs =
     (let count = length bs div VALIDATOR_BYTES_LEN_BEFORE_LUBAN in
      \<lparr>consensus_addrs =
         map (\<lambda>i. from_be (take VALIDATOR_BYTES_LEN_BEFORE_LUBAN
                             (drop (i * VALIDATOR_BYTES_LEN_BEFORE_LUBAN) bs))) [0..<count],
       vote_addrs = None\<rparr>)"

definition parse_validators_from_header ::
  "parlia \<Rightarrow> header \<Rightarrow> u64 \<Rightarrow> (parlia_consensus_error + validators_info) option" where
  "parse_validators_from_header p h epoch_length =
     do {
       r \<leftarrow> get_validator_bytes_from_header p h epoch_length;
       Some (res_bind (ok_or r (InvalidHeaderExtraLen (word_of_nat (length (extra_data h))))) (\<lambda>val_bytes.
         if val_bytes = [] then Inl (InvalidHeaderExtraValidatorBytesLen True 0)
         else if is_luban_active_at_block (spec p) (number h)
         then Inr (parse_validators_after_luban val_bytes)
         else Inr (parse_validators_before_luban val_bytes)))
     }"

section \<open>Writers\<close>

text \<open>\<open>vote_map\<close> has every validator as a key; a missing one would fail the \<open>unwrap\<close>.\<close>

definition prepare_vote_map ::
  "parlia \<Rightarrow> header \<Rightarrow> address list \<Rightarrow> vote_address list \<Rightarrow> (address, vote_address) hash_map" where
  "prepare_vote_map p h new_validators vote_addresses =
     (if is_luban_transition_at_block (spec p) (number h)
      then fold (\<lambda>v. AList.update v 0) new_validators []
      else fold (\<lambda>(i, v). AList.update v (if i < length vote_addresses then vote_addresses ! i else 0))
             (enumerate 0 new_validators) [])"

definition prepare_validators ::
  "parlia \<Rightarrow> snapshot \<Rightarrow> (address list \<times> vote_address list) option \<Rightarrow> header \<Rightarrow> header option" where
  "prepare_validators p snap vals h =
     (if \<not> is_multiple_of (number h) (epoch_num snap) then Some h
      else case vals of
        None \<Rightarrow> Some h
      | Some (new_validators, vote_addresses) \<Rightarrow>
          if \<not> is_luban_active_at_block (spec p) (number h)
          then Some (h\<lparr>extra_data := extra_data h @ concat (map (to_be 20) (sort new_validators))\<rparr>)
          else
            (let vote_map = prepare_vote_map p h new_validators vote_addresses in
             do {
               entries \<leftarrow> those (map (\<lambda>v. map_option (\<lambda>a. to_be 20 v @ to_be 48 a) (map_of vote_map v))
                                  (sort new_validators));
               Some (h\<lparr>extra_data :=
                 extra_data h @ [word_of_nat (length new_validators)] @ concat entries\<rparr>)
             }))"

text \<open>The cache of turn lengths is state, used through the operations of the LRU map.\<close>

definition prepare_turn_length ::
  "('c, b256, u8) cache_ops \<Rightarrow> parlia \<Rightarrow> snapshot \<Rightarrow> header \<Rightarrow> 'c \<Rightarrow> header \<times> 'c" where
  "prepare_turn_length ops p parent_snap h cache =
     (if \<not> is_multiple_of (number h) (epoch_num parent_snap) \<or>
         \<not> is_bohr_active_at_timestamp (spec p) (number h) (timestamp h) then (h, cache)
      else
        (let t = unwrap_or (case c_get ops cache (parent_hash h) of
                              Some t \<Rightarrow> Some t | None \<Rightarrow> turn_length parent_snap) DEFAULT_TURN_LENGTH
         in (h\<lparr>extra_data := extra_data h @ [t]\<rparr>, c_put ops (parent_hash h) t (c_touch ops (parent_hash h) cache))))"

section \<open>Recovering the signer\<close>

record 'sig secp256k1 =
  recovery_id_from :: "int \<Rightarrow> int option"
  from_compact :: "bytes \<Rightarrow> int \<Rightarrow> 'sig option"
  recover_ecdsa :: "b256 \<Rightarrow> 'sig \<Rightarrow> bytes option"

definition recover_uncached ::
  "'sig secp256k1 \<Rightarrow> (bytes \<Rightarrow> b256) \<Rightarrow> (header \<Rightarrow> b256) \<Rightarrow> header \<Rightarrow>
     (parlia_consensus_error + address) option" where
  "recover_uncached secp keccak seal_hash h =
     (let extra = extra_data h in
      if length extra < EXTRA_VANITY_LEN + EXTRA_SEAL_LEN then Some (Inl ExtraSignatureMissing)
      else
        (let signature_offset = length extra - EXTRA_SEAL_LEN in
         do {
           recovery_byte \<leftarrow> index extra (signature_offset + EXTRA_SEAL_LEN - 1);
           signature_bytes \<leftarrow> slice signature_offset (signature_offset + EXTRA_SEAL_LEN - 1) extra;
           Some (
             res_bind (ok_or (recovery_id_from secp (uint recovery_byte)) RecoverECDSAInnerError) (\<lambda>recovery_id.
             res_bind (ok_or (from_compact secp signature_bytes recovery_id) RecoverECDSAInnerError) (\<lambda>signature.
             res_bind (ok_or (recover_ecdsa secp (seal_hash h) signature) RecoverECDSAInnerError) (\<lambda>public.
             Inr (from_be (drop 12 (to_be 32 (keccak (drop 1 public)))))))))
         }))"

definition recover_proposer ::
  "('c, b256, address) cache_ops \<Rightarrow> 'sig secp256k1 \<Rightarrow> (bytes \<Rightarrow> b256) \<Rightarrow> (header \<Rightarrow> b256) \<Rightarrow> (header \<Rightarrow> b256) \<Rightarrow> header \<Rightarrow> 'c \<Rightarrow>
     ((parlia_consensus_error + address) \<times> 'c) option" where
  "recover_proposer ops secp keccak seal_hash hash h cache =
     (case c_get ops cache (hash h) of
        Some proposer \<Rightarrow> Some (Inr proposer, c_touch ops (hash h) cache)
      | None \<Rightarrow>
          do {
            r \<leftarrow> recover_uncached secp keccak seal_hash h;
            Some (case r of
                Inl e \<Rightarrow> (Inl e, cache)
              | Inr proposer \<Rightarrow> (Inr proposer, c_put ops (hash h) proposer cache))
          })"

section \<open>Chunks\<close>

lemma length_concat_chunks:
  "\<forall>x \<in> set xs. length (g x) = n \<Longrightarrow> length (concat (map g xs)) = length xs * n"
  by (induction xs) auto

lemma chunk_at:
  assumes "\<forall>x \<in> set xs. length (g x) = n" and "i < length xs"
  shows "take n (drop (i * n) (concat (map g xs) @ zs)) = g (xs ! i)"
  using assms
proof (induction xs arbitrary: i)
  case (Cons x xs)
  then show ?case by (cases i) (simp_all add: drop_append)
qed simp

lemma chunk_part:
  assumes "\<forall>x \<in> set xs. length (g x) = n" and "i < length xs" and "a + b \<le> n"
  shows "take b (drop (i * n + a) (concat (map g xs))) = take b (drop a (g (xs ! i)))"
proof -
  have "take b (drop (i * n + a) (concat (map g xs))) =
      take b (drop a (take n (drop (i * n) (concat (map g xs) @ []))))"
    using assms(3) by (simp add: drop_take min_def add.commute)
  then show ?thesis by (simp only: chunk_at [OF assms(1,2)])
qed

lemma parse_after_luban_entries:
  "parse_validators_after_luban (concat (map (\<lambda>v. to_be 20 v @ to_be 48 (f v)) ws)) =
     \<lparr>consensus_addrs = ws, vote_addrs = Some (map f ws)\<rparr>"
proof -
  let ?g = "\<lambda>v. to_be 20 v @ to_be 48 (f v)"
  let ?bs = "concat (map ?g ws)"
  have len: "\<forall>v \<in> set ws. length (?g v) = 68" by simp
  have count: "length ?bs div 68 = length ws" using length_concat_chunks [OF len] by simp
  have a: "take 20 (drop (i * 68) ?bs) = to_be 20 (ws ! i)" if "i < length ws" for i
    using chunk_part [OF len that, of 0 20] by simp
  have b: "take 48 (drop (i * 68 + 20) ?bs) = to_be 48 (f (ws ! i))" if "i < length ws" for i
    using chunk_part [OF len that, of 20 48] by simp
  have "map (\<lambda>i. from_be (take 20 (drop (i * 68) ?bs))) [0..<length ws] = map (\<lambda>i. ws ! i) [0..<length ws]"
    by (rule map_cong [OF refl]) (simp only: a from_be_to_be_address set_upt atLeastLessThan_iff)
  moreover have "map (\<lambda>i. from_be (take 48 (drop (i * 68 + 20) ?bs))) [0..<length ws] =
      map (\<lambda>i. map f ws ! i) [0..<length (map f ws)]"
    unfolding length_map
    by (rule map_cong [OF refl])
      (simp only: b from_be_to_be_vote_address set_upt atLeastLessThan_iff nth_map)
  ultimately show ?thesis
    unfolding parse_validators_after_luban_def Let_def extra_consts count map_nth by simp
qed

lemma parse_before_luban_entries:
  "parse_validators_before_luban (concat (map (to_be 20) ws)) =
     \<lparr>consensus_addrs = ws, vote_addrs = None\<rparr>"
proof -
  let ?bs = "concat (map (to_be 20) ws)"
  have len: "\<forall>v \<in> set ws. length (to_be 20 v) = 20" by simp
  have count: "length ?bs div 20 = length ws" using length_concat_chunks [OF len] by simp
  have a: "take 20 (drop (i * 20) ?bs) = to_be 20 (ws ! i)" if "i < length ws" for i
    using chunk_part [OF len that, of 0 20] by simp
  have "map (\<lambda>i. from_be (take 20 (drop (i * 20) ?bs))) [0..<length ws] = map (\<lambda>i. ws ! i) [0..<length ws]"
    by (rule map_cong [OF refl]) (simp only: a from_be_to_be_address set_upt atLeastLessThan_iff)
  then show ?thesis
    unfolding parse_validators_before_luban_def Let_def extra_consts count map_nth by simp
qed

section \<open>Writers produce what the readers expect\<close>

lemma those_map_Some: "(\<And>x. x \<in> set xs \<Longrightarrow> f x = Some (g x)) \<Longrightarrow> those (map f xs) = Some (map g xs)"
  by (induction xs) auto

lemma prepare_vote_map_zip:
  assumes "\<not> is_luban_transition_at_block (spec p) (number h)" and "distinct vs"
    and "length as = length vs" and "i < length vs"
  shows "map_of (prepare_vote_map p h vs as) (vs ! i) = Some (as ! i)"
proof -
  have "map_of (fold (\<lambda>(i, v). AList.update v (f i)) (enumerate 0 vs) m) (vs ! i) = Some (f i)"
    for f :: "nat \<Rightarrow> vote_address" and m
    using assms(2,4)
  proof (induction vs arbitrary: i rule: rev_induct)
    case (snoc v vs)
    then show ?case
      by (cases "i < length vs") (auto simp: enumerate_append_eq update_conv' nth_append less_Suc_eq)
  qed simp
  then show ?thesis using assms by (simp add: prepare_vote_map_def)
qed

lemma prepare_vote_map_total:
  assumes "v \<in> set vs"
  shows "map_of (prepare_vote_map p h vs as) v \<noteq> None"
proof -
  have "fst ` set (fold (\<lambda>v. AList.update v (0 :: vote_address)) vs m) = set vs \<union> fst ` set m" for m
    by (induction vs arbitrary: m) (auto simp: keys_hm_update)
  moreover have "fst ` set (fold (\<lambda>(i, v). AList.update v (f i)) (enumerate 0 vs) m) =
      set vs \<union> fst ` set m" for f :: "nat \<Rightarrow> vote_address" and m
    using keys_fold_update_snd [of f "enumerate 0 vs" m] by (simp add: snd_enumerate)
  ultimately show ?thesis
    using assms by (simp add: prepare_vote_map_def map_of_eq_None_iff split: if_splits)
qed

lemma prepare_validators_luban:
  assumes "is_multiple_of (number h) (epoch_num snap)"
    and "is_luban_active_at_block (spec p) (number h)"
  shows "prepare_validators p snap (Some (vs, as)) h =
    Some (h\<lparr>extra_data := extra_data h @ [word_of_nat (length vs)] @
      concat (map (\<lambda>v. to_be 20 v @ to_be 48 (the (map_of (prepare_vote_map p h vs as) v))) (sort vs))\<rparr>)"
proof -
  have "those (map (\<lambda>v. map_option (\<lambda>a. to_be 20 v @ to_be 48 a) (map_of (prepare_vote_map p h vs as) v))
        (sort vs)) =
      Some (map (\<lambda>v. to_be 20 v @ to_be 48 (the (map_of (prepare_vote_map p h vs as) v))) (sort vs))"
  proof (rule those_map_Some)
    fix v assume "v \<in> set (sort vs)"
    then obtain a where "map_of (prepare_vote_map p h vs as) v = Some a"
      using prepare_vote_map_total [of v vs p h as] by auto
    then show "map_option (\<lambda>a. to_be 20 v @ to_be 48 a) (map_of (prepare_vote_map p h vs as) v) =
        Some (to_be 20 v @ to_be 48 (the (map_of (prepare_vote_map p h vs as) v)))"
      by simp
  qed
  then show ?thesis using assms by (simp add: prepare_validators_def Let_def)
qed

text \<open>The layout of the extra data of an epoch block from Bohr on, read back.\<close>

lemma read_bohr_epoch_extra:
  fixes ws :: "address list" and f :: "address \<Rightarrow> vote_address"
  assumes "is_multiple_of (number h) el" and "is_luban_active_at_block (spec p) (number h)"
    and "is_bohr_active_at_timestamp (spec p) (number h) (timestamp h)"
    and n: "0 < length ws" "length ws < 256" and len: "length vanity = 32" "length seal = 65"
    and extra: "extra_data h = vanity @ [word_of_nat (length ws)] @
      concat (map (\<lambda>v. to_be 20 v @ to_be 48 (f v)) ws) @ [t] @ att @ seal"
  shows "parse_validators_from_header p h el =
           Some (Inr \<lparr>consensus_addrs = ws, vote_addrs = Some (map f ws)\<rparr>)"
    and "get_turn_length_from_header p h el = Some (Inr (Some t))"
    and "raw_attestation_data p h el = Some (if att = [] then None else Some att)"
proof -
  let ?es = "concat (map (\<lambda>v. to_be 20 v @ to_be 48 (f v)) ws)"
  have es: "length ?es = 68 * length ws"
    using length_concat_chunks [of ws "\<lambda>v. to_be 20 v @ to_be 48 (f v)" 68] by simp
  have c: "unat (word_of_nat (length ws) :: u8) = length ws"
    by (rule unat_word_of_nat) (use n in simp)
  have total: "length (extra_data h) = 32 + 1 + 68 * length ws + 1 + length att + 65"
    using extra es len by simp
  have at32: "index (extra_data h) 32 = Some (word_of_nat (length ws))"
    using extra len total by (simp add: index_Some nth_append)
  have mid: "slice 33 (33 + length ws * 68) (extra_data h) = Some ?es"
    using total es len by (simp add: slice_Some extra mult.commute)
  have att: "slice (33 + length ws * 68 + 1) (length (extra_data h) - 65) (extra_data h) = Some att"
    using total es len by (simp add: slice_Some extra mult.commute)
  have pos: "index (extra_data h) (33 + length ws * 68) = Some t"
    using total es len by (simp add: index_Some extra nth_append mult.commute)
  have "?es \<noteq> []" using es n by (metis length_0_conv mult_eq_0_iff neq0_conv zero_neq_numeral)
  moreover have "get_validator_bytes_from_header p h el = Some (Some ?es)"
    using assms(1-3) n total at32 c mid
    by (simp add: get_validator_bytes_from_header_def Let_def extra_consts mult.commute)
  ultimately show "parse_validators_from_header p h el =
      Some (Inr \<lparr>consensus_addrs = ws, vote_addrs = Some (map f ws)\<rparr>)"
    using assms(2) by (simp add: parse_validators_from_header_def parse_after_luban_entries)
  show "get_turn_length_from_header p h el = Some (Inr (Some t))"
    using assms(1,3) n total at32 c pos
    by (simp add: get_turn_length_from_header_def Let_def extra_consts mult.commute)
  show "raw_attestation_data p h el = Some (if att = [] then None else Some att)"
    using assms(1,3) total at32 c att
    by (simp add: raw_attestation_data_def Let_def extra_consts mult.commute)
qed

section \<open>Panic freedom\<close>

lemma validator_bytes_total: "get_validator_bytes_from_header p h el \<noteq> None"
  by (simp add: get_validator_bytes_from_header_def Let_def extra_consts index_Some slice_Some)

lemma raw_attestation_total:
  "97 < length (extra_data h) \<Longrightarrow> raw_attestation_data p h el \<noteq> None"
  by (simp add: raw_attestation_data_def Let_def extra_consts index_Some slice_Some)

lemma parse_validators_total: "parse_validators_from_header p h el \<noteq> None"
  using validator_bytes_total [of p h el] by (auto simp: parse_validators_from_header_def)

lemma turn_length_total: "get_turn_length_from_header p h el \<noteq> None"
  by (simp add: get_turn_length_from_header_def Let_def extra_consts index_Some)

lemma vote_attestation_total: "get_vote_attestation_from_header decode p h el \<noteq> None"
  using raw_attestation_total [of h p el]
  by (auto simp: get_vote_attestation_from_header_def Let_def extra_consts not_le)

lemma check_len_total: "check_header_extra_len p h \<noteq> None"
  by (simp add: check_header_extra_len_def Let_def extra_consts index_Some)

lemma validator_len_total: "97 \<le> length (extra_data h) \<Longrightarrow> get_validator_len_from_header p h \<noteq> None"
  by (simp add: get_validator_len_from_header_def Let_def extra_consts index_Some)

lemma check_len_long: "check_header_extra_len p h = Some (Inr u) \<Longrightarrow> 97 \<le> length (extra_data h)"
  by (rule ccontr) (auto simp: check_header_extra_len_def Let_def extra_consts split: if_splits)

lemma check_extra_total: "check_header_extra p h \<noteq> None"
proof (cases "check_header_extra_len p h")
  case None
  with check_len_total [of p h] show ?thesis by simp
next
  case (Some r)
  show ?thesis
  proof (cases r)
    case (Inr u)
    then have "get_validator_len_from_header p h \<noteq> None"
      using check_len_long [of p h u] validator_len_total [of h p] Some by simp
    with Some Inr show ?thesis by (auto simp: check_header_extra_def Let_def)
  qed (use Some in \<open>simp add: check_header_extra_def\<close>)
qed

lemma recover_total: "recover_uncached secp keccak seal_hash h \<noteq> None"
  by (simp add: recover_uncached_def Let_def extra_consts index_Some slice_Some)

lemmas extra_panic_free =
  check_extra_total parse_validators_total turn_length_total vote_attestation_total recover_total

definition number_hash :: "header \<Rightarrow> b256" where
  "number_hash h = ucast (number h)"

section \<open>Properties\<close>

text \<open>
  C34. What a validator writes into an epoch header, every node reads back: after the preparation
  of validators and turn length and the appending of an attestation and the seal, parsing returns
  the validators in address order, each with its own vote address, the turn length that was
  written, and the bytes of the attestation (from Bohr on; 1 to 255 distinct validators).
\<close>

theorem epoch_extra_round_trip:
  assumes "prepare_validators p snap (Some (vs, as)) h = Some h1"
    and "prepare_turn_length ops p snap h1 cache = (h2, cache')"
    and "is_multiple_of (number h) (epoch_num snap)"
    and "is_luban_active_at_block (spec p) (number h)"
    and "\<not> is_luban_transition_at_block (spec p) (number h)"
    and "is_bohr_active_at_timestamp (spec p) (number h) (timestamp h)"
    and "distinct vs" and "length as = length vs" and "vs \<noteq> []" and "length vs < 256"
    and "length (extra_data h) = EXTRA_VANITY_LEN" and "length seal = EXTRA_SEAL_LEN"
  shows "let h3 = h2\<lparr>extra_data := extra_data h2 @ att @ seal\<rparr>;
             t = unwrap_or (case c_get ops cache (parent_hash h) of
                              Some t \<Rightarrow> Some t | None \<Rightarrow> turn_length snap) DEFAULT_TURN_LENGTH
         in parse_validators_from_header p h3 (epoch_num snap) =
              Some (Inr \<lparr>consensus_addrs = sort vs,
                         vote_addrs = Some (map (\<lambda>v. the (map_of (zip vs as) v)) (sort vs))\<rparr>) \<and>
            get_turn_length_from_header p h3 (epoch_num snap) = Some (Inr (Some t)) \<and>
            raw_attestation_data p h3 (epoch_num snap) = Some (if att = [] then None else Some att)"
proof -
  let ?f = "\<lambda>v. the (map_of (prepare_vote_map p h vs as) v)"
  define t where "t = unwrap_or (case c_get ops cache (parent_hash h) of
      Some t \<Rightarrow> Some t | None \<Rightarrow> turn_length snap) DEFAULT_TURN_LENGTH"
  define h3 where "h3 = h2\<lparr>extra_data := extra_data h2 @ att @ seal\<rparr>"
  have h1: "h1 = h\<lparr>extra_data := extra_data h @ [word_of_nat (length vs)] @
      concat (map (\<lambda>v. to_be 20 v @ to_be 48 (?f v)) (sort vs))\<rparr>"
    using assms(1) prepare_validators_luban [OF assms(3,4), of vs as] by simp
  have h2: "h2 = h1\<lparr>extra_data := extra_data h1 @ [t]\<rparr>"
    using assms(2,3,6) h1 by (auto simp: prepare_turn_length_def Let_def t_def)
  have f: "map ?f (sort vs) = map (\<lambda>v. the (map_of (zip vs as) v)) (sort vs)"
  proof (rule map_cong [OF refl])
    fix v assume "v \<in> set (sort vs)"
    then obtain i where i: "i < length vs" "v = vs ! i" by (auto simp: in_set_conv_nth)
    then show "?f v = the (map_of (zip vs as) v)"
      using prepare_vote_map_zip [OF assms(5,7,8) i(1)] map_of_zip_nth [of vs as i] assms(7,8) by simp
  qed
  have fields: "number h3 = number h" "timestamp h3 = timestamp h"
    by (simp_all add: h3_def h2 h1)
  have extra: "extra_data h3 = extra_data h @ [word_of_nat (length (sort vs))] @
      concat (map (\<lambda>v. to_be 20 v @ to_be 48 (?f v)) (sort vs)) @ [t] @ att @ seal"
    by (simp add: h3_def h2 h1)
  have n: "0 < length (sort vs)" "length (sort vs) < 256" using assms(9,10) by simp_all
  have "is_multiple_of (number h3) (epoch_num snap)" "is_luban_active_at_block (spec p) (number h3)"
    "is_bohr_active_at_timestamp (spec p) (number h3) (timestamp h3)"
    using assms(3,4,6) fields by simp_all
  note R = read_bohr_epoch_extra [OF this n assms(11,12) [unfolded extra_consts] extra]
  show ?thesis
    unfolding Let_def t_def [symmetric] h3_def [symmetric] using R f by simp
qed

theorem epoch_extra_round_trip_witness:
  "\<exists>h2 cache'. prepare_turn_length (lru_ops 2) \<lparr>spec = mainnet_spec, epoch = 200\<rparr>
      (sample_snapshot 41999999 [1, 2] 4 200)
      (the (prepare_validators \<lparr>spec = mainnet_spec, epoch = 200\<rparr> (sample_snapshot 41999999 [1, 2] 4 200)
         (Some ([9, 7], [90, 70])) (sample_header 42000000 1727400000\<lparr>extra_data := replicate 32 0\<rparr>))) [] =
      (h2, cache') \<and>
    parse_validators_from_header \<lparr>spec = mainnet_spec, epoch = 200\<rparr>
      (h2\<lparr>extra_data := extra_data h2 @ [] @ replicate 65 5\<rparr>) 200 =
      Some (Inr \<lparr>consensus_addrs = [7, 9], vote_addrs = Some [70, 90]\<rparr>)"
proof -
  let ?p = "\<lparr>spec = mainnet_spec, epoch = 200\<rparr>"
  let ?s = "sample_snapshot 41999999 [1, 2] 4 200"
  let ?h = "sample_header 42000000 1727400000\<lparr>extra_data := replicate 32 0\<rparr>"
  have forks: "is_multiple_of (number ?h) (epoch_num ?s)" "is_luban_active_at_block (spec ?p) (number ?h)"
    "\<not> is_luban_transition_at_block (spec ?p) (number ?h)"
    "is_bohr_active_at_timestamp (spec ?p) (number ?h) (timestamp ?h)"
    by code_simp+
  obtain h1 where h1: "prepare_validators ?p ?s (Some ([9, 7], [90, 70])) ?h = Some h1"
    using prepare_validators_luban [OF forks(1,2)] by blast
  obtain h2 c where h2: "prepare_turn_length (lru_ops 2) ?p ?s h1 [] = (h2, c)" by fastforce
  have "parse_validators_from_header ?p (h2\<lparr>extra_data := extra_data h2 @ [] @ replicate 65 5\<rparr>) (epoch_num ?s) =
    Some (Inr \<lparr>consensus_addrs = sort [9, 7],
      vote_addrs = Some (map (\<lambda>v. the (map_of (zip [9, 7] [90, 70]) v)) (sort [9, 7 :: address]))\<rparr>)"
    using epoch_extra_round_trip [OF h1 h2 forks, of "replicate 65 5" "[]"]
    by (simp add: Let_def extra_consts)
  then show ?thesis using h1 h2 by (simp add: sample_snapshot_def)
qed


text \<open>
  The extra-data check accepts exactly the lengths of the format: 97 bytes at least; at an epoch
  block from Luban on a non-zero count and room for that many 68-byte entries; at an epoch block
  before Luban one or more 20-byte addresses; at other blocks before Luban exactly 97 bytes.
\<close>

theorem check_header_extra_accepts_iff:
  "check_header_extra p h = Some (Inr ()) \<longleftrightarrow>
     97 \<le> length (extra_data h) \<and>
     (if is_multiple_of (number h) (get_epoch_length p h) then
        (if is_luban_active_at_block (spec p) (number h)
         then 0 < unat (extra_data h ! 32) \<and> 98 + 68 * unat (extra_data h ! 32) \<le> length (extra_data h)
         else 97 < length (extra_data h) \<and> 20 dvd length (extra_data h) - 97)
      else is_luban_active_at_block (spec p) (number h) \<or> length (extra_data h) = 97)"
proof (cases "97 \<le> length (extra_data h)")
  case True
  have "20 dvd length (extra_data h) - 97 \<Longrightarrow> 97 < length (extra_data h) \<Longrightarrow>
      (length (extra_data h) - 97) div 20 \<noteq> 0"
    by (auto simp: dvd_def)
  with True show ?thesis
    by (auto simp: check_header_extra_def check_header_extra_len_def get_validator_len_from_header_def
        Let_def extra_consts index_Some usize_sub_def split: if_splits)
next
  case False
  then show ?thesis
    using check_len_long [of p h]
    by (auto simp: check_header_extra_def split: bind_splits sum.splits)
qed

text \<open>Every cached entry is the signer recovered from a header of the set with that hash.\<close>

definition cache_sound ::
  "('c, b256, address) cache_ops \<Rightarrow> 'sig secp256k1 \<Rightarrow> (bytes \<Rightarrow> b256) \<Rightarrow> (header \<Rightarrow> b256) \<Rightarrow>
     (header \<Rightarrow> b256) \<Rightarrow> header set \<Rightarrow> 'c \<Rightarrow> bool" where
  "cache_sound ops secp keccak seal_hash hash H cache \<longleftrightarrow>
     (\<forall>k a. c_get ops cache k = Some a \<longrightarrow>
        (\<exists>h \<in> H. hash h = k \<and> recover_uncached secp keccak seal_hash h = Some (Inr a)))"

text \<open>
  C36. The proposer cache is transparent: if its entries are signers recovered from headers of a
  set on which the block hash has no collision, looking a header of that set up gives the same
  answer as recovering the signer, and the cache stays so; a failure is never cached.
\<close>

theorem recover_proposer_transparent:
  assumes ok: "cache_ok ops invar" and "invar cache" and inj: "inj_on hash H" and "h \<in> H"
    and sound: "cache_sound ops secp keccak seal_hash hash H cache"
  shows "\<exists>cache'. recover_proposer ops secp keccak seal_hash hash h cache =
           Some (the (recover_uncached secp keccak seal_hash h), cache') \<and>
         invar cache' \<and> cache_sound ops secp keccak seal_hash hash H cache'"
proof (cases "c_get ops cache (hash h)")
  case (Some a)
  then obtain h' where "h' \<in> H" "hash h' = hash h" "recover_uncached secp keccak seal_hash h' = Some (Inr a)"
    using sound by (auto simp: cache_sound_def)
  moreover from this have "h' = h" using inj assms(4) by (auto dest: inj_onD)
  ultimately show ?thesis
    using Some assms ok [unfolded cache_ok_def]
    by (auto simp: recover_proposer_def cache_sound_def cache_spec.get_touch cache_spec.invar_touch)
next
  case None
  obtain r where r: "recover_uncached secp keccak seal_hash h = Some r"
    using recover_total by blast
  show ?thesis
  proof (cases r)
    case (Inl e)
    then show ?thesis using None r assms by (simp add: recover_proposer_def)
  next
    case (Inr a)
    have "cache_sound ops secp keccak seal_hash hash H (c_put ops (hash h) a cache)"
      unfolding cache_sound_def
    proof (intro allI impI)
      fix k w assume "c_get ops (c_put ops (hash h) a cache) k = Some w"
      then show "\<exists>h \<in> H. hash h = k \<and> recover_uncached secp keccak seal_hash h = Some (Inr w)"
        using cache_spec.get_put_Some [OF ok [unfolded cache_ok_def] assms(2)] sound r Inr assms(4)
        by (fastforce simp: cache_sound_def)
    qed
    then show ?thesis
      using None r Inr assms(2) cache_spec.invar_put [OF ok [unfolded cache_ok_def]]
      by (simp add: recover_proposer_def)
  qed
qed

theorem recover_proposer_transparent_witness:
  "\<exists>cache'. recover_proposer (lru_ops (Suc 0))
      \<lparr>recovery_id_from = Some, from_compact = \<lambda>bs _. Some bs, recover_ecdsa = \<lambda>_ bs. Some bs\<rparr> from_be number_hash
      number_hash (sample_header 1 2\<lparr>extra_data := replicate 97 1\<rparr>) [] =
     Some (Inr (from_be (drop 12 (to_be 32 (from_be (replicate 63 1) :: b256)))), cache')"
proof -
  let ?secp = "\<lparr>recovery_id_from = Some, from_compact = \<lambda>bs _. Some bs, recover_ecdsa = \<lambda>_ bs. Some bs\<rparr>"
  let ?h = "sample_header 1 2\<lparr>extra_data := replicate 97 1\<rparr>"
  have "\<exists>cache'. recover_proposer (lru_ops (Suc 0)) ?secp from_be number_hash number_hash ?h [] =
      Some (the (recover_uncached ?secp from_be number_hash ?h), cache') \<and> hm_wf cache' \<and>
      cache_sound (lru_ops (Suc 0)) ?secp from_be number_hash number_hash {?h} cache'"
    by (rule recover_proposer_transparent [OF lru_cache_ok]) (auto simp: hm_wf_def cache_sound_def lru_ops_def)
  moreover have "recover_uncached ?secp from_be number_hash ?h =
      Some (Inr (from_be (drop 12 (to_be 32 (from_be (replicate 63 1) :: b256)))))"
    by (simp add: recover_uncached_def Let_def extra_consts index_Some slice_Some)
  ultimately show ?thesis by auto
qed

end
