(* ===== verification/Timing.thy ===== *)
theory Timing
  imports ExtraData GoRng
begin

text \<open>
  Block times: the back-off of out-of-turn validators, the block time a validator plans, the
  check every node makes on it, and the delays of the miner (\<open>src/consensus/parlia/consensus.rs\<close>
  and \<open>src/consensus/parlia/ramanujan_fork.rs\<close>).

  The wall clock (\<open>now\<close>, in milliseconds) and the random wiggle before Ramanujan are arguments.
  A panic (an empty validator set, a turn length of zero) and a shuffle that does not return are
  \<open>None\<close>.
\<close>

section \<open>Back-off\<close>

definition back_off_seed :: "parlia \<Rightarrow> snapshot \<Rightarrow> header \<Rightarrow> i64 option" where
  "back_off_seed p snap h =
     (if is_bohr_active_at_timestamp (spec p) (number h) (timestamp h) then
        (let turn = unwrap_or (turn_length snap) DEFAULT_TURN_LENGTH in
         if turn = 0 then None else Some (sdivw (number h) (ucast turn)))
      else Some (block_number snap))"

definition back_off_of_step :: "u64 \<Rightarrow> bool \<Rightarrow> u64 \<Rightarrow> u64" where
  "back_off_of_step delay is_parent_lorentz step =
     (if delay = 0 \<and> is_parent_lorentz then
        (if step = 0 then 0
         else LORENTZ_BACKOFF_TIME_OF_INITIAL + (step - 1) * BACKOFF_TIME_OF_WIGGLE)
      else delay + step * BACKOFF_TIME_OF_WIGGLE)"

definition shuffled_back_off ::
  "parlia \<Rightarrow> snapshot \<Rightarrow> header \<Rightarrow> bool \<Rightarrow> u64 \<Rightarrow> address list \<Rightarrow> u64 option" where
  "shuffled_back_off p snap h is_parent_lorentz delay vs =
     do {
       seed \<leftarrow> back_off_seed p snap h;
       (steps, _) \<leftarrow> shuffle (map word_of_nat [0..<length vs]) (rng_new seed);
       case find (\<lambda>(_, v). v = beneficiary h) (enumerate 0 vs) of
         Some (idx, _) \<Rightarrow> map_option (back_off_of_step delay is_parent_lorentz) (index steps idx)
       | None \<Rightarrow> Some 0
     }"

definition initial_back_off :: "parlia \<Rightarrow> header \<Rightarrow> u64" where
  "initial_back_off p parent =
     (if is_lorentz_active_at_timestamp (spec p) (number parent) (timestamp parent)
      then LORENTZ_BACKOFF_TIME_OF_INITIAL else BACKOFF_TIME_OF_INITIAL)"

definition back_off_candidates ::
  "parlia \<Rightarrow> snapshot \<Rightarrow> header \<Rightarrow> (address, u8) hash_map \<Rightarrow> address \<Rightarrow> address list" where
  "back_off_candidates p snap h counts inturn_addr =
     filter (\<lambda>a. \<not> (sign_recently_by_counts snap a counts \<or>
                     (is_bohr_active_at_timestamp (spec p) (number h) (timestamp h) \<and> a = inturn_addr)))
       (validators snap)"

definition back_off_time :: "parlia \<Rightarrow> snapshot \<Rightarrow> header \<Rightarrow> header \<Rightarrow> u64 option" where
  "back_off_time p snap parent h =
     (let validator = beneficiary h;
          is_parent_lorentz = is_lorentz_active_at_timestamp (spec p) (number parent) (timestamp parent);
          delay = initial_back_off p parent
      in do {
        inturn \<leftarrow> is_inturn snap validator;
        if inturn then Some 0
        else if is_planck_active_at_block (spec p) (number h) then
          (let counts = count_recent_proposers snap in
           if sign_recently_by_counts snap validator counts then Some 0
           else do {
             inturn_addr \<leftarrow> inturn_validator snap;
             shuffled_back_off p snap h is_parent_lorentz
               (if sign_recently_by_counts snap inturn_addr counts then 0 else delay)
               (back_off_candidates p snap h counts inturn_addr)
           })
        else shuffled_back_off p snap h is_parent_lorentz delay (validators snap)
      })"

section \<open>Block time\<close>

definition div_ceil :: "'a::len word \<Rightarrow> 'a word \<Rightarrow> 'a word" where
  [rust_std]: "div_ceil a b = (if a mod b = 0 then a div b else a div b + 1)"

definition block_time_for_ramanujan_fork ::
  "u64 \<Rightarrow> parlia \<Rightarrow> snapshot \<Rightarrow> header \<Rightarrow> header \<Rightarrow> u64 option" where
  "block_time_for_ramanujan_fork now p snap parent h =
     (let parent_ts = calculate_millisecond_timestamp parent;
          base = parent_ts + block_interval snap
      in do {
        new_block_ts \<leftarrow>
          (if is_ramanujan_active_at_block (spec p) (number h)
           then map_option (\<lambda>b. base + b) (back_off_time p snap parent h) else Some base);
        Some (if new_block_ts < now then div_ceil now MILLISECONDS_UNIT * MILLISECONDS_UNIT
              else new_block_ts)
      })"

definition delay_for_ramanujan_fork ::
  "u64 \<Rightarrow> (u64 \<Rightarrow> u64) \<Rightarrow> parlia \<Rightarrow> snapshot \<Rightarrow> header \<Rightarrow> u64" where
  "delay_for_ramanujan_fork now random_range p parent_snap h =
     (let header_timestamp = calculate_millisecond_timestamp h;
          delay_ms = (if header_timestamp > now then header_timestamp - now else 0)
      in if is_ramanujan_active_at_block (spec p) (number h) then delay_ms
         else if difficulty h = DIFF_NOTURN then
           (let wiggle = word_of_nat (length (validators parent_snap) div 2 + 1) *
                           WIGGLE_TIME_BEFORE_FORK_MILLIS
            in delay_ms + FIXED_BACKOFF_TIME_BEFORE_FORK_MILLIS + random_range wiggle)
         else delay_ms)"

datatype block_time_error = FutureBlock u64 b256

definition block_time_verify_for_ramanujan_fork ::
  "(header \<Rightarrow> b256) \<Rightarrow> parlia \<Rightarrow> snapshot \<Rightarrow> header \<Rightarrow> header \<Rightarrow> (block_time_error + unit) option" where
  "block_time_verify_for_ramanujan_fork hash p snap h parent =
     (if is_ramanujan_active_at_block (spec p) (number h) then
        (let current_ts = calculate_millisecond_timestamp h;
             parent_ts = calculate_millisecond_timestamp parent
         in do {
           back_off \<leftarrow> back_off_time p snap parent h;
           if current_ts < parent_ts + block_interval snap + back_off
           then Some (Inl (FutureBlock (number h) (hash h)))
           else Some (Inr ())
         })
      else Some (Inr ()))"

section \<open>Mining delays\<close>

definition apply_mining_delay_with_leftover :: "u64 \<Rightarrow> u64 \<Rightarrow> bool \<Rightarrow> bool \<Rightarrow> u64 \<Rightarrow> u64" where
  "apply_mining_delay_with_leftover delay_ms period_ms last_block_in_turn first_block_in_turn left_over_ms =
     (let d1 = (if left_over_ms \<ge> period_ms then delay_ms
                else if left_over_ms \<ge> delay_ms then 0
                else delay_ms - left_over_ms);
          time_for_mining_ms = (if \<not> last_block_in_turn then period_ms else period_ms div 5);
          d2 = (if d1 > time_for_mining_ms then time_for_mining_ms else d1)
      in if d2 = 0 \<and> first_block_in_turn then 50 else d2)"

definition delay_for_mining ::
  "u64 \<Rightarrow> (u64 \<Rightarrow> u64) \<Rightarrow> parlia \<Rightarrow> snapshot \<Rightarrow> header \<Rightarrow> u64 \<Rightarrow> u64" where
  "delay_for_mining now random_range p snap h left_over_ms =
     apply_mining_delay_with_leftover (delay_for_ramanujan_fork now random_range p snap h)
       (block_interval snap) (last_block_in_one_turn snap (number h))
       (first_block_in_one_turn snap (number h)) left_over_ms"

definition delay_for_bid_simulation ::
  "u64 \<Rightarrow> (u64 \<Rightarrow> u64) \<Rightarrow> parlia \<Rightarrow> snapshot \<Rightarrow> header \<Rightarrow> u64 \<Rightarrow> u64" where
  "delay_for_bid_simulation now random_range p snap h left_over_ms =
     apply_mining_delay_with_leftover (delay_for_ramanujan_fork now random_range p snap h)
       (block_interval snap) False False left_over_ms"

section \<open>Preparing the timestamp\<close>

definition prepare_timestamp ::
  "u64 \<Rightarrow> parlia \<Rightarrow> snapshot \<Rightarrow> header \<Rightarrow> header \<Rightarrow> (header \<times> u64) option" where
  "prepare_timestamp now p parent_snap parent_header h =
     map_option (\<lambda>ms.
         (let h1 = h\<lparr>timestamp := ms div 1000\<rparr>;
              h2 = (if is_lorentz_active_at_timestamp (spec p) (number h1) (timestamp h1)
                    then set_millisecond_part_of_timestamp ms h1 else h1\<lparr>mix_hash := 0\<rparr>)
          in (h2, ms)))
       (block_time_for_ramanujan_fork now p parent_snap parent_header h)"

definition estimate_gas_reserved_for_system_txs ::
  "u64 option \<Rightarrow> parlia \<Rightarrow> u64 option \<Rightarrow> u64 \<Rightarrow> u64 \<Rightarrow> u64 option" where
  "estimate_gas_reserved_for_system_txs breathe_env p parent_timestamp current_number current_timestamp =
     (case parent_timestamp of
        Some pt \<Rightarrow>
          if is_feynman_active_at_timestamp (spec p) current_number current_timestamp \<and>
             \<not> is_feynman_transition_at_timestamp (spec p) current_number current_timestamp pt
          then map_option (\<lambda>b. if b then SYSTEM_TXS_GAS_HARD_LIMIT else SYSTEM_TXS_GAS_SOFT_LIMIT)
                 (is_breathe_block breathe_env pt current_timestamp)
          else Some SYSTEM_TXS_GAS_HARD_LIMIT
      | None \<Rightarrow> Some SYSTEM_TXS_GAS_HARD_LIMIT)"

section \<open>The steps of one round\<close>

lemma back_off_of_step_unat:
  assumes "unat step < 2 ^ 32" and "delay \<in> {0, BACKOFF_TIME_OF_INITIAL, LORENTZ_BACKOFF_TIME_OF_INITIAL}"
  shows "unat (back_off_of_step delay l step) =
    (if delay = 0 \<and> l then (if step = 0 then 0 else unat step * 1000 + 1000)
     else unat delay + unat step * 1000)"
proof -
  have m: "unat (step * 1000) = unat step * 1000"
    using assms(1) unat_mult_nowrap [of step 1000] by simp
  have d: "unat delay \<le> 2000"
    using assms(2) by (auto simp: BACKOFF_TIME_OF_INITIAL_def LORENTZ_BACKOFF_TIME_OF_INITIAL_def)
  have "unat (delay + step * 1000) = unat delay + unat step * 1000"
    using unat_add_nowrap [of delay "step * 1000"] d m assms(1) by simp
  moreover have "unat (2000 + (step - 1) * 1000) = unat step * 1000 + 1000" if "step \<noteq> 0"
  proof -
    have eq: "2000 + (step - 1) * 1000 = 1000 + step * 1000" by (simp add: algebra_simps)
    show ?thesis
      unfolding eq using unat_add_nowrap [of 1000 "step * 1000"] m assms(1) by simp
  qed
  ultimately show ?thesis
    by (auto simp: back_off_of_step_def LORENTZ_BACKOFF_TIME_OF_INITIAL_def BACKOFF_TIME_OF_WIGGLE_def)
qed

lemma back_off_of_step_inj:
  assumes "unat s < 2 ^ 32" and "unat s' < 2 ^ 32"
    and "delay \<in> {0, BACKOFF_TIME_OF_INITIAL, LORENTZ_BACKOFF_TIME_OF_INITIAL}"
    and "back_off_of_step delay l s = back_off_of_step delay l s'"
  shows "s = s'"
proof -
  have "unat (back_off_of_step delay l s) = unat (back_off_of_step delay l s')" using assms(4) by simp
  then show ?thesis
    unfolding back_off_of_step_unat [OF assms(1,3)] back_off_of_step_unat [OF assms(2,3)]
    by (auto simp: word_unat_eq_iff split: if_splits)
qed

lemma shuffled_steps:
  assumes "shuffle (map word_of_nat [0..<n]) r = Some (steps, r')" and n: "n < 2 ^ 31"
  shows "length steps = n" and "distinct (steps :: u64 list)" and "\<forall>s \<in> set steps. unat s < n"
proof -
  let ?xs = "map word_of_nat [0..<n] :: u64 list"
  have m: "mset steps = mset ?xs" using assms by (intro shuffle_mset) simp_all
  have u: "unat (word_of_nat i :: u64) = i" if "i < n" for i
    by (rule unat_word_of_nat) (use that n in simp)
  then have "distinct ?xs" by (auto simp: distinct_map inj_on_def) (metis u)
  then show "distinct steps" using m by (metis mset_eq_imp_distinct_iff)
  show "length steps = n" using mset_eq_length [OF m] by simp
  have "set steps = set ?xs" using m by (metis set_mset_mset)
  then show "\<forall>s \<in> set steps. unat s < n" using u by auto
qed

lemma find_enumerate:
  "find (\<lambda>(_, w). w = v) (enumerate k vs) = Some (i, w) \<Longrightarrow> k \<le> i \<and> i < k + length vs \<and> vs ! (i - k) = v"
  by (auto simp: find_Some_iff nth_enumerate_eq)

lemma find_enumerate_mem:
  assumes "v \<in> set vs"
  obtains i where "find (\<lambda>(_, w). w = v) (enumerate 0 vs) = Some (i, v)" "i < length vs" "vs ! i = v"
proof -
  have "v \<in> snd ` set (enumerate 0 vs)" using assms by (simp add: snd_enumerate)
  then obtain k where "(k, v) \<in> set (enumerate 0 vs)" by force
  then have "find (\<lambda>(_, w). w = v) (enumerate 0 vs) \<noteq> None"
    unfolding find_None_iff by blast
  then obtain i w where iw: "find (\<lambda>(_, w). w = v) (enumerate 0 vs) = Some (i, w)" by auto
  then have "w = v" by (auto simp: find_Some_iff)
  with iw find_enumerate [OF iw] that show thesis by auto
qed

lemma shuffled_back_off_step:
  assumes "shuffled_back_off p snap h l delay vs = Some a" and "beneficiary h \<in> set vs"
    and "length vs < 2 ^ 31"
  obtains seed steps r i where "back_off_seed p snap h = Some seed"
    and "shuffle (map word_of_nat [0..<length vs]) (rng_new seed) = Some (steps, r)"
    and "i < length vs" and "vs ! i = beneficiary h" and "a = back_off_of_step delay l (steps ! i)"
proof -
  obtain i where i: "find (\<lambda>(_, w). w = beneficiary h) (enumerate 0 vs) = Some (i, beneficiary h)"
    "i < length vs" "vs ! i = beneficiary h"
    using assms(2) by (rule find_enumerate_mem)
  obtain seed steps r where s: "back_off_seed p snap h = Some seed"
    "shuffle (map word_of_nat [0..<length vs]) (rng_new seed) = Some (steps, r)"
    and ret: "map_option (back_off_of_step delay l) (index steps i) = Some a"
    using assms(1) i(1) by (auto simp: shuffled_back_off_def bind_eq_Some_conv)
  have "index steps i = Some (steps ! i)"
    using shuffled_steps(1) [OF s(2) assms(3)] i(2) by (simp add: index_Some)
  with ret s i that show thesis by auto
qed

lemma shuffled_back_off_distinct:
  assumes "shuffled_back_off p snap h l delay vs = Some a"
    and "shuffled_back_off p snap h' l delay vs = Some b"
    and "beneficiary h \<in> set vs" and "beneficiary h' \<in> set vs" and "beneficiary h \<noteq> beneficiary h'"
    and len: "length vs < 2 ^ 31"
    and "delay \<in> {0, BACKOFF_TIME_OF_INITIAL, LORENTZ_BACKOFF_TIME_OF_INITIAL}"
    and same: "number h' = number h" "timestamp h' = timestamp h"
  shows "a \<noteq> b"
proof -
  obtain seed steps r i where 1: "back_off_seed p snap h = Some seed"
    "shuffle (map word_of_nat [0..<length vs]) (rng_new seed) = Some (steps, r)"
    "i < length vs" "vs ! i = beneficiary h" "a = back_off_of_step delay l (steps ! i)"
    using shuffled_back_off_step [OF assms(1,3) len] .
  obtain seed' steps' r' j where 2: "back_off_seed p snap h' = Some seed'"
    "shuffle (map word_of_nat [0..<length vs]) (rng_new seed') = Some (steps', r')"
    "j < length vs" "vs ! j = beneficiary h'" "b = back_off_of_step delay l (steps' ! j)"
    using shuffled_back_off_step [OF assms(2,4) len] .
  have "back_off_seed p snap h' = back_off_seed p snap h"
    unfolding back_off_seed_def same by (rule refl)
  then have "seed' = seed" using 1(1) 2(1) by simp
  then have "steps' = steps" using 1(2) 2(2) by simp
  note st = shuffled_steps [OF 1(2) len]
  have "i \<noteq> j" using 1(4) 2(4) assms(5) by auto
  then have "steps ! i \<noteq> steps ! j" using st(1,2) 1(3) 2(3) by (simp add: nth_eq_iff_index_eq)
  moreover have "unat (steps ! k) < 2 ^ 32" if "k < length vs" for k
  proof -
    have "unat (steps ! k) < length vs" using st(1,3) that by simp
    also note len
    finally show ?thesis by simp
  qed
  note this [OF 1(3)] this [OF 2(3)]
  ultimately show ?thesis
    using back_off_of_step_inj [OF _ _ assms(7)] 1(5) 2(5) \<open>steps' = steps\<close> by blast
qed

lemma back_off_time_cong:
  assumes "number h' = number h" and "beneficiary h' = beneficiary h"
    and "is_bohr_active_at_timestamp (spec p) (number h) (timestamp h') =
         is_bohr_active_at_timestamp (spec p) (number h) (timestamp h)"
  shows "back_off_time p snap parent h' = back_off_time p snap parent h"
  unfolding back_off_time_def shuffled_back_off_def back_off_seed_def back_off_candidates_def
    assms(1,2) assms(3) by (rule refl)

lemma div_ceil_units:
  assumes "now < 2 ^ 63"
  shows "now \<le> div_ceil now MILLISECONDS_UNIT * MILLISECONDS_UNIT"
proof -
  have n: "unat now < 2 ^ 63" using assms by (simp add: word_less_nat_alt)
  have q: "unat (now div 50) = unat now div 50" by (simp add: unat_div_distrib)
  have q1: "unat (now div 50 + 1) = unat now div 50 + 1"
    using unat_add_nowrap [of "now div 50" 1] q n by simp
  have m: "unat (now mod 50) = unat now mod 50" by (simp add: unat_mod_distrib)
  show ?thesis
  proof (cases "now mod 50 = 0")
    case True
    then have "unat now mod 50 = 0" using m by simp
    then have "unat (now div 50 * 50) = unat now"
      using unat_mult_nowrap [of "now div 50" 50] q n by (simp add: mod_eq_0_iff_dvd)
    with True show ?thesis by (simp add: div_ceil_def MILLISECONDS_UNIT_def word_le_nat_alt)
  next
    case False
    have "unat ((now div 50 + 1) * 50) = (unat now div 50 + 1) * 50"
      using unat_mult_nowrap [of "now div 50 + 1" 50] q1 n by simp
    also have "unat now \<le> (unat now div 50 + 1) * 50" by simp
    finally show ?thesis using False by (simp add: div_ceil_def MILLISECONDS_UNIT_def word_le_nat_alt)
  qed
qed

section \<open>Properties\<close>

definition eligible :: "parlia \<Rightarrow> snapshot \<Rightarrow> header \<Rightarrow> bool" where
  "eligible p snap h \<longleftrightarrow>
     beneficiary h \<in> set (validators snap) \<and> is_inturn snap (beneficiary h) = Some False \<and>
     \<not> (is_planck_active_at_block (spec p) (number h) \<and> sign_recently snap (beneficiary h))"

text \<open>What an eligible validator waits: its shuffled step after an initial delay.\<close>

definition round_delay :: "parlia \<Rightarrow> snapshot \<Rightarrow> header \<Rightarrow> header \<Rightarrow> address \<Rightarrow> u64" where
  "round_delay p snap parent h inturn_addr =
     (if is_planck_active_at_block (spec p) (number h) \<and> sign_recently snap inturn_addr then 0
      else initial_back_off p parent)"

definition round_candidates :: "parlia \<Rightarrow> snapshot \<Rightarrow> header \<Rightarrow> address \<Rightarrow> address list" where
  "round_candidates p snap h inturn_addr =
     (if is_planck_active_at_block (spec p) (number h)
      then back_off_candidates p snap h (count_recent_proposers snap) inturn_addr else validators snap)"

lemma eligible_back_off:
  assumes "eligible p snap h"
  obtains w where "inturn_validator snap = Some w" and "beneficiary h \<in> set (round_candidates p snap h w)"
    and "back_off_time p snap parent h =
      shuffled_back_off p snap h (is_lorentz_active_at_timestamp (spec p) (number parent) (timestamp parent))
        (round_delay p snap parent h w) (round_candidates p snap h w)"
proof -
  obtain w where w: "inturn_validator snap = Some w" "w \<noteq> beneficiary h"
    using assms by (auto simp: eligible_def is_inturn_def)
  show thesis
    using assms w
    by (intro that [of w])
      (auto simp: eligible_def round_candidates_def round_delay_def back_off_candidates_def
        back_off_time_def Let_def sign_recently_def)
qed

lemma round_delay_values:
  "round_delay p snap parent h w \<in> {0, BACKOFF_TIME_OF_INITIAL, LORENTZ_BACKOFF_TIME_OF_INITIAL}"
  by (simp add: round_delay_def initial_back_off_def)

lemma round_candidates_length: "length (round_candidates p snap h w) \<le> length (validators snap)"
  by (simp add: round_candidates_def back_off_candidates_def)

text \<open>Three validators, the first in turn: the shuffle has two steps and returns.\<close>

definition sample_candidate :: "address \<Rightarrow> header" where
  "sample_candidate v = sample_header 21 1754967090\<lparr>beneficiary := v\<rparr>"

abbreviation sample_parlia :: parlia where
  "sample_parlia \<equiv> \<lparr>spec = qanet_spec, epoch = 200\<rparr>"

lemma sample_eligible:
  "eligible sample_parlia (sample_snapshot 20 [3, 5, 7] 1 200) (sample_candidate 5)"
  "eligible sample_parlia (sample_snapshot 20 [3, 5, 7] 1 200) (sample_candidate 7)"
  by code_simp+

lemma sample_back_off_returns:
  assumes "eligible sample_parlia (sample_snapshot 20 [3, 5, 7] 1 200) (sample_candidate v)"
  obtains a where "back_off_time sample_parlia (sample_snapshot 20 [3, 5, 7] 1 200)
    (sample_header 20 1754967087) (sample_candidate v) = Some a"
proof -
  let ?s = "sample_snapshot 20 [3, 5, 7] 1 200"
  have w: "inturn_validator ?s = Some 3" by code_simp
  have "round_candidates sample_parlia ?s (sample_candidate 0) 3 = [5, 7]" by code_simp
  moreover have "round_candidates sample_parlia ?s (sample_candidate v) 3 =
      round_candidates sample_parlia ?s (sample_candidate 0) 3"
    by (simp add: round_candidates_def back_off_candidates_def sample_candidate_def)
  ultimately have c: "round_candidates sample_parlia ?s (sample_candidate v) 3 = [5, 7]" by simp
  have seed: "back_off_seed sample_parlia ?s (sample_candidate v) \<noteq> None"
    by (simp add: back_off_seed_def sample_snapshot_def)
  have "shuffled_back_off sample_parlia ?s (sample_candidate v) l d [5, 7] \<noteq> None" for l d
  proof -
    obtain sd where sd: "back_off_seed sample_parlia ?s (sample_candidate v) = Some sd" using seed by blast
    have "shuffle (map word_of_nat [0..<length [5, 7 :: address]]) (rng_new sd) \<noteq> (None :: (u64 list \<times> _) option)"
      by (rule shuffle_two_returns) simp
    then obtain steps r where st:
      "shuffle (map word_of_nat [0..<length [5, 7 :: address]]) (rng_new sd) = Some (steps :: u64 list, r)"
      by auto
    have "length steps = 2" using shuffled_steps(1) [OF st] by simp
    then show ?thesis
      using sd st by (auto simp: shuffled_back_off_def index_Some)
  qed
  moreover obtain w' where "inturn_validator ?s = Some w'"
    "back_off_time sample_parlia ?s (sample_header 20 1754967087) (sample_candidate v) =
      shuffled_back_off sample_parlia ?s (sample_candidate v)
        (is_lorentz_active_at_timestamp (spec sample_parlia) (number (sample_header 20 1754967087))
          (timestamp (sample_header 20 1754967087)))
        (round_delay sample_parlia ?s (sample_header 20 1754967087) (sample_candidate v) w')
        (round_candidates sample_parlia ?s (sample_candidate v) w')"
    using eligible_back_off [OF assms] by metis
  ultimately show thesis using that c w by auto
qed

text \<open>
  C37. No two out-of-turn validators wait equally long: for one height and timestamp, two different
  eligible validators get different back-off times, so their blocks do not collide.
\<close>

theorem back_off_distinct:
  assumes "eligible p snap h" and "eligible p snap h'"
    and "back_off_time p snap parent h = Some a" and "back_off_time p snap parent h' = Some b"
    and "beneficiary h \<noteq> beneficiary h'" and same: "number h' = number h" "timestamp h' = timestamp h"
    and len: "length (validators snap) < 2 ^ 31"
  shows "a \<noteq> b"
proof -
  let ?l = "is_lorentz_active_at_timestamp (spec p) (number parent) (timestamp parent)"
  obtain w where w: "inturn_validator snap = Some w" "beneficiary h \<in> set (round_candidates p snap h w)"
    "back_off_time p snap parent h =
      shuffled_back_off p snap h ?l (round_delay p snap parent h w) (round_candidates p snap h w)"
    using eligible_back_off [OF assms(1)] .
  obtain w' where w': "inturn_validator snap = Some w'" "beneficiary h' \<in> set (round_candidates p snap h' w')"
    "back_off_time p snap parent h' =
      shuffled_back_off p snap h' ?l (round_delay p snap parent h' w') (round_candidates p snap h' w')"
    using eligible_back_off [OF assms(2)] .
  have eq: "w' = w" using w(1) w'(1) by simp
  have "round_candidates p snap h' w = round_candidates p snap h w"
    and "round_delay p snap parent h' w = round_delay p snap parent h w"
    unfolding round_candidates_def round_delay_def back_off_candidates_def same by (rule refl)+
  then have A: "shuffled_back_off p snap h ?l (round_delay p snap parent h w) (round_candidates p snap h w) = Some a"
    and B: "shuffled_back_off p snap h' ?l (round_delay p snap parent h w) (round_candidates p snap h w) = Some b"
    and m: "beneficiary h' \<in> set (round_candidates p snap h w)"
    using w w' eq assms(3,4) by simp_all
  have "length (round_candidates p snap h w) < 2 ^ 31"
    using round_candidates_length [of p snap h w] len by simp
  then show ?thesis
    by (rule shuffled_back_off_distinct [OF A B w(2) m assms(5) _ round_delay_values same])
qed

theorem back_off_distinct_witness:
  "back_off_time sample_parlia (sample_snapshot 20 [3, 5, 7] 1 200) (sample_header 20 1754967087)
     (sample_candidate 5) \<noteq>
   back_off_time sample_parlia (sample_snapshot 20 [3, 5, 7] 1 200) (sample_header 20 1754967087)
     (sample_candidate 7)"
proof -
  let ?s = "sample_snapshot 20 [3, 5, 7] 1 200" and ?par = "sample_header 20 1754967087"
  obtain a where a: "back_off_time sample_parlia ?s ?par (sample_candidate 5) = Some a"
    by (rule sample_back_off_returns [OF sample_eligible(1)])
  obtain b where b: "back_off_time sample_parlia ?s ?par (sample_candidate 7) = Some b"
    by (rule sample_back_off_returns [OF sample_eligible(2)])
  have "a \<noteq> b"
    by (rule back_off_distinct [OF sample_eligible a b])
      (simp_all add: sample_candidate_def sample_snapshot_def)
  with a b show ?thesis by simp
qed

text \<open>
  C38. The in-turn validator goes first: it has no back-off, and unless it has used up its share of
  recent blocks every other eligible validator waits at least a second.
\<close>

theorem back_off_in_turn_first:
  assumes "eligible p snap h" and "back_off_time p snap parent h = Some a"
    and "inturn_validator snap = Some w" and "\<not> sign_recently snap w"
    and "length (validators snap) < 2 ^ 31"
  shows "BACKOFF_TIME_OF_INITIAL \<le> a \<and> back_off_time p snap parent (h\<lparr>beneficiary := w\<rparr>) = Some 0"
proof
  let ?l = "is_lorentz_active_at_timestamp (spec p) (number parent) (timestamp parent)"
  have w: "beneficiary h \<in> set (round_candidates p snap h w)"
    "back_off_time p snap parent h =
      shuffled_back_off p snap h ?l (initial_back_off p parent) (round_candidates p snap h w)"
    using eligible_back_off [OF assms(1), of parent] assms(3,4) by (auto simp: round_delay_def)
  have len: "length (round_candidates p snap h w) < 2 ^ 31"
    using round_candidates_length [of p snap h w] assms(5) by simp
  obtain seed steps r i where "back_off_seed p snap h = Some seed" and s:
    "shuffle (map word_of_nat [0..<length (round_candidates p snap h w)]) (rng_new seed) = Some (steps, r)"
    "i < length (round_candidates p snap h w)" "round_candidates p snap h w ! i = beneficiary h"
    "a = back_off_of_step (initial_back_off p parent) ?l (steps ! i)"
    using shuffled_back_off_step [OF assms(2) [unfolded w(2)] w(1) len] .
  have "unat (steps ! i) < length (round_candidates p snap h w)"
    using shuffled_steps(1,3) [OF s(1) len] s(2) by simp
  then have "unat (steps ! i) < 2 ^ 32" using len by simp
  moreover have "initial_back_off p parent \<in> {0, BACKOFF_TIME_OF_INITIAL, LORENTZ_BACKOFF_TIME_OF_INITIAL}"
    by (simp add: initial_back_off_def)
  ultimately show "BACKOFF_TIME_OF_INITIAL \<le> a"
    unfolding s(4) word_le_nat_alt
    by (simp add: back_off_of_step_unat initial_back_off_def BACKOFF_TIME_OF_INITIAL_def
        LORENTZ_BACKOFF_TIME_OF_INITIAL_def)
  show "back_off_time p snap parent (h\<lparr>beneficiary := w\<rparr>) = Some 0"
    using assms(3) by (simp add: back_off_time_def is_inturn_def)
qed

theorem back_off_in_turn_first_witness:
  "\<exists>a. back_off_time sample_parlia (sample_snapshot 20 [3, 5, 7] 1 200) (sample_header 20 1754967087)
         (sample_candidate 5) = Some a \<and> BACKOFF_TIME_OF_INITIAL \<le> a"
proof -
  let ?s = "sample_snapshot 20 [3, 5, 7] 1 200" and ?par = "sample_header 20 1754967087"
  obtain a where a: "back_off_time sample_parlia ?s ?par (sample_candidate 5) = Some a"
    by (rule sample_back_off_returns [OF sample_eligible(1)])
  have "inturn_validator ?s = Some 3" and "\<not> sign_recently ?s 3" by code_simp+
  then have "BACKOFF_TIME_OF_INITIAL \<le> a \<and>
      back_off_time sample_parlia ?s ?par (sample_candidate 5\<lparr>beneficiary := 3\<rparr>) = Some 0"
    by (rule back_off_in_turn_first [OF sample_eligible(1) a]) (simp add: sample_snapshot_def)
  with a show ?thesis by blast
qed

text \<open>
  C39. A prepared block time passes the check of the other nodes: from Lorentz on, the header that
  \<open>prepare_timestamp\<close> fills in satisfies \<open>block_time_verify\<close> against the same parent, whatever
  the wall clock says, provided that the timestamp the header had before lies on the same side of
  the Bohr fork (the back-off is computed with that one).
\<close>

theorem prepared_time_verifies:
  assumes "prepare_timestamp now p snap parent h = Some (h', ms)"
    and "is_ramanujan_active_at_block (spec p) (number h)"
    and "is_lorentz_active_at_timestamp (spec p) (number h) (ms div 1000)"
    and "is_bohr_active_at_timestamp (spec p) (number h) (timestamp h) =
         is_bohr_active_at_timestamp (spec p) (number h) (ms div 1000)"
    and "now < 2 ^ 63"
  shows "block_time_verify_for_ramanujan_fork hash p snap h' parent = Some (Inr ()) \<and>
         calculate_millisecond_timestamp h' = ms"
proof -
  let ?base = "calculate_millisecond_timestamp parent + block_interval snap"
  obtain b where b: "back_off_time p snap parent h = Some b"
    and ms: "ms = (if ?base + b < now then div_ceil now MILLISECONDS_UNIT * MILLISECONDS_UNIT else ?base + b)"
    and h': "h' = set_millisecond_part_of_timestamp ms (h\<lparr>timestamp := ms div 1000\<rparr>)"
    using assms(1-3)
    by (auto simp: prepare_timestamp_def block_time_for_ramanujan_fork_def Let_def bind_eq_Some_conv)
  have "back_off_time p snap parent h' = Some b"
    using b back_off_time_cong [of h' h p snap parent] assms(4) by (simp add: h')
  moreover have "calculate_millisecond_timestamp h' = ms"
    unfolding h' by (rule millisecond_timestamp_round_trip) simp
  moreover have "\<not> ms < ?base + b"
    using ms div_ceil_units [OF assms(5)] by (auto simp: not_less split: if_splits)
  ultimately show ?thesis
    by (simp add: block_time_verify_for_ramanujan_fork_def Let_def)
qed

theorem prepared_time_verifies_witness:
  "\<exists>h'. prepare_timestamp 1754967091234 sample_parlia (sample_snapshot 20 [3, 5, 7] 1 200)
           (sample_header 20 1754967087) (sample_candidate 3) = Some (h', 1754967091250) \<and>
        block_time_verify_for_ramanujan_fork (\<lambda>_. 0) sample_parlia (sample_snapshot 20 [3, 5, 7] 1 200)
          h' (sample_header 20 1754967087) = Some (Inr ())"
proof -
  let ?s = "sample_snapshot 20 [3, 5, 7] 1 200" and ?par = "sample_header 20 1754967087"
  have "map_option snd (prepare_timestamp 1754967091234 sample_parlia ?s ?par (sample_candidate 3)) =
      Some 1754967091250"
    by code_simp
  then obtain h' where h': "prepare_timestamp 1754967091234 sample_parlia ?s ?par (sample_candidate 3) =
      Some (h', 1754967091250)"
    by auto
  have "is_ramanujan_active_at_block (spec sample_parlia) (number (sample_candidate 3))"
    "is_lorentz_active_at_timestamp (spec sample_parlia) (number (sample_candidate 3)) (1754967091250 div 1000)"
    "is_bohr_active_at_timestamp (spec sample_parlia) (number (sample_candidate 3)) (timestamp (sample_candidate 3)) =
     is_bohr_active_at_timestamp (spec sample_parlia) (number (sample_candidate 3)) (1754967091250 div 1000)"
    "(1754967091234 :: u64) < 2 ^ 63"
    by code_simp+
  from prepared_time_verifies [OF h' this, of "\<lambda>_. 0"] h' show ?thesis by blast
qed

text \<open>
  C40. Mining delays stay within the block: the local miner never waits longer than a block interval,
  in the last block of a turn no longer than a fifth of it, and the first block of a turn always
  gets some time (the floor of 50 ms counts for intervals of at least 250 ms, which all are).
\<close>

theorem mining_delay_bounds:
  assumes "snap_wf snap"
  shows "delay_for_mining now random_range p snap h left_over_ms \<le> block_interval snap \<and>
         (last_block_in_one_turn snap (number h) \<longrightarrow>
            delay_for_mining now random_range p snap h left_over_ms \<le> block_interval snap div 5) \<and>
         (first_block_in_one_turn snap (number h) \<longrightarrow>
            0 < delay_for_mining now random_range p snap h left_over_ms) \<and>
         delay_for_bid_simulation now random_range p snap h left_over_ms \<le> block_interval snap"
proof -
  have "250 \<le> block_interval snap" using assms by (auto simp: snap_wf_def interval_consts)
  then have i: "50 \<le> block_interval snap div 5" and le: "block_interval snap div 5 \<le> block_interval snap"
    by (simp_all add: word_le_nat_alt unat_div_distrib)
  have b: "apply_mining_delay_with_leftover d (block_interval snap) lst fst l \<le>
      (if lst then block_interval snap div 5 else block_interval snap)" for d lst fst l
    using i le order.trans [OF i le]
    by (auto simp: apply_mining_delay_with_leftover_def Let_def not_less)
  have le_interval: "apply_mining_delay_with_leftover d (block_interval snap) lst fst l \<le> block_interval snap"
    for d lst fst l
    using b [of d lst fst l] order.trans [OF _ le] by (cases lst) simp_all
  have "0 < apply_mining_delay_with_leftover d (block_interval snap) lst True l" for d lst l
    by (auto simp: apply_mining_delay_with_leftover_def Let_def word_gt_0)
  then show ?thesis
    using le_interval b [of _ True] unfolding delay_for_mining_def delay_for_bid_simulation_def by simp
qed

theorem mining_delay_bounds_witness:
  "delay_for_mining 0 (\<lambda>_. 0) sample_parlia (sample_snapshot 20 [3, 5, 7] 1 200) (sample_candidate 3) 100 \<le> 600"
proof -
  have "snap_wf (sample_snapshot 20 [3, 5, 7] 1 200)"
    and "last_block_in_one_turn (sample_snapshot 20 [3, 5, 7] 1 200) (number (sample_candidate 3))"
    by code_simp+
  with mining_delay_bounds [of "sample_snapshot 20 [3, 5, 7] 1 200" 0 "\<lambda>_. 0" sample_parlia
      "sample_candidate 3" 100]
  show ?thesis by (simp add: sample_snapshot_def interval_consts)
qed

end
