(* ===== verification/HeaderValidation.thy ===== *)
theory HeaderValidation
  imports Timing
begin

text \<open>
  The checks of \<open>src/consensus/parlia/validation.rs\<close> on headers and on blocks before execution,
  and the blob rules of \<open>src/consensus/eip4844\<close> (BEP-657 and the blob fee).

  Constants of libraries (the empty ommers hash, the gas of a blob, the update fractions of the
  blob fee), the exponential of EIP-4844, the excess-blob-gas formula, the validity of the
  transaction root and the RLP length of a block are arguments. The wall clock is the argument
  \<open>present\<close>.
\<close>

section \<open>Blob rules\<close>

definition BLOB_ELIGIBLE_BLOCK_INTERVAL :: u64 where "BLOB_ELIGIBLE_BLOCK_INTERVAL = 5"

definition is_blob_eligible_block :: "chain_spec \<Rightarrow> u64 \<Rightarrow> u64 \<Rightarrow> bool" where
  "is_blob_eligible_block cs bn ts =
     (if \<not> is_mendel_active_at_timestamp cs bn ts then True
      else is_multiple_of bn BLOB_ELIGIBLE_BLOCK_INTERVAL)"

definition should_recalculate_excess_blob_gas :: "chain_spec \<Rightarrow> u64 \<Rightarrow> u64 \<Rightarrow> bool" where
  "should_recalculate_excess_blob_gas cs bn ts =
     (if \<not> is_mendel_active_at_timestamp cs bn ts then True
      else bn mod BLOB_ELIGIBLE_BLOCK_INTERVAL = 1)"

text \<open>
  \<open>maybe_next\<close> is the library's excess-blob-gas formula on a parent header, \<open>genesis_excess\<close> its
  value for a parent without blob fields.
\<close>

definition next_block_excess_blob_gas_with_mendel ::
  "(header \<Rightarrow> 'bp \<Rightarrow> u64 option) \<Rightarrow> u64 \<Rightarrow> chain_spec \<Rightarrow> u64 \<Rightarrow> u64 \<Rightarrow> header \<Rightarrow> 'bp option \<Rightarrow> u64 option" where
  "next_block_excess_blob_gas_with_mendel maybe_next genesis_excess cs bn ts parent blob_params =
     do {
       bp \<leftarrow> blob_params;
       if \<not> should_recalculate_excess_blob_gas cs bn ts
       then Some (unwrap_or (excess_blob_gas parent) 0)
       else (case maybe_next parent bp of Some e \<Rightarrow> Some e | None \<Rightarrow> Some genesis_excess)
     }"

definition MIN_BLOB_GAS_PRICE :: u128 where "MIN_BLOB_GAS_PRICE = 1"

record blob_constants =
  cancun_update_fraction :: u64
  pectra_update_fraction :: u64
  data_gas_per_blob :: u64
  max_data_gas_per_block_dencun :: u64

definition get_update_fraction :: "blob_constants \<Rightarrow> chain_spec \<Rightarrow> u64 \<Rightarrow> u64 option" where
  "get_update_fraction bc cs ts =
     (if active_at_timestamp cs (bsc_fork_activation cs Fermi) ts then Some (pectra_update_fraction bc)
      else if active_at_timestamp cs (bsc_fork_activation cs Maxwell) ts then Some (pectra_update_fraction bc)
      else if active_at_timestamp cs (bsc_fork_activation cs Lorentz) ts then Some (pectra_update_fraction bc)
      else if is_prague_active_at_timestamp cs ts then Some (pectra_update_fraction bc)
      else if active_at_timestamp cs (bsc_fork_activation cs Cancun) ts then Some (cancun_update_fraction bc)
      else None)"

definition calc_blob_fee ::
  "(u128 \<Rightarrow> u128 \<Rightarrow> u128 \<Rightarrow> u128) \<Rightarrow> blob_constants \<Rightarrow> chain_spec \<Rightarrow> header \<Rightarrow> u128 option" where
  "calc_blob_fee fake_exponential bc cs h =
     do {
       frac \<leftarrow> get_update_fraction bc cs (timestamp h);
       Some (fake_exponential MIN_BLOB_GAS_PRICE (ucast (unwrap_or (excess_blob_gas h) 0)) (ucast frac))
     }"

section \<open>Header checks\<close>

datatype consensus_error =
    HeaderGasUsedExceedsGasLimit u64 u64
  | BaseFeeBeforeFork u64
  | BaseFeeMissing
  | BaseFeeDiff u64 u64
  | BlobGasUsedMissing
  | ExcessBlobGasMissing
  | BlobsNotAllowedInBlock u64
  | BlobGasUsedExceedsMaxBlobGasPerBlock u64 u64
  | BlobGasUsedNotMultipleOfBlobGasPerBlob u64 u64
  | TimestampIsInFuture u64 u64
  | NonZeroMixDigest
  | InvalidMixDigestMilliseconds
  | WithdrawalsRootUnexpected
  | WithdrawalsRootMissing
  | BodyWithdrawalsRootDiff b256 b256
  | RequestsHashMissing
  | RequestsHashUnexpected
  | InvalidBlockAccessListHash b256
  | InvalidSlotNumber u64
  | NonEmptyUncleHash
  | ParentBeaconBlockRootUnexpected
  | ExcessBlobGasUnexpected
  | BlobGasUsedUnexpected
  | InvalidHeaderExtraData parlia_consensus_error
  | BodyTransactionRootDiff b256 b256
  | BlockTooLarge nat nat
  | BlobTransactionsNotAllowed
  | BlobGasUsedDiff u64 u64

definition validate_header_gas :: "header \<Rightarrow> consensus_error + unit" where
  "validate_header_gas h =
     (if gas_used h > gas_limit h then Inl (HeaderGasUsedExceedsGasLimit (gas_used h) (gas_limit h))
      else Inr ())"

definition validate_header_base_fee :: "header \<Rightarrow> chain_spec \<Rightarrow> consensus_error + unit" where
  "validate_header_base_fee h cs =
     (let london = is_london_active_at_block cs (number h) in
      case base_fee_per_gas h of
        None \<Rightarrow> if london then Inl BaseFeeMissing else Inr ()
      | Some got \<Rightarrow>
          if \<not> london then Inl (BaseFeeBeforeFork got)
          else if got = 0 then Inr ()
          else Inl (BaseFeeDiff got 0))"

definition validate_4844_header_of_bsc :: "blob_constants \<Rightarrow> header \<Rightarrow> chain_spec \<Rightarrow> consensus_error + unit" where
  "validate_4844_header_of_bsc bc h cs =
     res_bind (ok_or (blob_gas_used h) BlobGasUsedMissing) (\<lambda>blob_gas_used.
     res_bind (ok_or (excess_blob_gas h) ExcessBlobGasMissing) (\<lambda>excess_blob_gas.
       if \<not> is_blob_eligible_block cs (number h) (timestamp h) \<and> blob_gas_used \<noteq> 0
       then Inl (BlobsNotAllowedInBlock (number h))
       else if blob_gas_used > max_data_gas_per_block_dencun bc
       then Inl (BlobGasUsedExceedsMaxBlobGasPerBlock blob_gas_used (max_data_gas_per_block_dencun bc))
       else if blob_gas_used mod data_gas_per_blob bc \<noteq> 0
       then Inl (BlobGasUsedNotMultipleOfBlobGasPerBlob blob_gas_used (data_gas_per_blob bc))
       else if excess_blob_gas mod data_gas_per_blob bc \<noteq> 0
       then Inl (BlobGasUsedNotMultipleOfBlobGasPerBlob excess_blob_gas (data_gas_per_blob bc))
       else Inr ()))"

definition validate_header_not_from_future :: "header \<Rightarrow> u64 \<Rightarrow> consensus_error + unit" where
  "validate_header_not_from_future h present =
     (if timestamp h > present then Inl (TimestampIsInFuture (timestamp h) present) else Inr ())"

definition validate_mix_digest_for_parlia :: "header \<Rightarrow> bool \<Rightarrow> consensus_error + unit" where
  "validate_mix_digest_for_parlia h lorentz_active =
     (if \<not> lorentz_active then
        (if mix_hash h \<noteq> 0 then Inl NonZeroMixDigest else Inr ())
      else if calculate_millisecond_timestamp h div 1000 \<noteq> timestamp h
      then Inl InvalidMixDigestMilliseconds
      else Inr ())"

definition validate_withdrawals_root_for_bsc :: "header \<Rightarrow> bool \<Rightarrow> consensus_error + unit" where
  "validate_withdrawals_root_for_bsc h cancun_active =
     (if \<not> cancun_active then
        (if withdrawals_root h \<noteq> None then Inl WithdrawalsRootUnexpected else Inr ())
      else res_bind (ok_or (withdrawals_root h) WithdrawalsRootMissing) (\<lambda>got.
        if got \<noteq> EMPTY_WITHDRAWALS_HASH then Inl (BodyWithdrawalsRootDiff got EMPTY_WITHDRAWALS_HASH)
        else Inr ()))"

definition validate_requests_hash_for_bsc :: "header \<Rightarrow> bool \<Rightarrow> consensus_error + unit" where
  "validate_requests_hash_for_bsc h prague_active =
     (if prague_active then
        (if requests_hash h = None then Inl RequestsHashMissing else Inr ())
      else if requests_hash h \<noteq> None then Inl RequestsHashUnexpected
      else Inr ())"

definition validate_optional_trailing_fields_for_bsc :: "header \<Rightarrow> consensus_error + unit" where
  "validate_optional_trailing_fields_for_bsc h =
     (case block_access_list_hash h of
        Some b \<Rightarrow> Inl (InvalidBlockAccessListHash b)
      | None \<Rightarrow> (case slot_number h of
            Some s \<Rightarrow> Inl (InvalidSlotNumber s)
          | None \<Rightarrow> Inr ()))"

definition validate_unsealed_header_fields ::
  "blob_constants \<Rightarrow> b256 \<Rightarrow> parlia \<Rightarrow> header \<Rightarrow> consensus_error + unit" where
  "validate_unsealed_header_fields bc empty_ommers p h =
     (let lorentz_active = is_lorentz_active_at_timestamp (spec p) (number h) (timestamp h) in
      res_bind (validate_mix_digest_for_parlia h lorentz_active) (\<lambda>_.
      res_bind (guard (ommers_hash h = empty_ommers) NonEmptyUncleHash) (\<lambda>_.
      res_bind
        (if is_bohr_active_at_timestamp (spec p) (number h) (timestamp h) then
           (if parent_beacon_block_root h = None \<or> the (parent_beacon_block_root h) \<noteq> 0
            then Inl ParentBeaconBlockRootUnexpected else Inr ())
         else if parent_beacon_block_root h \<noteq> None then Inl ParentBeaconBlockRootUnexpected
         else Inr ()) (\<lambda>_.
      res_bind (validate_requests_hash_for_bsc h
                  (is_prague_active_at_block_and_timestamp (spec p) (number h) (timestamp h))) (\<lambda>_.
      res_bind (validate_optional_trailing_fields_for_bsc h) (\<lambda>_.
      res_bind (validate_header_base_fee h (spec p)) (\<lambda>_.
      (let cancun_active = is_cancun_active_at_timestamp (spec p) (number h) (timestamp h) in
       res_bind
         (if \<not> cancun_active then
            (if excess_blob_gas h \<noteq> None then Inl ExcessBlobGasUnexpected
             else if blob_gas_used h \<noteq> None then Inl BlobGasUsedUnexpected
             else Inr ())
          else Inr ()) (\<lambda>_.
       res_bind (validate_withdrawals_root_for_bsc h cancun_active) (\<lambda>_.
       res_bind (if cancun_active then validate_4844_header_of_bsc bc h (spec p) else Inr ()) (\<lambda>_.
       validate_header_gas h)))))))))))"

definition validate_header ::
  "blob_constants \<Rightarrow> b256 \<Rightarrow> u64 \<Rightarrow> parlia \<Rightarrow> header \<Rightarrow> (consensus_error + unit) option" where
  "validate_header bc empty_ommers present p h =
     (case validate_header_not_from_future h present of
        Inl e \<Rightarrow> Some (Inl e)
      | Inr _ \<Rightarrow>
          (case check_header_extra p h of
             None \<Rightarrow> None
           | Some (Inl e) \<Rightarrow> Some (Inl (InvalidHeaderExtraData e))
           | Some (Inr _) \<Rightarrow> Some (validate_unsealed_header_fields bc empty_ommers p h)))"

section \<open>Block checks before execution\<close>

record transaction_info =
  is_eip4844 :: bool
  tx_blob_gas_used :: "u64 option"

record block_info =
  block_header :: header
  block_transactions :: "transaction_info list"

definition MAX_RLP_BLOCK_SIZE_OSAKA :: nat where "MAX_RLP_BLOCK_SIZE_OSAKA = 8 * 1024 * 1024"

text \<open>\<open>tx_root_diff\<close> is the mismatch of the transaction root, if any; the sum of blob gas wraps.\<close>

definition validate_block_pre_execution ::
  "(block_info \<Rightarrow> (b256 \<times> b256) option) \<Rightarrow> (block_info \<Rightarrow> nat) \<Rightarrow> parlia \<Rightarrow> block_info \<Rightarrow>
     consensus_error + unit" where
  "validate_block_pre_execution tx_root_diff rlp_length p b =
     (let n = number (block_header b); ts = timestamp (block_header b) in
      case tx_root_diff b of
        Some (got, expected) \<Rightarrow> Inl (BodyTransactionRootDiff got expected)
      | None \<Rightarrow>
          res_bind
            (if is_osaka_active_at_timestamp (spec p) n ts \<and> rlp_length b > MAX_RLP_BLOCK_SIZE_OSAKA
             then Inl (BlockTooLarge (rlp_length b) MAX_RLP_BLOCK_SIZE_OSAKA)
             else Inr ()) (\<lambda>_.
          if is_cancun_active_at_timestamp (spec p) n ts then
            (if \<not> is_blob_eligible_block (spec p) n ts \<and> (\<exists>t \<in> set (block_transactions b). is_eip4844 t)
             then Inl BlobTransactionsNotAllowed
             else res_bind (ok_or (blob_gas_used (block_header b)) BlobGasUsedMissing) (\<lambda>header_blob_gas_used.
               (let total_blob_gas = sum_list (map (\<lambda>t. unwrap_or (tx_blob_gas_used t) 0) (block_transactions b)) in
                if total_blob_gas \<noteq> header_blob_gas_used
                then Inl (BlobGasUsedDiff header_blob_gas_used total_blob_gas)
                else Inr ())))
          else Inr ()))"

section \<open>Facts\<close>

lemma res_bind_unit_ok: "res_bind r (\<lambda>_. s) = Inr u \<longleftrightarrow> (\<exists>a. r = Inr a) \<and> s = Inr u"
  by auto

text \<open>The mix digest check cannot be passed by letting the millisecond timestamp wrap.\<close>

lemma wrapped_div_exact:
  fixes t r n :: nat
  assumes "r < n" and "(t * 1000 + r) mod n div 1000 = t"
  shows "r < 1000 \<and> t * 1000 + r < n"
proof -
  define w where "w = (t * 1000 + r) mod n"
  have "0 < n" using assms(1) by simp
  then have "w < n" by (simp add: w_def)
  have w: "t * 1000 \<le> w" "w < t * 1000 + 1000" using assms(2) by (auto simp: w_def [symmetric])
  then have "t * 1000 + r < n + n" using \<open>w < n\<close> assms(1) by linarith
  then have "t * 1000 + r = w \<or> t * 1000 + r = w + n" unfolding w_def
    by (cases "t * 1000 + r < n") (simp_all add: le_mod_geq)
  with w \<open>w < n\<close> assms(1) show ?thesis by linarith
qed

lemma div_1000_exact:
  fixes ts r :: u64
  shows "(ts * 1000 + r) div 1000 = ts \<longleftrightarrow> unat r < 1000 \<and> unat ts * 1000 + unat r < 2 ^ LENGTH(64)"
proof
  assume fits: "unat r < 1000 \<and> unat ts * 1000 + unat r < 2 ^ LENGTH(64)"
  have "unat (ts * 1000) = unat ts * unat (1000 :: u64)"
    by (rule unat_mult_nowrap) (use fits in simp)
  then have "unat (ts * 1000 + r) = unat ts * 1000 + unat r"
    using fits by (subst unat_add_nowrap) simp_all
  then show "(ts * 1000 + r) div 1000 = ts"
    using fits by (simp add: word_unat_eq_iff unat_div_distrib)
next
  assume "(ts * 1000 + r) div 1000 = ts"
  then have "unat (ts * 1000 + r) div unat (1000 :: u64) = unat ts"
    by (metis unat_div_distrib)
  then have "(unat ts * 1000 + unat r) mod 2 ^ LENGTH(64) div 1000 = unat ts"
    by (simp add: unat_word_ariths mod_add_left_eq)
  then show "unat r < 1000 \<and> unat ts * 1000 + unat r < 2 ^ LENGTH(64)"
    by (intro wrapped_div_exact unat_lt2p)
qed

text \<open>The checks an accepted header has passed, and what they fix outside the seal preimage.\<close>

lemma accepted_checks:
  "validate_unsealed_header_fields bc e p h = Inr () \<longleftrightarrow>
     validate_mix_digest_for_parlia h (is_lorentz_active_at_timestamp (spec p) (number h) (timestamp h)) = Inr () \<and>
     ommers_hash h = e \<and>
     parent_beacon_block_root h =
       (if is_bohr_active_at_timestamp (spec p) (number h) (timestamp h) then Some 0 else None) \<and>
     validate_requests_hash_for_bsc h
       (is_prague_active_at_block_and_timestamp (spec p) (number h) (timestamp h)) = Inr () \<and>
     validate_optional_trailing_fields_for_bsc h = Inr () \<and>
     validate_header_base_fee h (spec p) = Inr () \<and>
     validate_withdrawals_root_for_bsc h
       (is_cancun_active_at_timestamp (spec p) (number h) (timestamp h)) = Inr () \<and>
     (if is_cancun_active_at_timestamp (spec p) (number h) (timestamp h)
      then validate_4844_header_of_bsc bc h (spec p) = Inr ()
      else excess_blob_gas h = None \<and> blob_gas_used h = None) \<and>
     gas_used h \<le> gas_limit h"
  unfolding validate_unsealed_header_fields_def Let_def res_bind_eq_Inr
  by (cases "is_bohr_active_at_timestamp (spec p) (number h) (timestamp h)";
      cases "is_cancun_active_at_timestamp (spec p) (number h) (timestamp h)";
      cases "parent_beacon_block_root h") (auto simp: validate_header_gas_def not_less split: if_splits)

lemma trailing_ok:
  "validate_optional_trailing_fields_for_bsc h = Inr () \<longleftrightarrow>
     block_access_list_hash h = None \<and> slot_number h = None"
  by (simp add: validate_optional_trailing_fields_for_bsc_def split: option.splits)

lemma base_fee_ok:
  "validate_header_base_fee h cs = Inr () \<longleftrightarrow>
     base_fee_per_gas h = (if is_london_active_at_block cs (number h) then Some 0 else None)"
  by (simp add: validate_header_base_fee_def split: option.splits)

lemma withdrawals_ok:
  "validate_withdrawals_root_for_bsc h b = Inr () \<longleftrightarrow>
     withdrawals_root h = (if b then Some EMPTY_WITHDRAWALS_HASH else None)"
  by (cases "withdrawals_root h") (simp_all add: validate_withdrawals_root_for_bsc_def)

lemma requests_ok: "validate_requests_hash_for_bsc h b = Inr () \<longleftrightarrow> (requests_hash h = None) = (\<not> b)"
  by (simp add: validate_requests_hash_for_bsc_def)

lemma blob_fields_present:
  "validate_4844_header_of_bsc bc h cs = Inr () \<Longrightarrow> blob_gas_used h \<noteq> None \<and> excess_blob_gas h \<noteq> None"
  by (auto simp: validate_4844_header_of_bsc_def)

lemma accepted_blob_fields:
  assumes "validate_unsealed_header_fields bc e p h = Inr ()"
  shows "(blob_gas_used h = None) = (\<not> is_cancun_active_at_timestamp (spec p) (number h) (timestamp h))"
    and "(excess_blob_gas h = None) = (\<not> is_cancun_active_at_timestamp (spec p) (number h) (timestamp h))"
  using assms blob_fields_present by (auto simp: accepted_checks split: if_splits)

lemma accepted_pinned:
  assumes "validate_unsealed_header_fields bc e p h = Inr ()"
  shows "block_access_list_hash h = None" and "slot_number h = None"
    and "base_fee_per_gas h = (if is_london_active_at_block (spec p) (number h) then Some 0 else None)"
    and "withdrawals_root h = (if is_cancun_active_at_timestamp (spec p) (number h) (timestamp h)
           then Some EMPTY_WITHDRAWALS_HASH else None)"
  using assms by (simp_all only: accepted_checks trailing_ok base_fee_ok withdrawals_ok)

lemma accepted_beacon_root:
  "validate_unsealed_header_fields bc e p h = Inr () \<Longrightarrow>
     parent_beacon_block_root h =
       (if is_bohr_active_at_timestamp (spec p) (number h) (timestamp h) then Some 0 else None)"
  by (simp only: accepted_checks)

text \<open>Bytes of the extra data before and after the seal boundary determine it.\<close>

lemma extra_data_split:
  "signed_extra_data h @ drop (length (extra_data h) - EXTRA_SEAL_LEN) (extra_data h) = extra_data h"
  by (simp add: signed_extra_data_def)

lemma encode_fields_tail:
  assumes "encode_header_fields h c = encode_header_fields h' c"
  shows "parent_hash h = parent_hash h'" "ommers_hash h = ommers_hash h'"
    "beneficiary h = beneficiary h'" "state_root h = state_root h'"
    "transactions_root h = transactions_root h'" "receipts_root h = receipts_root h'"
    "logs_bloom h = logs_bloom h'" "difficulty h = difficulty h'" "number h = number h'"
    "gas_limit h = gas_limit h'" "gas_used h = gas_used h'" "timestamp h = timestamp h'"
    "signed_extra_data h = signed_extra_data h'" "mix_hash h = mix_hash h'" "nonce h = nonce h'"
    "encode_optional_fields h = encode_optional_fields h'"
proof -
  have "(ucast (number h) :: u256) = ucast (number h')"
    using assms by (simp add: encode_header_fields_def)
  then have "(ucast (ucast (number h) :: u256) :: u64) = ucast (ucast (number h') :: u256)" by simp
  then show "number h = number h'" by (simp add: ucast_ucast_up)
qed (use assms in \<open>simp_all add: encode_header_fields_def\<close>)

text \<open>The blocks between two recalculations: each repeats the excess blob gas of its parent.\<close>

definition blob_child ::
  "(header \<Rightarrow> 'bp \<Rightarrow> u64 option) \<Rightarrow> u64 \<Rightarrow> 'bp \<Rightarrow> chain_spec \<Rightarrow> header \<Rightarrow> header \<Rightarrow> bool" where
  "blob_child maybe_next genesis_excess bp cs parent h \<longleftrightarrow>
     unat (number h) = Suc (unat (number parent)) \<and>
     excess_blob_gas h = next_block_excess_blob_gas_with_mendel maybe_next genesis_excess cs
       (number h) (timestamp h) parent (Some bp)"

definition repriced :: "header \<Rightarrow> bool" where
  "repriced h \<longleftrightarrow> unat (number h) mod 5 = 1"

lemma blob_child_keeps_excess:
  assumes "blob_child f g bp cs parent h" and "is_mendel_active_at_timestamp cs (number h) (timestamp h)"
    and "\<not> repriced h"
  shows "excess_blob_gas h = Some (unwrap_or (excess_blob_gas parent) 0)"
proof -
  have "number h mod 5 \<noteq> 1"
    using assms(3) by (auto simp: repriced_def word_unat_eq_iff unat_mod_distrib)
  then show ?thesis
    using assms(1,2)
    by (simp add: blob_child_def next_block_excess_blob_gas_with_mendel_def
        should_recalculate_excess_blob_gas_def BLOB_ELIGIBLE_BLOCK_INTERVAL_def)
qed

lemma window_excess:
  assumes "successively (blob_child f g bp cs) (h # hs)"
    and "\<forall>x \<in> set hs. is_mendel_active_at_timestamp cs (number x) (timestamp x) \<and> \<not> repriced x"
    and "x \<in> set hs"
  shows "excess_blob_gas x = Some (unwrap_or (excess_blob_gas h) 0)"
  using assms
proof (induction hs arbitrary: h)
  case (Cons y ys)
  have y: "excess_blob_gas y = Some (unwrap_or (excess_blob_gas h) 0)"
    using Cons.prems by (intro blob_child_keeps_excess) auto
  show ?case
  proof (cases "x = y")
    case False
    then have "excess_blob_gas x = Some (unwrap_or (excess_blob_gas y) 0)"
      using Cons.prems by (intro Cons.IH) auto
    then show ?thesis using y by simp
  qed (use y in simp)
qed simp

lemma window_not_repriced:
  assumes "successively (blob_child f g bp cs) (h # hs)" and "repriced h" and "length hs \<le> 4"
    and "i < length hs"
  shows "unat (number (hs ! i)) = unat (number h) + Suc i" and "\<not> repriced (hs ! i)"
proof -
  show n: "unat (number (hs ! i)) = unat (number h) + Suc i"
    using assms(1,4)
  proof (induction hs arbitrary: h i)
    case (Cons y ys)
    then show ?case by (cases i) (auto simp: blob_child_def)
  qed simp
  have "i < 4" using assms(3,4) by simp
  moreover have "unat (number h) = 5 * (unat (number h) div 5) + 1"
    using assms(2) mult_div_mod_eq [of 5 "unat (number h)"] by (simp add: repriced_def)
  ultimately show "\<not> repriced (hs ! i)" using n unfolding repriced_def by presburger
qed

section \<open>Properties\<close>

text \<open>
  C21. The seal binds the whole header: from Bohr on, two headers that pass the field checks and
  agree on the signed content and on the seal are the same header. The fields that the seal
  preimage leaves out or defaults are pinned by the checks, so nobody can change the block hash of
  a sealed header.
\<close>

theorem seal_binds_header:
  fixes h h' :: header
  assumes "is_bohr_active_at_timestamp (spec p) (number h) (timestamp h)"
    and "validate_unsealed_header_fields bc e p h = Inr ()"
    and "validate_unsealed_header_fields bc e p h' = Inr ()"
    and same: "encode_header_fields h chain_id = encode_header_fields h' chain_id"
    and seal: "drop (length (extra_data h) - EXTRA_SEAL_LEN) (extra_data h) =
               drop (length (extra_data h') - EXTRA_SEAL_LEN) (extra_data h')"
  shows "h = h'"
proof -
  note eqs = encode_fields_tail [OF same]
  have "extra_data h = extra_data h'"
    using extra_data_split [of h] extra_data_split [of h'] seal eqs(13) by metis
  moreover have "parent_beacon_block_root h = Some 0" "parent_beacon_block_root h' = Some 0"
    using accepted_beacon_root [OF assms(2)] accepted_beacon_root [OF assms(3)] assms(1) eqs(9,12) by simp_all
  moreover from this have tail: "unwrap_or (blob_gas_used h) 0 = unwrap_or (blob_gas_used h') 0"
      "unwrap_or (excess_blob_gas h) 0 = unwrap_or (excess_blob_gas h') 0"
      "requests_hash h = requests_hash h'"
    using eqs(16) by (auto simp: encode_optional_fields_def split: option.splits)
  moreover have "blob_gas_used h = blob_gas_used h' \<and> excess_blob_gas h = excess_blob_gas h'"
    using accepted_blob_fields [OF assms(2)] accepted_blob_fields [OF assms(3)] eqs(9,12) tail(1,2)
    by (simp add: unwrap_or_def split: option.splits)
  moreover have "base_fee_per_gas h = base_fee_per_gas h'" "withdrawals_root h = withdrawals_root h'"
      "block_access_list_hash h = block_access_list_hash h'" "slot_number h = slot_number h'"
    using accepted_pinned [OF assms(2)] accepted_pinned [OF assms(3)] eqs(9,12) by simp_all
  ultimately show ?thesis
    using eqs(1-15) by (intro header.equality) simp_all
qed

definition dencun_constants :: blob_constants where
  "dencun_constants = \<lparr>cancun_update_fraction = 3338477, pectra_update_fraction = 5007716,
     data_gas_per_blob = 131072, max_data_gas_per_block_dencun = 786432\<rparr>"

text \<open>A header with the optional fields of a block from Bohr on.\<close>

definition sample_modern_header :: "u64 \<Rightarrow> u64 \<Rightarrow> header" where
  "sample_modern_header n ts =
     sample_header n ts\<lparr>base_fee_per_gas := Some 0, withdrawals_root := Some EMPTY_WITHDRAWALS_HASH,
       blob_gas_used := Some 0, excess_blob_gas := Some 0, parent_beacon_block_root := Some 0,
       requests_hash := Some 0\<rparr>"

theorem seal_binds_header_witness:
  "validate_unsealed_header_fields dencun_constants 0 sample_parlia (sample_modern_header 9 1754967090) = Inr () \<and>
   validate_unsealed_header_fields dencun_constants 0 sample_parlia
     (sample_modern_header 9 1754967090\<lparr>slot_number := Some 1\<rparr>) \<noteq> Inr ()"
proof -
  let ?h = "sample_modern_header 9 1754967090" and ?h' = "sample_modern_header 9 1754967090\<lparr>slot_number := Some 1\<rparr>"
  have ok: "validate_unsealed_header_fields dencun_constants 0 sample_parlia ?h = Inr ()" by code_simp
  have bohr: "is_bohr_active_at_timestamp (spec sample_parlia) (number ?h) (timestamp ?h)" by code_simp
  have "slot_number ?h \<noteq> slot_number ?h'" by (simp add: sample_modern_header_def sample_header_def)
  then have "?h \<noteq> ?h'" by metis
  moreover have "encode_header_fields ?h 56 = encode_header_fields ?h' 56"
    by (simp add: encode_header_fields_def encode_optional_fields_def signed_extra_data_def split: option.splits)
  ultimately show ?thesis
    using seal_binds_header [OF bohr ok, of ?h' 56] ok by auto
qed

text \<open>
  From Lorentz on, the mix digest check is exact despite wrap-around: it accepts a header
  exactly when the millisecond part is below 1000 and the millisecond timestamp fits into 64 bits.
\<close>

theorem mix_digest_exact:
  "validate_mix_digest_for_parlia h True = Inr () \<longleftrightarrow>
     unat (millisecond_remainder h) < 1000 \<and>
     unat (timestamp h) * 1000 + unat (millisecond_remainder h) < 2 ^ 64"
  using div_1000_exact [of "timestamp h" "millisecond_remainder h"]
  by (simp add: validate_mix_digest_for_parlia_def calculate_millisecond_timestamp_def)

text \<open>
  C22. From Mendel on the blob fee changes only every fifth block: the blocks after one whose number
  is 1 modulo 5, up to the next multiple of 5, repeat its excess blob gas and have its blob fee,
  and of these only the last may carry blobs.
\<close>

theorem blob_fee_constant_in_window:
  assumes "successively (blob_child maybe_next genesis_excess bp cs) (h # hs)"
    and "repriced h" and "length hs \<le> 4"
    and "\<forall>x \<in> set hs. is_mendel_active_at_timestamp cs (number x) (timestamp x)"
    and "\<forall>x \<in> set (h # hs). is_lorentz_active_at_timestamp cs (number x) (timestamp x)"
    and "i < length hs"
  shows "excess_blob_gas (hs ! i) = Some (unwrap_or (excess_blob_gas h) 0) \<and>
         calc_blob_fee fake_exponential bc cs (hs ! i) = calc_blob_fee fake_exponential bc cs h \<and>
         (is_blob_eligible_block cs (number (hs ! i)) (timestamp (hs ! i)) \<longleftrightarrow> i = 3)"
proof -
  have mem: "hs ! i \<in> set hs" using assms(6) by simp
  have excess: "excess_blob_gas (hs ! i) = Some (unwrap_or (excess_blob_gas h) 0)"
    using window_excess [OF assms(1) _ mem] window_not_repriced(2) [OF assms(1-3)] assms(4)
    by (metis in_set_conv_nth)
  have frac: "get_update_fraction bc cs (timestamp x) = Some (pectra_update_fraction bc)"
    if "x \<in> set (h # hs)" for x
  proof -
    have "active_at_timestamp cs (bsc_fork_activation cs Lorentz) (timestamp x)"
      using assms(5) that by (auto simp: is_lorentz_active_at_timestamp_def)
    then show ?thesis by (simp add: get_update_fraction_def)
  qed
  have "i < 4" using assms(3,6) by simp
  moreover have "unat (number h) = 5 * (unat (number h) div 5) + 1"
    using assms(2) mult_div_mod_eq [of 5 "unat (number h)"] by (simp add: repriced_def)
  ultimately have "5 dvd unat (number (hs ! i)) \<longleftrightarrow> i = 3"
    using window_not_repriced(1) [OF assms(1-3,6)] by presburger
  then have "is_blob_eligible_block cs (number (hs ! i)) (timestamp (hs ! i)) \<longleftrightarrow> i = 3"
    using assms(4) mem
    by (simp add: is_blob_eligible_block_def is_multiple_of_unat BLOB_ELIGIBLE_BLOCK_INTERVAL_def)
  then show ?thesis using excess frac mem by (simp add: calc_blob_fee_def)
qed

theorem blob_fee_constant_in_window_witness:
  "calc_blob_fee (\<lambda>a b c. a + b div c) dencun_constants qanet_spec
     (sample_modern_header 12 1785897001\<lparr>excess_blob_gas := Some 786432\<rparr>) =
   calc_blob_fee (\<lambda>a b c. a + b div c) dencun_constants qanet_spec
     (sample_modern_header 11 1785897000\<lparr>excess_blob_gas := Some 786432\<rparr>)"
proof -
  let ?h = "sample_modern_header 11 1785897000\<lparr>excess_blob_gas := Some 786432\<rparr>"
  let ?x = "sample_modern_header 12 1785897001\<lparr>excess_blob_gas := Some 786432\<rparr>"
  have "successively (blob_child (\<lambda>_ _. Some 0) 0 () qanet_spec) [?h, ?x]"
  proof -
    have "blob_child (\<lambda>_ _. Some 0) 0 () qanet_spec ?h ?x" by code_simp
    then show ?thesis by simp
  qed
  moreover have "repriced ?h" by (simp add: repriced_def sample_modern_header_def sample_header_def)
  moreover have "\<forall>x \<in> set [?x]. is_mendel_active_at_timestamp qanet_spec (number x) (timestamp x)" by code_simp
  moreover have "\<forall>x \<in> set [?h, ?x]. is_lorentz_active_at_timestamp qanet_spec (number x) (timestamp x)" by code_simp
  ultimately show ?thesis
    using blob_fee_constant_in_window [of "\<lambda>_ _. Some 0" 0 "()" qanet_spec ?h "[?x]" 0] by simp
qed

end
