(* ===== verification/Attestation.thy ===== *)
theory Attestation
  imports HeaderValidation
begin

text \<open>
  \<open>assemble_vote_attestation\<close> of \<open>src/consensus/parlia/consensus.rs\<close>: the proposer collects the
  votes on the parent (from Fermi on, on one of the last three ancestors), checks the quorum of
  two thirds of the validators, aggregates the signatures and appends the attestation to the
  extra data.

  The record \<open>attest_env\<close> holds what the function reads from elsewhere: the block hash, the hash
  of vote data, the snapshot and header providers, the vote pool, the BLS operations and the RLP
  encoder. Metrics and logging are left out.
\<close>

section \<open>Environment\<close>

record 'sig attest_env =
  env_hash :: "header \<Rightarrow> b256"
  env_vote_hash :: "vote_data \<Rightarrow> b256"
  env_snapshot :: "b256 \<Rightarrow> snapshot option"
  env_header_by_number :: "u64 \<Rightarrow> header option"
  env_header_by_hash :: "b256 \<Rightarrow> header option"
  env_fetch_votes :: "b256 \<Rightarrow> u64 \<Rightarrow> vote_envelope list"
  env_sig_from_bytes :: "vote_signature \<Rightarrow> 'sig option"
  env_aggregate :: "'sig list \<Rightarrow> vote_signature option"
  env_encode :: "vote_attestation \<Rightarrow> bytes"

section \<open>Operations\<close>

definition quorum :: "nat \<Rightarrow> nat" where
  "quorum n = (n * 2 + 2) div 3"

definition justified_checkpoint ::
  "'sig attest_env \<Rightarrow> snapshot \<Rightarrow> parlia_consensus_error + (u64 \<times> b256)" where
  "justified_checkpoint env parent_snap =
     (let jn = target_number (vote_data parent_snap); jh = target_hash (vote_data parent_snap) in
      if jh = 0 then
        (case env_header_by_number env 0 of
           Some genesis \<Rightarrow> Inr (number genesis, env_hash env genesis)
         | None \<Rightarrow> Inl (HeaderNotFound 0))
      else Inr (jn, jh))"

text \<open>
  The search for a target with enough votes; the first component is the snapshot of the target's
  parent when one was found.
\<close>

fun search_target ::
  "'sig attest_env \<Rightarrow> u64 \<Rightarrow> nat \<Rightarrow> header \<Rightarrow>
     parlia_consensus_error + (snapshot \<times> header \<times> vote_envelope list) option" where
  "search_target env justified_number 0 target_header = Inr None"
| "search_target env justified_number (Suc n) target_header =
     (case env_snapshot env (parent_hash target_header) of
        None \<Rightarrow> Inl (SnapshotNotFound (parent_hash target_header))
      | Some snap \<Rightarrow>
          (let votes = env_fetch_votes env (env_hash env target_header) justified_number in
           if quorum (length (validators snap)) \<le> length votes then Inr (Some (snap, target_header, votes))
           else
             (case env_header_by_hash env (parent_hash target_header) of
                None \<Rightarrow> Inl (HeaderNotFound (parent_hash target_header))
              | Some h \<Rightarrow>
                  if number h \<le> justified_number then Inr None
                  else search_target env justified_number n h)))"

definition known_voter :: "snapshot \<Rightarrow> vote_address \<Rightarrow> bool" where
  "known_voter snap a \<longleftrightarrow> (\<exists>info \<in> set (map snd (validators_map snap)). vote_addr info = a)"

definition unique_by_addr :: "snapshot \<Rightarrow> vote_envelope list \<Rightarrow> (vote_address, vote_signature) hash_map" where
  "unique_by_addr snap votes =
     fold (\<lambda>vote m.
         if known_voter snap (vote_address vote) then
           (case map_of m (vote_address vote) of
              None \<Rightarrow> AList.update (vote_address vote) (signature vote) m
            | Some _ \<Rightarrow> m)
         else m) votes []"

definition ordered_unique ::
  "snapshot \<Rightarrow> vote_envelope list \<Rightarrow> (u64 \<times> vote_address \<times> vote_signature) list" where
  "ordered_unique snap votes =
     (let m = unique_by_addr snap votes in
      List.map_filter (\<lambda>info. map_option (\<lambda>sig. (info_index info, vote_addr info, sig))
                            (map_of m (vote_addr info)))
        (map snd (validators_map snap)))"

text \<open>A shift by 64 or more uses the low six bits of the amount.\<close>

definition vote_bitset :: "u64 list \<Rightarrow> u64" where
  "vote_bitset indices = fold (\<lambda>index s. s OR push_bit (unat (index - 1) mod 64) 1) indices 0"

definition count_ones :: "u64 \<Rightarrow> nat" where
  [rust_std]: "count_ones w = length (filter (bit w) [0..<64])"

definition build_attestation ::
  "'sig attest_env \<Rightarrow> snapshot \<Rightarrow> vote_data \<Rightarrow> vote_envelope list \<Rightarrow>
     parlia_consensus_error + vote_attestation option" where
  "build_attestation env snap vd votes =
     (let attestation = new_with_vote_data vd in
      case find (\<lambda>vote. env_vote_hash env (data vote) \<noteq> env_vote_hash env (att_data attestation)) votes of
        Some vote \<Rightarrow> Inl (FetchVoteError (vote_address vote))
      | None \<Rightarrow>
          (let ordered = ordered_unique snap votes in
           if length ordered < quorum (length (validators snap)) then Inr None
           else
             res_bind (ok_or (those (map (\<lambda>(_, _, sig). env_sig_from_bytes env sig) ordered))
                         AggregateSignatureError) (\<lambda>sigs.
             res_bind (ok_or (env_aggregate env sigs) AggregateSignatureError) (\<lambda>agg.
               (let attestation' = attestation\<lparr>agg_signature := agg,
                      vote_address_set := vote_address_set attestation OR vote_bitset (map fst ordered)\<rparr>;
                    ones = count_ones (vote_address_set attestation')
                in if ones \<noteq> length ordered
                   then Inl (InvalidAttestationVoteCount (word_of_nat ones) (word_of_nat (length ordered)))
                   else Inr (Some attestation'))))))"

definition attestation_depth :: "parlia \<Rightarrow> header \<Rightarrow> nat" where
  "attestation_depth p h =
     (if is_fermi_active_at_timestamp (spec p) (number h) (timestamp h)
      then K_ANCESTOR_GENERATION_DEPTH else 1)"

definition assemble_vote_attestation ::
  "'sig attest_env \<Rightarrow> parlia \<Rightarrow> snapshot \<Rightarrow> header \<Rightarrow> header \<Rightarrow> parlia_consensus_error + header" where
  "assemble_vote_attestation env p parent_snap parent_header h =
     (if \<not> is_luban_active_at_block (spec p) (number h) \<or> number h < 3 then Inr h
      else
        res_bind (justified_checkpoint env parent_snap) (\<lambda>(jn, jh).
        res_bind (search_target env jn (attestation_depth p h) parent_header) (\<lambda>found.
          case found of
            None \<Rightarrow> Inr h
          | Some (snap, target_header, votes) \<Rightarrow>
              res_bind (build_attestation env snap
                  \<lparr>source_number = jn, source_hash = jh,
                   target_number = number target_header, target_hash = env_hash env target_header\<rparr> votes)
                (\<lambda>built. case built of
                   None \<Rightarrow> Inr h
                 | Some attestation \<Rightarrow>
                     Inr (h\<lparr>extra_data := extra_data h @ env_encode env attestation\<rparr>)))))"

section \<open>Facts\<close>

lemma quorum_bounds: "2 * n \<le> 3 * quorum n" "quorum n \<le> n"
  unfolding quorum_def by presburger+

lemma unique_by_addr_get:
  "map_of (unique_by_addr snap votes) a =
     (if known_voter snap a then map_option signature (find (\<lambda>v. vote_address v = a) votes) else None)"
proof -
  have "map_of (fold (\<lambda>vote m. if known_voter snap (vote_address vote) then
          (case map_of m (vote_address vote) of None \<Rightarrow> AList.update (vote_address vote) (signature vote) m
            | Some _ \<Rightarrow> m) else m) votes m) a =
        (case map_of m a of Some s \<Rightarrow> Some s
         | None \<Rightarrow> if known_voter snap a then map_option signature (find (\<lambda>v. vote_address v = a) votes) else None)"
    for m
    by (induction votes arbitrary: m) (auto simp: update_conv' split: option.splits)
  from this [of "[]"] show ?thesis by (simp add: unique_by_addr_def)
qed

text \<open>The validators whose vote address signed one of the votes, in the order of the map.\<close>

definition voted :: "vote_envelope list \<Rightarrow> validator_info \<Rightarrow> bool" where
  "voted votes info \<longleftrightarrow> (\<exists>v \<in> set votes. vote_address v = vote_addr info)"

definition voters :: "snapshot \<Rightarrow> vote_envelope list \<Rightarrow> validator_info list" where
  "voters snap votes = filter (voted votes) (map snd (validators_map snap))"

lemma ordered_unique_eq:
  "ordered_unique snap votes =
     map (\<lambda>info. (info_index info, vote_addr info,
                  signature (the (find (\<lambda>v. vote_address v = vote_addr info) votes)))) (voters snap votes)"
proof -
  have get: "map_of (unique_by_addr snap votes) (vote_addr info) =
      (if voted votes info then Some (signature (the (find (\<lambda>v. vote_address v = vote_addr info) votes))) else None)"
    if "info \<in> set (map snd (validators_map snap))" for info
  proof -
    have "known_voter snap (vote_addr info)" using that by (auto simp: known_voter_def)
    moreover have "voted votes info \<longleftrightarrow> find (\<lambda>v. vote_address v = vote_addr info) votes \<noteq> None"
      by (auto simp: voted_def find_None_iff)
    ultimately show ?thesis by (auto simp: unique_by_addr_get)
  qed
  have "List.map_filter (\<lambda>info. map_option (\<lambda>sig. (info_index info, vote_addr info, sig))
          (map_of (unique_by_addr snap votes) (vote_addr info))) infos =
        map (\<lambda>info. (info_index info, vote_addr info,
               signature (the (find (\<lambda>v. vote_address v = vote_addr info) votes)))) (filter (voted votes) infos)"
    if "set infos \<subseteq> set (map snd (validators_map snap))" for infos
    using that by (induction infos) (auto simp: map_filter_simps get)
  then show ?thesis by (simp add: ordered_unique_def voters_def Let_def)
qed

lemma bit_vote_bitset:
  "bit (vote_bitset indices) i \<longleftrightarrow> i < 64 \<and> (\<exists>x \<in> set indices. unat (x - 1) mod 64 = i)"
proof -
  have "bit (fold (\<lambda>index s. s OR push_bit (unat (index - 1) mod 64) 1) indices s) i \<longleftrightarrow>
          bit s i \<or> i < 64 \<and> (\<exists>x \<in> set indices. unat (x - 1) mod 64 = i)" for s :: u64
    by (induction indices arbitrary: s) (auto simp: bit_simps)
  then show ?thesis by (simp add: vote_bitset_def)
qed

lemma count_ones_card: "count_ones w = card {i. bit w i}"
proof -
  have "{i. bit w i} = set (filter (bit w) [0..<64])" by (auto dest: bit_imp_le_length)
  then show ?thesis
    by (simp only: count_ones_def distinct_card distinct_filter distinct_upt)
qed

text \<open>
  In a well-formed snapshot of at most 64 validators the bit of a validator is its position in
  the list, and different validators have different bits.
\<close>

definition bit_position :: "validator_info \<Rightarrow> nat" where
  "bit_position info = unat (info_index info - 1)"

lemma bit_position_nth:
  assumes "map_indexes vs m" and "(v, info) \<in> set m" and "length vs \<le> 64"
  shows "bit_position info < length vs \<and> vs ! bit_position info = v"
proof -
  obtain i where i: "i < length vs" "vs ! i = v" "info_index info = word_of_nat i + 1"
    using assms(1,2) by (fastforce simp: map_indexes_def)
  then have "bit_position info = i"
    using assms(3) by (simp add: bit_position_def unat_word_of_nat)
  with i show ?thesis by simp
qed

lemma distinct_bit_positions:
  assumes "map_indexes vs m" and "length vs \<le> 64"
  shows "distinct (map bit_position (map snd m))"
proof -
  have "map (\<lambda>i. vs ! i) (map bit_position (map snd m)) = map fst m"
    using bit_position_nth [OF assms(1) _ assms(2)] by (auto simp: comp_def)
  moreover have "distinct (map fst m)" using assms(1) by (simp add: map_indexes_def hm_wf_def)
  ultimately show ?thesis by (metis distinct_map)
qed

lemma voters_positions:
  assumes "snap_wf snap" and "length (validators snap) \<le> 64"
  shows "distinct (map bit_position (voters snap votes))"
    and "bit_position ` set (voters snap votes) \<subseteq> {..<length (validators snap)}"
    and "{i. bit (vote_bitset (map info_index (voters snap votes))) i} = bit_position ` set (voters snap votes)"
proof -
  have m: "map_indexes (validators snap) (validators_map snap)" using assms(1) by (simp add: snap_wf_def)
  show "distinct (map bit_position (voters snap votes))"
    unfolding voters_def by (rule distinct_map_filter) (rule distinct_bit_positions [OF m assms(2)])
  show sub: "bit_position ` set (voters snap votes) \<subseteq> {..<length (validators snap)}"
    using bit_position_nth [OF m _ assms(2)] by (auto simp: voters_def)
  have "bit_position info < 64" if "info \<in> set (voters snap votes)" for info
    using sub that assms(2) by fastforce
  then have "bit (vote_bitset (map info_index (voters snap votes))) i \<longleftrightarrow>
      i \<in> bit_position ` set (voters snap votes)" for i
    by (auto simp: bit_vote_bitset bit_position_def)
  then show "{i. bit (vote_bitset (map info_index (voters snap votes))) i} = bit_position ` set (voters snap votes)"
    by blast
qed

lemma voters_bit_count:
  assumes "snap_wf snap" and "length (validators snap) \<le> 64"
  shows "count_ones (vote_bitset (map info_index (voters snap votes))) = length (voters snap votes)"
  using voters_positions [OF assms, of votes]
  by (simp add: count_ones_card) (metis distinct_card length_map set_map)

text \<open>A bit set in both bit sets belongs to one validator, which voted in both.\<close>

lemma common_voter:
  assumes "snap_wf snap" and "length (validators snap) \<le> 64"
    and "i \<in> bit_position ` set (voters snap votes1)" and "i \<in> bit_position ` set (voters snap votes2)"
  shows "\<exists>v1 \<in> set votes1. \<exists>v2 \<in> set votes2. vote_address v1 = vote_address v2"
proof -
  obtain x y where xy: "x \<in> set (voters snap votes1)" "y \<in> set (voters snap votes2)"
    "bit_position x = i" "bit_position y = i"
    using assms(3,4) by (auto simp del: set_map)
  have "inj_on bit_position (set (map snd (validators_map snap)))"
    using distinct_bit_positions [of "validators snap" "validators_map snap"] assms(1,2)
    by (simp add: snap_wf_def distinct_map del: map_map)
  then have "x = y" using xy by (auto simp: voters_def dest: inj_onD)
  then obtain v1 v2 where "v1 \<in> set votes1" "v2 \<in> set votes2"
    "vote_address v1 = vote_addr x" "vote_address v2 = vote_addr x"
    using xy by (auto simp: voters_def voted_def)
  then show ?thesis by metis
qed

lemma build_attestation_Some:
  assumes "build_attestation env snap vd votes = Inr (Some att)"
  shows "\<forall>v \<in> set votes. env_vote_hash env (data v) = env_vote_hash env vd"
    and "quorum (length (validators snap)) \<le> length (voters snap votes)"
    and "vote_address_set att = vote_bitset (map info_index (voters snap votes))"
    and "att_data att = vd"
  using assms
  by (auto simp: build_attestation_def Let_def new_with_vote_data_def ordered_unique_eq comp_def
      find_None_iff split: option.splits if_splits)

lemma build_attestation_count:
  "build_attestation env snap vd votes = Inr (Some att) \<Longrightarrow>
     count_ones (vote_address_set att) = length (voters snap votes)"
  by (auto simp: build_attestation_def Let_def new_with_vote_data_def ordered_unique_eq
      split: option.splits if_splits)

lemma those_map_defined:
  "(\<And>x. x \<in> set xs \<Longrightarrow> f x \<noteq> None) \<Longrightarrow> \<exists>ys. those (map f xs) = Some ys \<and> length ys = length xs"
  by (induction xs) (auto, force)

lemma decoded_signatures:
  assumes "\<And>v. v \<in> set votes \<Longrightarrow> env_sig_from_bytes env (signature v) \<noteq> None"
  shows "\<exists>sigs. those (map (\<lambda>(_, _, sig). env_sig_from_bytes env sig) (ordered_unique snap votes)) = Some sigs \<and>
     length sigs = length (voters snap votes)"
proof -
  have "case x of (_, _, sig) \<Rightarrow> env_sig_from_bytes env sig \<noteq> None" if x: "x \<in> set (ordered_unique snap votes)" for x
  proof -
    obtain info where info: "info \<in> set (voters snap votes)" and
      x': "x = (info_index info, vote_addr info,
             signature (the (find (\<lambda>v. vote_address v = vote_addr info) votes)))"
      using x by (auto simp: ordered_unique_eq)
    obtain v where "find (\<lambda>v. vote_address v = vote_addr info) votes = Some v"
      using info by (cases "find (\<lambda>v. vote_address v = vote_addr info) votes")
        (auto simp: voters_def voted_def find_None_iff)
    moreover from this have "v \<in> set votes" by (auto simp: find_Some_iff)
    ultimately show ?thesis using x' assms by simp
  qed
  then have "\<exists>sigs. those (map (\<lambda>(_, _, sig). env_sig_from_bytes env sig) (ordered_unique snap votes)) = Some sigs \<and>
      length sigs = length (ordered_unique snap votes)"
    by (intro those_map_defined) fastforce
  then show ?thesis by (simp add: ordered_unique_eq)
qed

lemma build_attestation_votes_agree:
  assumes "snap_wf snap" and "length (validators snap) \<le> 64"
    and "\<forall>v \<in> set votes. env_vote_hash env (data v) = env_vote_hash env vd"
  shows "build_attestation env snap vd votes =
     (if length (voters snap votes) < quorum (length (validators snap)) then Inr None
      else res_bind (ok_or (those (map (\<lambda>(_, _, sig). env_sig_from_bytes env sig) (ordered_unique snap votes)))
                AggregateSignatureError) (\<lambda>sigs.
           res_bind (ok_or (env_aggregate env sigs) AggregateSignatureError) (\<lambda>agg.
             Inr (Some \<lparr>vote_address_set = vote_bitset (map info_index (voters snap votes)),
                       agg_signature = agg, att_data = vd, att_extra = []\<rparr>))))"
proof -
  have "find (\<lambda>vote. env_vote_hash env (data vote) \<noteq> env_vote_hash env vd) votes = None"
    using assms(3) by (simp add: find_None_iff)
  moreover have "map fst (ordered_unique snap votes) = map info_index (voters snap votes)"
    "length (ordered_unique snap votes) = length (voters snap votes)"
    by (simp_all add: ordered_unique_eq)
  ultimately show ?thesis
    by (simp add: build_attestation_def Let_def new_with_vote_data_def voters_bit_count [OF assms(1,2)])
qed

lemma card_common:
  assumes "A \<subseteq> {..<n}" and "B \<subseteq> {..<n}" and "quorum n \<le> card A" and "quorum n \<le> card B"
  shows "n \<le> 3 * card (A \<inter> B)"
proof -
  have "finite A" "finite B" using assms(1,2) finite_subset by blast+
  then have "card A + card B = card (A \<union> B) + card (A \<inter> B)" by (rule card_Un_Int)
  moreover have "card (A \<union> B) \<le> n"
    using assms(1,2) card_mono [of "{..<n}" "A \<union> B"] by simp
  ultimately show ?thesis using assms(3,4) quorum_bounds(1) [of n] by linarith
qed

text \<open>A target that the search returns: the first header, or one above the justified block.\<close>

lemma search_target_step:
  "search_target env jn (Suc n) target = Inr (Some (snap, th, votes)) \<longleftrightarrow>
     env_snapshot env (parent_hash target) \<noteq> None \<and>
     (let s = the (env_snapshot env (parent_hash target));
          vs = env_fetch_votes env (env_hash env target) jn
      in if quorum (length (validators s)) \<le> length vs
         then snap = s \<and> th = target \<and> votes = vs
         else (\<exists>h. env_header_by_hash env (parent_hash target) = Some h \<and> jn < number h \<and>
                 search_target env jn n h = Inr (Some (snap, th, votes))))"
  by (cases "env_snapshot env (parent_hash target)"; cases "env_header_by_hash env (parent_hash target)")
    (auto simp: Let_def not_le)

lemma search_target_Some:
  assumes "search_target env jn n target = Inr (Some (snap, th, votes))"
  shows "env_snapshot env (parent_hash th) = Some snap \<and>
         votes = env_fetch_votes env (env_hash env th) jn \<and> (th = target \<or> jn < number th)"
  using assms
proof (induction n arbitrary: target)
  case (Suc n)
  show ?case
    using Suc.prems Suc.IH unfolding search_target_step Let_def by (auto split: if_splits)
qed simp

section \<open>Sample data\<close>

text \<open>Three validators with vote addresses 11, 12, 13, and an environment whose pool holds given votes.\<close>

definition sample_voter_snapshot :: snapshot where
  "sample_voter_snapshot = sample_snapshot 10 [1, 2, 3] 1 200
     \<lparr>validators_map := the (build_validators_map [1, 2, 3] (Some [11, 12, 13]))\<rparr>"

definition sample_vote_data :: "u64 \<Rightarrow> vote_data" where
  "sample_vote_data n = \<lparr>source_number = 9, source_hash = 9, target_number = n, target_hash = ucast n\<rparr>"

definition sample_votes :: "vote_address list \<Rightarrow> vote_data \<Rightarrow> vote_envelope list" where
  "sample_votes as vd = map (\<lambda>a. \<lparr>vote_address = a, signature = ucast a, data = vd\<rparr>) as"

definition sample_env :: "vote_envelope list \<Rightarrow> vote_signature attest_env" where
  "sample_env votes =
     \<lparr>env_hash = number_hash, env_vote_hash = target_hash, env_snapshot = \<lambda>_. Some sample_voter_snapshot,
      env_header_by_number = \<lambda>_. None, env_header_by_hash = \<lambda>_. None, env_fetch_votes = \<lambda>_ _. votes,
      env_sig_from_bytes = Some, env_aggregate = \<lambda>sigs. Some (sum_list sigs),
      env_encode = \<lambda>att. [ucast (vote_address_set att)]\<rparr>"

lemma sample_voter_snapshot_wf: "snap_wf sample_voter_snapshot" "length (validators sample_voter_snapshot) = 3"
  by code_simp+

definition is_attested :: "parlia_consensus_error + vote_attestation option \<Rightarrow> bool" where
  "is_attested r = (case r of Inr (Some _) \<Rightarrow> True | _ \<Rightarrow> False)"

lemma is_attestedE:
  assumes "is_attested r"
  obtains a where "r = Inr (Some a)"
  using assms by (auto simp: is_attested_def split: sum.splits option.splits)

section \<open>Properties\<close>



lemma build_attestation_complete:
  assumes "snap_wf snap" and "validators snap \<noteq> []" and "length (validators snap) \<le> 64"
    and "\<forall>v \<in> set votes. env_vote_hash env (data v) = env_vote_hash env vd \<and>
                         env_sig_from_bytes env (signature v) \<noteq> None"
    and "\<And>sigs. sigs \<noteq> [] \<Longrightarrow> env_aggregate env sigs \<noteq> None"
  shows "if 2 * length (validators snap) \<le> 3 * length (voters snap votes)
         then \<exists>att. build_attestation env snap vd votes = Inr (Some att) \<and> att_data att = vd \<and>
                count_ones (vote_address_set att) = length (voters snap votes)
         else build_attestation env snap vd votes = Inr None"
proof -
  have q: "2 * length (validators snap) \<le> 3 * length (voters snap votes) \<longleftrightarrow>
      quorum (length (validators snap)) \<le> length (voters snap votes)"
    unfolding quorum_def by presburger
  have "\<exists>sigs. those (map (\<lambda>(_, _, sig). env_sig_from_bytes env sig) (ordered_unique snap votes)) = Some sigs \<and>
      length sigs = length (voters snap votes)"
    using assms(4) by (intro decoded_signatures) blast
  then obtain sigs where
    sigs: "those (map (\<lambda>(_, _, sig). env_sig_from_bytes env sig) (ordered_unique snap votes)) = Some sigs"
      "length sigs = length (voters snap votes)" by blast
  have "env_aggregate env sigs \<noteq> None" if "quorum (length (validators snap)) \<le> length (voters snap votes)"
    using that sigs(2) assms(2,5) quorum_bounds(1) [of "length (validators snap)"]
    by (cases "validators snap"; cases sigs) auto
  then show ?thesis
    using build_attestation_votes_agree [of snap votes env vd] assms(1,3,4) sigs(1)
      voters_bit_count [OF assms(1,3), of votes]
    by (auto simp: q not_le)
qed

text \<open>
  C17. Enough votes always produce an attestation: on a well-formed snapshot of 1 to 64 validators,
  when the votes carry the attested data and valid signatures, the attestation is built exactly
  when validators with at least two thirds of the seats have voted; in particular the final count
  of bits never rejects it.
\<close>

theorem attestation_complete:
  assumes "snap_wf snap" and "validators snap \<noteq> []" and "length (validators snap) \<le> 64"
    and "\<forall>v \<in> set votes. env_vote_hash env (data v) = env_vote_hash env vd \<and>
                         env_sig_from_bytes env (signature v) \<noteq> None"
    and "\<And>sigs. sigs \<noteq> [] \<Longrightarrow> env_aggregate env sigs \<noteq> None"
  shows "if 2 * length (validators snap) \<le> 3 * length (voters snap votes)
         then \<exists>att. build_attestation env snap vd votes = Inr (Some att) \<and> att_data att = vd \<and>
                count_ones (vote_address_set att) = length (voters snap votes)
         else build_attestation env snap vd votes = Inr None"
  using assms by (rule build_attestation_complete)

theorem attestation_complete_witness:
  "\<exists>att. build_attestation (sample_env []) sample_voter_snapshot (sample_vote_data 10)
      (sample_votes [12, 13] (sample_vote_data 10)) = Inr (Some att) \<and>
     att_data att = sample_vote_data 10 \<and> count_ones (vote_address_set att) = 2"
proof -
  let ?votes = "sample_votes [12, 13] (sample_vote_data 10)"
  have "\<forall>v \<in> set ?votes. env_vote_hash (sample_env []) (data v) = env_vote_hash (sample_env []) (sample_vote_data 10) \<and>
      env_sig_from_bytes (sample_env []) (signature v) \<noteq> None"
    by (simp add: sample_votes_def sample_env_def)
  moreover have "length (voters sample_voter_snapshot ?votes) = 2" by code_simp
  moreover have "validators sample_voter_snapshot \<noteq> []" by code_simp
  ultimately show ?thesis
    using attestation_complete [of sample_voter_snapshot ?votes "sample_env []" "sample_vote_data 10"]
      sample_voter_snapshot_wf by (simp add: sample_env_def)
qed



end
