(* ===== verification/Sealing.thy ===== *)
theory Sealing
  imports Attestation
begin

text \<open>
  Building the header of a new block: \<open>src/node/miner/util.rs\<close> (the temporary header, the payload
  attributes, finalizing and refreshing a header) and the block signer of
  \<open>src/node/miner/signer.rs\<close>.

  The secp256k1 signing operations are the record \<open>signer_lib\<close>; the global signer is the secret it
  was set to, if any. The seal hash is \<open>hash_with_chain_id\<close> with the chain id, an argument here.
  Several readings of the wall clock in one function are several arguments. Error messages are
  left out. \<open>None\<close> of the outer option is a panic.
\<close>

section \<open>The signer\<close>

datatype signer_error = NotInitialized | AlreadyInitialized | SigningFailed

record 'sk signer_lib =
  sk_from_slice :: "bytes \<Rightarrow> 'sk option"
  sk_secret_bytes :: "'sk \<Rightarrow> bytes"
  sign_ecdsa_recoverable :: "b256 \<Rightarrow> 'sk \<Rightarrow> int \<times> bytes"

type_synonym global_signer = "bytes option"

definition init_global_signer ::
  "'sk signer_lib \<Rightarrow> b256 \<Rightarrow> global_signer \<Rightarrow> (signer_error + unit) \<times> global_signer" where
  "init_global_signer lib private_key g =
     (case sk_from_slice lib (to_be 32 private_key) of
        None \<Rightarrow> (Inl SigningFailed, g)
      | Some sk \<Rightarrow>
          (case g of
             None \<Rightarrow> (Inr (), Some (sk_secret_bytes lib sk))
           | Some _ \<Rightarrow> (Inl AlreadyInitialized, g)))"

definition seal_header ::
  "'sk signer_lib \<Rightarrow> (header \<Rightarrow> b256) \<Rightarrow> bytes \<Rightarrow> header \<Rightarrow> signer_error + bytes" where
  "seal_header lib seal_hash secret h =
     (let hash_data = seal_hash h in
      case sk_from_slice lib secret of
        None \<Rightarrow> Inl SigningFailed
      | Some sk \<Rightarrow>
          (let (recovery_id, signature_bytes) = sign_ecdsa_recoverable lib hash_data sk
           in Inr (signature_bytes @ [word_of_int recovery_id])))"

definition seal_header_with_global_signer ::
  "'sk signer_lib \<Rightarrow> (header \<Rightarrow> b256) \<Rightarrow> global_signer \<Rightarrow> header \<Rightarrow> signer_error + bytes" where
  "seal_header_with_global_signer lib seal_hash g h =
     (case g of None \<Rightarrow> Inl NotInitialized | Some secret \<Rightarrow> seal_header lib seal_hash secret h)"

section \<open>Preparing a header\<close>

text \<open>
  \<open>default_header\<close> is the library's default, \<open>cancun_params\<close> the blob parameters of the chain
  from Cancun on (\<open>blob_params_at_timestamp\<close>).
\<close>

definition blob_params_at_timestamp :: "(u64 \<Rightarrow> bool) \<Rightarrow> 'bp \<Rightarrow> u64 \<Rightarrow> 'bp option" where
  "blob_params_at_timestamp eth_cancun_active cancun_params ts =
     (if eth_cancun_active ts then Some cancun_params else None)"

definition prepare_new_header ::
  "(header \<Rightarrow> b256) \<Rightarrow> header \<Rightarrow> (header \<Rightarrow> 'bp \<Rightarrow> u64 option) \<Rightarrow> u64 \<Rightarrow> (u64 \<Rightarrow> 'bp option) \<Rightarrow>
     u64 \<Rightarrow> parlia \<Rightarrow> header \<Rightarrow> address \<Rightarrow> header" where
  "prepare_new_header hash default_header maybe_next genesis_excess blob_params now p parent signer =
     (let ts0 = now div 1000;
          ts = (if timestamp parent \<ge> ts0 then timestamp parent + 1 else ts0);
          h = default_header\<lparr>number := number parent + 1, parent_hash := hash parent,
                beneficiary := signer, timestamp := ts\<rparr>
      in if is_cancun_active_at_timestamp (spec p) (number h) (timestamp h)
         then h\<lparr>excess_blob_gas := next_block_excess_blob_gas_with_mendel maybe_next genesis_excess
                  (spec p) (number h) (timestamp h) parent (blob_params (timestamp h))\<rparr>
         else h)"

record mining_context =
  ctx_header :: "header option"
  ctx_parent_header :: header
  ctx_parent_snapshot :: snapshot
  ctx_is_inturn :: bool
  ctx_block_timestamp_ms :: u64
  ctx_end_mining_timestamp_ms :: u128

record payload_attributes =
  attr_timestamp :: u64
  attr_suggested_fee_recipient :: address
  attr_prev_randao :: b256
  attr_parent_beacon_block_root :: "b256 option"

definition prepare_new_attributes ::
  "(header \<Rightarrow> b256) \<Rightarrow> header \<Rightarrow> (header \<Rightarrow> 'bp \<Rightarrow> u64 option) \<Rightarrow> u64 \<Rightarrow> (u64 \<Rightarrow> 'bp option) \<Rightarrow>
     (u64 \<Rightarrow> u64) \<Rightarrow> u64 \<Rightarrow> u64 \<Rightarrow> u128 \<Rightarrow> u64 \<Rightarrow> parlia \<Rightarrow> mining_context \<Rightarrow> header \<Rightarrow> address \<Rightarrow>
     (payload_attributes \<times> mining_context) option" where
  "prepare_new_attributes hash default_header maybe_next genesis_excess blob_params random_range
       now1 now2 now3 now4 p ctx parent signer =
     do {
       let h0 = prepare_new_header hash default_header maybe_next genesis_excess blob_params now1 p parent signer;
       (h, ms) \<leftarrow> prepare_timestamp now2 p (ctx_parent_snapshot ctx) parent h0;
       let end_mining_delay_ms = delay_for_ramanujan_fork now4 random_range p (ctx_parent_snapshot ctx) h;
       d \<leftarrow> calculate_difficulty (ctx_parent_snapshot ctx) signer;
       let attributes =
         \<lparr>attr_timestamp = timestamp h, attr_suggested_fee_recipient = beneficiary h,
          attr_prev_randao = d,
          attr_parent_beacon_block_root =
            (if is_bohr_active_at_timestamp (spec p) (number h) (timestamp h) then Some 0 else None)\<rparr>;
       Some (attributes, ctx\<lparr>ctx_block_timestamp_ms := ms,
               ctx_end_mining_timestamp_ms := now3 + ucast end_mining_delay_ms,
               ctx_header := Some h\<rparr>)
     }"

text \<open>
  The validators for the next block, read from the parent's state (\<open>validators_at_parent\<close>, an
  argument, \<open>None\<close> when the read fails) through the validator cache.
\<close>

definition epoch_validators_for_next_block ::
  "('c, b256, address list \<times> vote_address list) cache_ops \<Rightarrow> (header \<Rightarrow> b256) \<Rightarrow>
     (b256 \<Rightarrow> (address list \<times> vote_address list) option) \<Rightarrow> snapshot \<Rightarrow> header \<Rightarrow> 'c \<Rightarrow>
     (signer_error + (address list \<times> vote_address list) option) \<times> 'c" where
  "epoch_validators_for_next_block ops hash validators_at_parent parent_snap parent cache =
     (if \<not> is_multiple_of (number parent + 1) (epoch_num parent_snap) then (Inr None, cache)
      else
        (case c_get ops cache (hash parent) of
           Some vs \<Rightarrow> (Inr (Some vs), c_touch ops (hash parent) cache)
         | None \<Rightarrow>
             (case validators_at_parent (hash parent) of
                None \<Rightarrow> (Inl SigningFailed, cache)
              | Some vs \<Rightarrow> (Inr (Some vs), c_put ops (hash parent) vs cache))))"

section \<open>Finalizing and refreshing\<close>

definition pad_vanity :: "bytes \<Rightarrow> bytes" where
  "pad_vanity extra =
     (if length extra < EXTRA_VANITY_LEN then extra @ replicate (EXTRA_VANITY_LEN - length extra) 0 else extra)"

text \<open>The zero seal is appended, the header signed, and the signature copied over it.\<close>

definition append_seal ::
  "'sk signer_lib \<Rightarrow> (header \<Rightarrow> b256) \<Rightarrow> global_signer \<Rightarrow> header \<Rightarrow> (signer_error + unit) \<times> header" where
  "append_seal lib seal_hash g h =
     (let h1 = h\<lparr>extra_data := extra_data h @ replicate EXTRA_SEAL_LEN 0\<rparr> in
      case seal_header_with_global_signer lib seal_hash g h1 of
        Inl e \<Rightarrow> (Inl e, h1)
      | Inr seal_data \<Rightarrow>
          (let start = length (extra_data h1) - EXTRA_SEAL_LEN
           in (Inr (), h1\<lparr>extra_data := take start (extra_data h1) @ seal_data\<rparr>)))"

definition finalize_fields :: "parlia \<Rightarrow> u64 \<Rightarrow> u256 \<Rightarrow> header \<Rightarrow> header" where
  "finalize_fields p block_timestamp_ms d h =
     (let h1 = h\<lparr>difficulty := d\<rparr>;
          h2 = (if is_lorentz_active_at_timestamp (spec p) (number h1) (timestamp h1)
                then set_millisecond_part_of_timestamp block_timestamp_ms h1 else h1\<lparr>mix_hash := 0\<rparr>)
      in h2\<lparr>extra_data := pad_vanity (extra_data h2)\<rparr>)"

definition try_assemble ::
  "'sig attest_env \<Rightarrow> parlia \<Rightarrow> snapshot \<Rightarrow> header \<Rightarrow> header \<Rightarrow> header" where
  "try_assemble env p parent_snap parent h =
     (case assemble_vote_attestation env p parent_snap parent h of Inl _ \<Rightarrow> h | Inr h' \<Rightarrow> h')"

definition finalize_new_header ::
  "('c, b256, u8) cache_ops \<Rightarrow> 'sig attest_env \<Rightarrow> 'sk signer_lib \<Rightarrow> (header \<Rightarrow> b256) \<Rightarrow> global_signer \<Rightarrow>
     parlia \<Rightarrow> snapshot \<Rightarrow> header \<Rightarrow> u64 \<Rightarrow> (address list \<times> vote_address list) option \<Rightarrow> header \<Rightarrow> 'c \<Rightarrow>
     ((signer_error + unit) \<times> header \<times> 'c) option" where
  "finalize_new_header ops env lib seal_hash g p parent_snap parent block_timestamp_ms epoch_validators h cache =
     do {
       d \<leftarrow> calculate_difficulty parent_snap (beneficiary h);
       let h3 = finalize_fields p block_timestamp_ms d h;
       if is_multiple_of (number h3) (epoch_num parent_snap) \<and> epoch_validators = None
       then Some (Inl SigningFailed, h3, cache)
       else do {
         h4 \<leftarrow> (if is_multiple_of (number h3) (epoch_num parent_snap)
                then prepare_validators p parent_snap epoch_validators h3 else Some h3);
         let (h5, cache') = prepare_turn_length ops p parent_snap h4 cache;
         let h6 = try_assemble env p parent_snap parent h5;
         let (r, h7) = append_seal lib seal_hash g h6;
         Some (r, h7, cache')
       }
     }"

definition attestation_start :: "parlia \<Rightarrow> snapshot \<Rightarrow> header \<Rightarrow> nat option" where
  "attestation_start p parent_snap h =
     (if is_multiple_of (number h) (epoch_num parent_snap) then
        do {
          count \<leftarrow> index (extra_data h) EXTRA_VANITY_LEN;
          Some (EXTRA_VANITY_LEN + VALIDATOR_NUMBER_SIZE + unat count * VALIDATOR_BYTES_LEN_AFTER_LUBAN +
            (if is_bohr_active_at_timestamp (spec p) (number h) (timestamp h) then TURN_LENGTH_SIZE else 0))
        }
      else Some EXTRA_VANITY_LEN)"

definition refresh_vote_attestation_and_seal ::
  "'sig attest_env \<Rightarrow> 'sk signer_lib \<Rightarrow> (header \<Rightarrow> b256) \<Rightarrow> global_signer \<Rightarrow>
     parlia \<Rightarrow> snapshot \<Rightarrow> header \<Rightarrow> header \<Rightarrow> header option" where
  "refresh_vote_attestation_and_seal env lib seal_hash g p parent_snap parent h =
     (if \<not> is_luban_active_at_block (spec p) (number h) then Some h
      else if length (extra_data h) < EXTRA_VANITY_LEN + EXTRA_SEAL_LEN then Some h
      else do {
        start \<leftarrow> attestation_start p parent_snap h;
        if start > length (extra_data h) then Some h
        else do {
          let original_extra = extra_data h;
          base_extra \<leftarrow> slice 0 start (extra_data h);
          case assemble_vote_attestation env p parent_snap parent (h\<lparr>extra_data := base_extra\<rparr>) of
            Inl _ \<Rightarrow> Some (h\<lparr>extra_data := original_extra\<rparr>)
          | Inr h1 \<Rightarrow>
              (case append_seal lib seal_hash g h1 of
                 (Inr _, h2) \<Rightarrow> Some h2
               | (Inl _, h2) \<Rightarrow> Some (h2\<lparr>extra_data := original_extra\<rparr>))
        }
      })"

section \<open>Facts\<close>

text \<open>Assembling only appends, and what it appends does not depend on the extra data.\<close>

lemma assemble_appends:
  "\<exists>r. \<forall>e. assemble_vote_attestation env p psnap parent (h\<lparr>extra_data := e\<rparr>) =
     map_sum id (\<lambda>b. h\<lparr>extra_data := e @ b\<rparr>) r"
proof -
  show ?thesis
  proof (cases "\<not> is_luban_active_at_block (spec p) (number h) \<or> number h < 3")
    case True
    then show ?thesis
      by (intro exI [of _ "Inr []"]) (simp add: assemble_vote_attestation_def)
  next
    case False
    have depth: "attestation_depth p (h\<lparr>extra_data := e\<rparr>) = attestation_depth p h" for e
      by (simp add: attestation_depth_def)
    show ?thesis
    proof (cases "justified_checkpoint env psnap")
      case (Inl x)
      with False show ?thesis
        by (intro exI [of _ "Inl x"]) (simp add: assemble_vote_attestation_def)
    next
      case (Inr j)
      obtain jn jh where j: "j = (jn, jh)" by fastforce
      let ?found = "search_target env jn (attestation_depth p h) parent"
      let ?build = "\<lambda>snap target votes. build_attestation env snap \<lparr>source_number = jn, source_hash = jh,
          target_number = number target, target_hash = env_hash env target\<rparr> votes"
      have "assemble_vote_attestation env p psnap parent (h\<lparr>extra_data := e\<rparr>) =
          map_sum id (\<lambda>b. h\<lparr>extra_data := e @ b\<rparr>) (res_bind ?found (\<lambda>found.
            case found of None \<Rightarrow> Inr []
            | Some (snap, target, votes) \<Rightarrow> res_bind (?build snap target votes) (\<lambda>built.
                case built of None \<Rightarrow> Inr [] | Some a \<Rightarrow> Inr (env_encode env a))))" for e
        using False Inr j
        by (auto simp: assemble_vote_attestation_def depth res_bind_def split: sum.splits option.splits)
      then show ?thesis by blast
    qed
  qed
qed

text \<open>What a signing library and the recovery promise for one key.\<close>

definition signs_for :: "'sk signer_lib \<Rightarrow> 'sig secp256k1 \<Rightarrow> 'sk \<Rightarrow> bytes \<Rightarrow> bool" where
  "signs_for lib secp sk public \<longleftrightarrow>
     (\<forall>m. \<exists>rid sig s. sign_ecdsa_recoverable lib m sk = (rid, sig) \<and> length sig = 64 \<and> 0 \<le> rid \<and> rid < 4 \<and>
        recovery_id_from secp rid = Some rid \<and> from_compact secp sig rid = Some s \<and>
        recover_ecdsa secp m s = Some public)"

lemma seal_header_Inr:
  assumes "signs_for lib secp sk public" and "sk_from_slice lib secret = Some sk"
  shows "\<exists>rid sig s. seal_header_with_global_signer lib seal_hash (Some secret) h = Inr (sig @ [word_of_int rid]) \<and>
     length sig = 64 \<and> 0 \<le> rid \<and> rid < 4 \<and> recovery_id_from secp rid = Some rid \<and>
     from_compact secp sig rid = Some s \<and> recover_ecdsa secp (seal_hash h) s = Some public"
proof -
  obtain rid sig s where "sign_ecdsa_recoverable lib (seal_hash h) sk = (rid, sig)" "length sig = 64" "0 \<le> rid"
    "rid < 4" "recovery_id_from secp rid = Some rid" "from_compact secp sig rid = Some s"
    "recover_ecdsa secp (seal_hash h) s = Some public"
    using assms(1) unfolding signs_for_def by metis
  moreover from this have
    "seal_header_with_global_signer lib seal_hash (Some secret) h = Inr (sig @ [word_of_int rid])"
    using assms(2) by (simp add: seal_header_with_global_signer_def seal_header_def)
  ultimately show ?thesis by blast
qed

lemma append_seal_Inr:
  assumes "signs_for lib secp sk public" and "sk_from_slice lib secret = Some sk"
  shows "\<exists>seal. append_seal lib seal_hash (Some secret) h = (Inr (), h\<lparr>extra_data := extra_data h @ seal\<rparr>) \<and>
     length seal = EXTRA_SEAL_LEN"
  using seal_header_Inr [OF assms, of seal_hash "h\<lparr>extra_data := extra_data h @ replicate EXTRA_SEAL_LEN 0\<rparr>"]
  by (auto simp: append_seal_def Let_def extra_consts)

lemma append_seal_recovers:
  fixes keccak enc len list_head chain_id
  defines "seal_hash \<equiv> \<lambda>h. hash_with_chain_id keccak enc len list_head h chain_id"
  assumes "signs_for lib secp sk public" and "sk_from_slice lib secret = Some sk"
    and "EXTRA_VANITY_LEN \<le> length (extra_data h)"
    and "append_seal lib seal_hash (Some secret) h = (r, h')"
  shows "recover_uncached secp keccak' seal_hash h' =
           Some (Inr (from_be (drop 12 (to_be 32 (keccak' (drop 1 public))))))"
proof -
  let ?z = "h\<lparr>extra_data := extra_data h @ replicate EXTRA_SEAL_LEN 0\<rparr>"
  obtain rid sig s where seal: "seal_header_with_global_signer lib seal_hash (Some secret) ?z =
      Inr (sig @ [word_of_int rid])" "length sig = 64"
    and rid: "0 \<le> rid" "rid < 4" "recovery_id_from secp rid = Some rid"
    and sig: "from_compact secp sig rid = Some s" "recover_ecdsa secp (seal_hash ?z) s = Some public"
    using seal_header_Inr [OF assms(2,3), of seal_hash ?z] by blast
  have h': "h' = h\<lparr>extra_data := extra_data h @ sig @ [word_of_int rid]\<rparr>"
    using assms(5) seal by (simp add: append_seal_def Let_def)
  have "uint (word_of_int rid :: u8) = rid" using rid(1,2) by (simp add: uint_word_of_int)
  moreover have "seal_hash h' = seal_hash ?z"
    unfolding seal_hash_def h' using seal(2) by (intro hash_of_body) (simp_all add: extra_consts)
  ultimately show ?thesis
    using assms(4) seal(2) rid(3) sig
    by (simp add: recover_uncached_def Let_def h' extra_consts index_Some slice_Some nth_append)
qed

text \<open>The stages of finalizing, up to the attestation.\<close>

definition base_header ::
  "('c, b256, u8) cache_ops \<Rightarrow> parlia \<Rightarrow> snapshot \<Rightarrow> u64 \<Rightarrow> (address list \<times> vote_address list) option \<Rightarrow>
     header \<Rightarrow> 'c \<Rightarrow> header \<Rightarrow> bool" where
  "base_header ops p psnap ms vals h cache h5 \<longleftrightarrow>
     (\<exists>d h4. let h3 = finalize_fields p ms d h in
        (if is_multiple_of (number h) (epoch_num psnap)
         then vals \<noteq> None \<and> prepare_validators p psnap vals h3 = Some h4 else h4 = h3) \<and>
        h5 = fst (prepare_turn_length ops p psnap h4 cache))"

lemma finalize_fields_simps [simp]:
  "number (finalize_fields p ms d h) = number h"
  "timestamp (finalize_fields p ms d h) = timestamp h"
  "extra_data (finalize_fields p ms d h) = pad_vanity (extra_data h)"
  by (simp_all add: finalize_fields_def Let_def)

lemma finalize_stages:
  assumes "finalize_new_header ops env lib seal_hash g p psnap parent ms vals h cache = Some (Inr (), h', cache')"
  shows "\<exists>h5. base_header ops p psnap ms vals h cache h5 \<and>
     append_seal lib seal_hash g (try_assemble env p psnap parent h5) = (Inr (), h')"
proof -
  obtain d where d: "calculate_difficulty psnap (beneficiary h) = Some d"
    using assms by (auto simp: finalize_new_header_def bind_eq_Some_conv)
  let ?h3 = "finalize_fields p ms d h" and ?epoch = "is_multiple_of (number h) (epoch_num psnap)"
  have run: "(if ?epoch \<and> vals = None then Some (Inl SigningFailed, ?h3, cache)
      else do {
        h4 \<leftarrow> (if ?epoch then prepare_validators p psnap vals ?h3 else Some ?h3);
        let (h5, c) = prepare_turn_length ops p psnap h4 cache;
        let (r, h7) = append_seal lib seal_hash g (try_assemble env p psnap parent h5);
        Some (r, h7, c) }) = Some (Inr (), h', cache')"
    using assms unfolding finalize_new_header_def d Option.bind.bind_lunit Let_def finalize_fields_simps .
  then have "\<not> (?epoch \<and> vals = None)" by (simp split: if_splits)
  with run obtain h4 where
    h4: "(if ?epoch then prepare_validators p psnap vals ?h3 else Some ?h3) = Some h4" and
    rest: "(let (h5, c) = prepare_turn_length ops p psnap h4 cache;
                (r, h7) = append_seal lib seal_hash g (try_assemble env p psnap parent h5)
            in Some (r, h7, c)) = Some (Inr (), h', cache')"
    unfolding bind_eq_Some_conv if_not_P [OF \<open>\<not> (?epoch \<and> vals = None)\<close>] by blast
  let ?h5 = "fst (prepare_turn_length ops p psnap h4 cache)"
  have "append_seal lib seal_hash g (try_assemble env p psnap parent ?h5) = (Inr (), h')"
    using rest by (auto simp: Let_def split: prod.splits)
  moreover have "base_header ops p psnap ms vals h cache ?h5"
    using h4 \<open>\<not> (?epoch \<and> vals = None)\<close> unfolding base_header_def Let_def
    by (intro exI [of _ d] exI [of _ h4]) (auto split: if_splits)
  ultimately show ?thesis by blast
qed

lemma prepare_validators_extends:
  assumes "prepare_validators p psnap vals h = Some h'"
  shows "\<exists>b. h' = h\<lparr>extra_data := extra_data h @ b\<rparr>"
proof (cases "\<not> is_multiple_of (number h) (epoch_num psnap) \<or> vals = None")
  case True
  then have "h' = h" using assms by (auto simp: prepare_validators_def split: if_splits)
  then show ?thesis by (intro exI [of _ "[]"]) simp
next
  case False
  then obtain vs as where "vals = Some (vs, as)" by fastforce
  with False assms show ?thesis
    by (cases "is_luban_active_at_block (spec p) (number h)")
      (auto simp: prepare_validators_def Let_def bind_eq_Some_conv)
qed

lemma prepare_turn_length_extends:
  "\<exists>b. fst (prepare_turn_length ops p psnap h cache) = h\<lparr>extra_data := extra_data h @ b\<rparr>"
proof (cases "\<not> is_multiple_of (number h) (epoch_num psnap) \<or>
    \<not> is_bohr_active_at_timestamp (spec p) (number h) (timestamp h)")
  case True
  then show ?thesis by (intro exI [of _ "[]"]) (simp add: prepare_turn_length_def)
next
  case False
  then show ?thesis by (auto simp: prepare_turn_length_def Let_def)
qed

lemma length_pad_vanity: "EXTRA_VANITY_LEN \<le> length (pad_vanity e)"
  "length e \<le> EXTRA_VANITY_LEN \<Longrightarrow> length (pad_vanity e) = EXTRA_VANITY_LEN"
  by (auto simp: pad_vanity_def)

lemma base_header_simps:
  assumes "base_header ops p psnap ms vals h cache h5"
  shows "number h5 = number h" and "timestamp h5 = timestamp h" and "EXTRA_VANITY_LEN \<le> length (extra_data h5)"
proof -
  obtain d h4 where h4: "if is_multiple_of (number h) (epoch_num psnap)
      then vals \<noteq> None \<and> prepare_validators p psnap vals (finalize_fields p ms d h) = Some h4
      else h4 = finalize_fields p ms d h" and h5: "h5 = fst (prepare_turn_length ops p psnap h4 cache)"
    using assms unfolding base_header_def Let_def by blast
  have "\<exists>b. h4 = finalize_fields p ms d h\<lparr>extra_data := extra_data (finalize_fields p ms d h) @ b\<rparr>"
  proof (cases "is_multiple_of (number h) (epoch_num psnap)")
    case True
    then have "prepare_validators p psnap vals (finalize_fields p ms d h) = Some h4" using h4 by simp
    then show ?thesis by (rule prepare_validators_extends)
  next
    case False
    then show ?thesis using h4 by (intro exI [of _ "[]"]) simp
  qed
  then have "number h4 = number h" "timestamp h4 = timestamp h" "EXTRA_VANITY_LEN \<le> length (extra_data h4)"
    using length_pad_vanity(1) [of "extra_data h"] by auto
  moreover obtain b where "h5 = h4\<lparr>extra_data := extra_data h4 @ b\<rparr>"
    using prepare_turn_length_extends [of ops p psnap h4 cache] h5 by auto
  ultimately show "number h5 = number h" "timestamp h5 = timestamp h" "EXTRA_VANITY_LEN \<le> length (extra_data h5)"
    by simp_all
qed

lemma base_header_layout:
  assumes base: "base_header ops p psnap ms vals h cache h5"
    and luban: "is_luban_active_at_block (spec p) (number h)"
    and "length (extra_data h) \<le> EXTRA_VANITY_LEN"
    and "\<forall>vs as. vals = Some (vs, as) \<longrightarrow> length vs < 256"
  shows "attestation_start p psnap (h5\<lparr>extra_data := extra_data h5 @ rest\<rparr>) = Some (length (extra_data h5))"
proof -
  obtain d h4 where h4: "if is_multiple_of (number h) (epoch_num psnap)
      then vals \<noteq> None \<and> prepare_validators p psnap vals (finalize_fields p ms d h) = Some h4
      else h4 = finalize_fields p ms d h" and h5: "h5 = fst (prepare_turn_length ops p psnap h4 cache)"
    using base unfolding base_header_def Let_def by blast
  have vanity: "length (pad_vanity (extra_data h)) = 32"
    using assms(3) length_pad_vanity(2) [of "extra_data h"] by (simp add: extra_consts)
  show ?thesis
  proof (cases "is_multiple_of (number h) (epoch_num psnap)")
    case False
    then have "h5 = finalize_fields p ms d h" using h4 h5 by (simp add: prepare_turn_length_def)
    with False vanity show ?thesis by (simp add: attestation_start_def extra_consts)
  next
    case True
    then obtain vs as where vals: "vals = Some (vs, as)" using h4 by fastforce
    define es where "es = concat (map (\<lambda>v. to_be 20 v @ to_be 48
        (the (map_of (prepare_vote_map p (finalize_fields p ms d h) vs as) v))) (sort vs))"
    have h4': "h4 = finalize_fields p ms d h\<lparr>extra_data := pad_vanity (extra_data h) @ [word_of_nat (length vs)] @ es\<rparr>"
      using h4 True luban prepare_validators_luban [of "finalize_fields p ms d h" psnap p vs as]
      by (simp add: vals es_def)
    have "length es = length (sort vs) * 68"
      unfolding es_def by (rule length_concat_chunks) simp
    then have es: "length es = 68 * length vs" by simp
    have c: "unat (word_of_nat (length vs) :: u8) = length vs"
      using assms(4) vals by (intro unat_word_of_nat) simp
    show ?thesis
    proof (cases "is_bohr_active_at_timestamp (spec p) (number h) (timestamp h)")
      case False
      then have "h5 = h4" using h5 h4' by (simp add: prepare_turn_length_def)
      then show ?thesis using h4' True False vanity es c
        by (simp add: attestation_start_def extra_consts index_Some nth_append)
    next
      case bohr: True
      then obtain t where "h5 = h4\<lparr>extra_data := extra_data h4 @ [t]\<rparr>"
        using h5 h4' True by (auto simp: prepare_turn_length_def Let_def)
      then show ?thesis using h4' True bohr vanity es c
        by (simp add: attestation_start_def extra_consts index_Some nth_append)
    qed
  qed
qed

lemma try_assemble_cases:
  "try_assemble env p psnap parent h = h \<and> \<not> is_ok (assemble_vote_attestation env p psnap parent h) \<or>
   assemble_vote_attestation env p psnap parent h = Inr (try_assemble env p psnap parent h)"
  by (simp add: try_assemble_def split: sum.splits)

lemma try_assemble_appends:
  "\<exists>b. try_assemble env p psnap parent h = h\<lparr>extra_data := extra_data h @ b\<rparr>"
proof -
  obtain r where "\<forall>e. assemble_vote_attestation env p psnap parent (h\<lparr>extra_data := e\<rparr>) =
      map_sum id (\<lambda>b. h\<lparr>extra_data := e @ b\<rparr>) r"
    using assemble_appends [of env p psnap parent h] by blast
  from this [rule_format, of "extra_data h"]
  have r: "assemble_vote_attestation env p psnap parent h = map_sum id (\<lambda>b. h\<lparr>extra_data := extra_data h @ b\<rparr>) r"
    by simp
  show ?thesis
  proof (cases r)
    case (Inl x)
    then show ?thesis using r by (intro exI [of _ "[]"]) (simp add: try_assemble_def)
  next
    case (Inr b)
    then show ?thesis using r by (intro exI [of _ b]) (simp add: try_assemble_def)
  qed
qed

text \<open>With a usable key, finalizing fails only for a missing validator set at an epoch block.\<close>

lemma prepare_validators_total: "prepare_validators p psnap vals h \<noteq> None"
proof (cases "is_multiple_of (number h) (epoch_num psnap) \<and> is_luban_active_at_block (spec p) (number h)")
  case True
  then show ?thesis
    using prepare_validators_luban [of h psnap p] by (cases vals) (auto simp: prepare_validators_def)
next
  case False
  then show ?thesis by (auto simp: prepare_validators_def split: option.splits)
qed

lemma finalize_succeeds:
  assumes "calculate_difficulty psnap (beneficiary h) \<noteq> None"
    and "is_multiple_of (number h) (epoch_num psnap) \<Longrightarrow> vals \<noteq> None"
    and "sk_from_slice lib secret = Some sk" and "signs_for lib secp sk public"
  shows "\<exists>h' cache'. finalize_new_header ops env lib seal_hash (Some secret) p psnap parent ms vals h cache =
    Some (Inr (), h', cache')"
proof -
  obtain d where d: "calculate_difficulty psnap (beneficiary h) = Some d" using assms(1) by blast
  let ?h3 = "finalize_fields p ms d h" and ?epoch = "is_multiple_of (number h) (epoch_num psnap)"
  obtain h4 where h4: "(if ?epoch then prepare_validators p psnap vals ?h3 else Some ?h3) = Some h4"
    using prepare_validators_total [of p psnap vals ?h3] by (cases ?epoch) auto
  obtain h5 c where h5: "prepare_turn_length ops p psnap h4 cache = (h5, c)" by fastforce
  obtain h7 where h7: "append_seal lib seal_hash (Some secret) (try_assemble env p psnap parent h5) = (Inr (), h7)"
    using append_seal_Inr [OF assms(4,3)] by blast
  have "\<not> (?epoch \<and> vals = None)" using assms(2) by blast
  then show ?thesis
    unfolding finalize_new_header_def d Option.bind.bind_lunit Let_def finalize_fields_simps h4
    by (simp add: h5 h7)
qed

section \<open>Sample signer\<close>

definition sample_signer_lib :: "bytes signer_lib" where
  "sample_signer_lib = \<lparr>sk_from_slice = Some, sk_secret_bytes = id,
     sign_ecdsa_recoverable = \<lambda>m sk. (1, to_be 32 m @ replicate 32 0)\<rparr>"

definition sample_secp :: "bytes secp256k1" where
  "sample_secp = \<lparr>recovery_id_from = Some, from_compact = \<lambda>bs _. Some bs,
     recover_ecdsa = \<lambda>m s. if take 32 s = to_be 32 m then Some [4, 9, 9] else None\<rparr>"

abbreviation sample_seal_hash :: "header \<Rightarrow> b256" where
  "sample_seal_hash h \<equiv> hash_with_chain_id (\<lambda>bs. word_of_nat (length bs)) (\<lambda>_. [1]) (\<lambda>_. 1) (\<lambda>_. []) h 56"

lemma sample_signs: "signs_for sample_signer_lib sample_secp sk [4, 9, 9]"
  by (simp add: signs_for_def sample_signer_lib_def sample_secp_def)

section \<open>Properties\<close>

text \<open>
  C19. Every header the miner finalizes is attributed to its key: whatever validators, turn length
  and attestation went into the extra data, recovering the signer of the finalized header gives
  the address of the key the signer was initialised with.
\<close>

theorem finalized_header_recovers:
  fixes keccak enc len list_head chain_id
  defines "seal_hash \<equiv> \<lambda>h. hash_with_chain_id keccak enc len list_head h chain_id"
  assumes "finalize_new_header ops env lib seal_hash (Some secret) p psnap parent ms vals h cache =
             Some (Inr (), h', cache')"
    and "sk_from_slice lib secret = Some sk" and "signs_for lib secp sk public"
  shows "recover_uncached secp keccak seal_hash h' =
           Some (Inr (from_be (drop 12 (to_be 32 (keccak (drop 1 public))))))"
proof -
  obtain h5 where h5: "base_header ops p psnap ms vals h cache h5"
    "append_seal lib seal_hash (Some secret) (try_assemble env p psnap parent h5) = (Inr (), h')"
    using finalize_stages [OF assms(2)] by blast
  have "EXTRA_VANITY_LEN \<le> length (extra_data (try_assemble env p psnap parent h5))"
    using try_assemble_appends [of env p psnap parent h5] base_header_simps(3) [OF h5(1)] by auto
  then show ?thesis
    unfolding seal_hash_def
    by (rule append_seal_recovers [OF assms(4,3) _ h5(2) [unfolded seal_hash_def]])
qed

theorem finalized_header_recovers_witness:
  "\<exists>h' cache'. finalize_new_header (lru_ops 2) (sample_env (sample_votes [11, 12] (sample_vote_data 10)))
       sample_signer_lib sample_seal_hash (Some [1]) sample_parlia
       (sample_voter_snapshot\<lparr>vote_data := sample_vote_data 8\<rparr>) (sample_header 10 1754967090) 1754967091500 None
       (sample_header 11 1754967091) [] = Some (Inr (), h', cache') \<and>
     recover_uncached sample_secp (\<lambda>bs. word_of_nat (length bs)) sample_seal_hash h' =
       Some (Inr (from_be (drop 12 (to_be 32 (2 :: b256)))))"
proof -
  let ?run = "finalize_new_header (lru_ops 2) (sample_env (sample_votes [11, 12] (sample_vote_data 10)))
       sample_signer_lib sample_seal_hash (Some [1]) sample_parlia
       (sample_voter_snapshot\<lparr>vote_data := sample_vote_data 8\<rparr>) (sample_header 10 1754967090) 1754967091500 None
       (sample_header 11 1754967091) []"
  have key: "sk_from_slice sample_signer_lib [1] = Some [1]" by (simp add: sample_signer_lib_def)
  have "calculate_difficulty (sample_voter_snapshot\<lparr>vote_data := sample_vote_data 8\<rparr>)
      (beneficiary (sample_header 11 1754967091)) \<noteq> None"
    "\<not> is_multiple_of (number (sample_header 11 1754967091))
        (epoch_num (sample_voter_snapshot\<lparr>vote_data := sample_vote_data 8\<rparr>))"
    by code_simp+
  then have "\<exists>h' cache'. ?run = Some (Inr (), h', cache')"
    by (intro finalize_succeeds [OF _ _ key sample_signs]) simp_all
  then obtain h' cache' where run: "?run = Some (Inr (), h', cache')" by blast
  from finalized_header_recovers [OF run key sample_signs] run show ?thesis by auto
qed

text \<open>
  C20. Refreshing is safe to repeat: refreshing the attestation of a header that was just finalized,
  with the same votes, reproduces the header byte for byte. The refresh finds the place of the
  attestation that finalizing left, strips exactly the attestation and the seal, and signs the same
  content.
\<close>

theorem refresh_reproduces:
  assumes fin: "finalize_new_header ops env lib seal_hash (Some secret) p psnap parent ms vals h cache =
             Some (Inr (), h', cache')"
    and "sk_from_slice lib secret = Some sk" and "signs_for lib secp sk public"
    and "is_luban_active_at_block (spec p) (number h)"
    and "length (extra_data h) \<le> EXTRA_VANITY_LEN"
    and "\<forall>vs as. vals = Some (vs, as) \<longrightarrow> length vs < 256"
  shows "refresh_vote_attestation_and_seal env lib seal_hash (Some secret) p psnap parent h' = Some h'"
proof -
  obtain h5 where base: "base_header ops p psnap ms vals h cache h5" and
    seal: "append_seal lib seal_hash (Some secret) (try_assemble env p psnap parent h5) = (Inr (), h')"
    using finalize_stages [OF fin] by blast
  note simps5 = base_header_simps [OF base]
  obtain b where b: "try_assemble env p psnap parent h5 = h5\<lparr>extra_data := extra_data h5 @ b\<rparr>"
    using try_assemble_appends by blast
  obtain s where s: "h' = h5\<lparr>extra_data := extra_data h5 @ b @ s\<rparr>" "length s = EXTRA_SEAL_LEN"
    using append_seal_Inr [OF assms(3,2), of seal_hash "try_assemble env p psnap parent h5"] seal b by auto
  have start: "attestation_start p psnap h' = Some (length (extra_data h5))"
    unfolding s(1) by (rule base_header_layout [OF base assms(4-6)])
  have fields: "is_luban_active_at_block (spec p) (number h')"
    "\<not> length (extra_data h') < EXTRA_VANITY_LEN + EXTRA_SEAL_LEN"
    "\<not> length (extra_data h5) > length (extra_data h')"
    "slice 0 (length (extra_data h5)) (extra_data h') = Some (extra_data h5)"
    "h'\<lparr>extra_data := extra_data h5\<rparr> = h5"
    using s simps5 assms(4) by (simp_all add: slice_Some)
  show ?thesis
    using try_assemble_cases [of env p psnap parent h5]
  proof
    assume "try_assemble env p psnap parent h5 = h5 \<and> \<not> is_ok (assemble_vote_attestation env p psnap parent h5)"
    then show ?thesis
      by (cases "assemble_vote_attestation env p psnap parent h5")
        (simp_all add: refresh_vote_attestation_and_seal_def start fields)
  next
    assume "assemble_vote_attestation env p psnap parent h5 = Inr (try_assemble env p psnap parent h5)"
    then show ?thesis by (simp add: refresh_vote_attestation_and_seal_def start fields seal)
  qed
qed

theorem refresh_reproduces_witness:
  "\<exists>h' cache'. finalize_new_header (lru_ops 2) (sample_env (sample_votes [11, 12] (sample_vote_data 10)))
       sample_signer_lib sample_seal_hash (Some [1]) sample_parlia
       (sample_voter_snapshot\<lparr>vote_data := sample_vote_data 8, epoch_num := 11\<rparr>) (sample_header 10 1754967090)
       1754967091500 (Some ([9, 7], [90, 70])) (sample_header 11 1754967091) [] = Some (Inr (), h', cache') \<and>
     refresh_vote_attestation_and_seal (sample_env (sample_votes [11, 12] (sample_vote_data 10)))
       sample_signer_lib sample_seal_hash (Some [1]) sample_parlia
       (sample_voter_snapshot\<lparr>vote_data := sample_vote_data 8, epoch_num := 11\<rparr>) (sample_header 10 1754967090) h' =
       Some h'"
proof -
  let ?run = "finalize_new_header (lru_ops 2) (sample_env (sample_votes [11, 12] (sample_vote_data 10)))
       sample_signer_lib sample_seal_hash (Some [1]) sample_parlia
       (sample_voter_snapshot\<lparr>vote_data := sample_vote_data 8, epoch_num := 11\<rparr>) (sample_header 10 1754967090)
       1754967091500 (Some ([9, 7], [90, 70])) (sample_header 11 1754967091) []"
  have key: "sk_from_slice sample_signer_lib [1] = Some [1]" by (simp add: sample_signer_lib_def)
  have "calculate_difficulty (sample_voter_snapshot\<lparr>vote_data := sample_vote_data 8, epoch_num := 11\<rparr>)
      (beneficiary (sample_header 11 1754967091)) \<noteq> None"
    and luban: "is_luban_active_at_block (spec sample_parlia) (number (sample_header 11 1754967091))"
    by code_simp+
  then have "\<exists>h' cache'. ?run = Some (Inr (), h', cache')"
    by (intro finalize_succeeds [OF _ _ key sample_signs]) simp_all
  then obtain h' cache' where run: "?run = Some (Inr (), h', cache')" by blast
  have "length (extra_data (sample_header 11 1754967091)) \<le> EXTRA_VANITY_LEN"
    by (simp add: sample_header_def)
  then show ?thesis using refresh_reproduces [OF run key sample_signs luban] run by simp
qed

end
