(* ===== verification/VoteMonitor.thy ===== *)
theory VoteMonitor
  imports Headers
begin

text \<open>
  The malicious vote monitor of \<open>src/consensus/parlia/malicious_vote_monitor.rs\<close>: per validator an
  LRU cache from target number to vote, scanned for votes that break the two voting rules of fast
  finality. The hash of vote data is an argument. The scan is a loop over block numbers that would
  not end if its upper bound were the largest \<open>u64\<close>; it is a partial function whose \<open>None\<close> is
  that case. Metrics and logging are left out.
\<close>

section \<open>Operations\<close>

definition MAX_SIZE_OF_RECENT_ENTRY :: nat where "MAX_SIZE_OF_RECENT_ENTRY = 512"
definition MALICIOUS_VOTE_SLASH_SCOPE :: u64 where "MALICIOUS_VOTE_SLASH_SCOPE = 256"
definition UPPER_LIMIT_OF_VOTE_BLOCK_NUMBER :: u64 where "UPPER_LIMIT_OF_VOTE_BLOCK_NUMBER = 11"

type_synonym vote_buffer = "(u64 \<times> vote_envelope) list"
type_synonym malicious_vote_monitor = "(vote_address, vote_buffer) hash_map"

text \<open>Rules 1 and 2 for the stored vote \<open>existing\<close> with target \<open>bn\<close>.\<close>

definition is_malicious :: "(vote_data \<Rightarrow> b256) \<Rightarrow> vote_envelope \<Rightarrow> u64 \<Rightarrow> vote_envelope \<Rightarrow> bool" where
  "is_malicious data_hash new_vote bn existing =
     (let sn = source_number (data new_vote); tn = target_number (data new_vote) in
      if bn = tn \<and> data_hash (data existing) \<noteq> data_hash (data new_vote) then True
      else (bn < tn \<and> source_number (data existing) > sn) \<or>
           (bn > tn \<and> source_number (data existing) < sn))"

partial_function (option) conflict_scan ::
  "(vote_data \<Rightarrow> b256) \<Rightarrow> vote_envelope \<Rightarrow> u64 \<Rightarrow> u64 \<Rightarrow> vote_buffer \<Rightarrow> (bool \<times> vote_buffer) option" where
  "conflict_scan data_hash new_vote upper bn buf =
     (if bn \<le> upper then
        (case map_of buf bn of
           Some existing \<Rightarrow>
             if is_malicious data_hash new_vote bn existing then Some (True, lru_touch bn buf)
             else conflict_scan data_hash new_vote upper (bn + 1) (lru_touch bn buf)
         | None \<Rightarrow> conflict_scan data_hash new_vote upper (bn + 1) buf)
      else Some (False, buf))"

declare conflict_scan.simps [code]

definition scan_start :: "u64 \<Rightarrow> u64 \<Rightarrow> u64" where
  "scan_start sn pending =
     (let bn = sn + 1 in
      if bn + MALICIOUS_VOTE_SLASH_SCOPE \<le> pending then pending - MALICIOUS_VOTE_SLASH_SCOPE + 1 else bn)"

definition conflict_detect ::
  "(vote_data \<Rightarrow> b256) \<Rightarrow> vote_envelope \<Rightarrow> u64 \<Rightarrow> malicious_vote_monitor \<Rightarrow>
     (bool \<times> malicious_vote_monitor) option" where
  "conflict_detect data_hash new_vote pending cur_votes =
     (let a = vote_address new_vote;
          buf = unwrap_or (map_of cur_votes a) [];
          tn = target_number (data new_vote)
      in if tn + MALICIOUS_VOTE_SLASH_SCOPE \<le> pending then Some (False, AList.update a buf cur_votes)
         else do {
           (malicious, buf') \<leftarrow> conflict_scan data_hash new_vote
              (pending + UPPER_LIMIT_OF_VOTE_BLOCK_NUMBER) (scan_start (source_number (data new_vote)) pending) buf;
           Some (malicious,
             AList.update a (if malicious then buf' else lru_put MAX_SIZE_OF_RECENT_ENTRY tn new_vote buf') cur_votes)
         })"

section \<open>The voting rules\<close>

text \<open>
  The specification: two votes of one validator conflict when they name the same target with
  different data, or when the span of one lies strictly within the span of the other.
\<close>

definition double_vote :: "(vote_data \<Rightarrow> b256) \<Rightarrow> vote_data \<Rightarrow> vote_data \<Rightarrow> bool" where
  "double_vote data_hash v w \<longleftrightarrow> target_number v = target_number w \<and> data_hash v \<noteq> data_hash w"

definition surrounds :: "vote_data \<Rightarrow> vote_data \<Rightarrow> bool" where
  "surrounds v w \<longleftrightarrow> source_number v < source_number w \<and> target_number w < target_number v"

definition votes_conflict :: "(vote_data \<Rightarrow> b256) \<Rightarrow> vote_data \<Rightarrow> vote_data \<Rightarrow> bool" where
  "votes_conflict data_hash v w \<longleftrightarrow> double_vote data_hash v w \<or> surrounds v w \<or> surrounds w v"

definition valid_span :: "vote_envelope \<Rightarrow> bool" where
  "valid_span v \<longleftrightarrow> source_number (data v) < target_number (data v)"

definition buffer_ok :: "vote_buffer \<Rightarrow> bool" where
  "buffer_ok buf \<longleftrightarrow> hm_wf buf \<and> (\<forall>(t, v) \<in> set buf. t = target_number (data v) \<and> valid_span v)"

definition monitor_ok :: "malicious_vote_monitor \<Rightarrow> bool" where
  "monitor_ok m \<longleftrightarrow> (\<forall>(a, buf) \<in> set m. buffer_ok buf)"

text \<open>The votes of a validator that the monitor remembers.\<close>

definition remembered :: "malicious_vote_monitor \<Rightarrow> vote_address \<Rightarrow> vote_envelope set" where
  "remembered m a = snd ` set (unwrap_or (map_of m a) [])"

section \<open>Facts\<close>

lemma is_malicious_iff:
  assumes "bn = target_number (data existing)"
  shows "is_malicious data_hash new_vote bn existing \<longleftrightarrow> votes_conflict data_hash (data new_vote) (data existing)"
  using assms
  by (auto simp: is_malicious_def votes_conflict_def double_vote_def surrounds_def Let_def)

lemma set_lru_touch: "hm_wf m \<Longrightarrow> set (lru_touch k m) = set m"
  by (auto simp: lru_touch_def hm_wf_def split: option.splits dest: map_of_SomeD)
    (metis Some_eq_map_of_iff option.inject)

lemma buffer_ok_touch: "buffer_ok buf \<Longrightarrow> buffer_ok (lru_touch k buf)"
  by (simp add: buffer_ok_def set_lru_touch lru.invar_touch)

lemma buffer_ok_put:
  assumes "buffer_ok buf" and "valid_span v"
  shows "buffer_ok (lru_put MAX_SIZE_OF_RECENT_ENTRY (target_number (data v)) v buf)"
proof -
  have cap: "MAX_SIZE_OF_RECENT_ENTRY = Suc 511" by (simp add: MAX_SIZE_OF_RECENT_ENTRY_def)
  have "set (lru_put (Suc 511) (target_number (data v)) v buf) \<subseteq> insert (target_number (data v), v) (set buf)"
    by (auto simp: lru_put_def dest: in_set_takeD)
  moreover have "hm_wf (lru_put (Suc 511) (target_number (data v)) v buf)"
    using assms(1) by (intro lru.invar_put) (simp add: buffer_ok_def)
  ultimately show ?thesis using assms unfolding cap buffer_ok_def by auto
qed

lemma monitor_ok_lookup: "monitor_ok m \<Longrightarrow> buffer_ok (unwrap_or (map_of m a) [])"
  by (cases "map_of m a") (auto simp: monitor_ok_def buffer_ok_def [of "[]"] hm_wf_def dest: map_of_SomeD)

lemma monitor_ok_update: "monitor_ok m \<Longrightarrow> buffer_ok buf \<Longrightarrow> monitor_ok (AList.update a buf m)"
  unfolding monitor_ok_def by (induction m) (auto split: if_splits)

lemma buffer_lookup:
  assumes "buffer_ok buf" and "w \<in> snd ` set buf"
  shows "map_of buf (target_number (data w)) = Some w"
proof -
  obtain t where t: "(t, w) \<in> set buf" using assms(2) by auto
  then have "t = target_number (data w)" using assms(1) by (auto simp: buffer_ok_def)
  with t assms(1) show ?thesis by (simp add: buffer_ok_def hm_wf_def)
qed

lemma scan_next:
  fixes upper bn :: u64
  assumes "upper \<noteq> u64_max" and "bn \<le> upper"
  shows "unat upper + 1 - unat (bn + 1) < unat upper + 1 - unat bn"
    and "bn \<le> t \<longleftrightarrow> t = bn \<or> bn + 1 \<le> t"
proof -
  have "unat upper \<noteq> 18446744073709551615"
    using assms(1) by (simp add: u64_max_def word_unat_eq_iff)
  moreover have le: "unat bn \<le> unat upper" using assms(2) by (simp add: word_le_nat_alt)
  moreover have "unat upper < 18446744073709551616" by (rule unat_u64_lt)
  ultimately have "unat bn < 18446744073709551615" by linarith
  then have "unat bn + unat (1 :: u64) < 2 ^ LENGTH(64)" by simp
  from unat_add_nowrap [OF this] have step: "unat (bn + 1) = unat bn + 1" by simp
  show "unat upper + 1 - unat (bn + 1) < unat upper + 1 - unat bn" using le step by simp
  show "bn \<le> t \<longleftrightarrow> t = bn \<or> bn + 1 \<le> t" using step by (auto simp: word_le_nat_alt word_unat_eq_iff)
qed

text \<open>A conflicting vote of the buffer with a target in the range.\<close>

definition scan_hit :: "(vote_data \<Rightarrow> b256) \<Rightarrow> vote_envelope \<Rightarrow> u64 \<Rightarrow> u64 \<Rightarrow> (u64 \<times> vote_envelope) set \<Rightarrow> bool" where
  "scan_hit data_hash v upper bn S \<longleftrightarrow>
     (\<exists>w \<in> snd ` S. bn \<le> target_number (data w) \<and> target_number (data w) \<le> upper \<and>
        votes_conflict data_hash (data v) (data w))"

lemma scan_hit_step:
  assumes "upper \<noteq> u64_max" and "bn \<le> upper" and "buffer_ok buf"
  shows "scan_hit data_hash v upper bn (set buf) \<longleftrightarrow>
     (case map_of buf bn of None \<Rightarrow> False | Some w \<Rightarrow> votes_conflict data_hash (data v) (data w)) \<or>
     scan_hit data_hash v upper (bn + 1) (set buf)"
proof -
  let ?P = "\<lambda>w. votes_conflict data_hash (data v) (data w)"
  have at: "(\<exists>w \<in> snd ` set buf. target_number (data w) = bn \<and> ?P w) \<longleftrightarrow>
      (case map_of buf bn of None \<Rightarrow> False | Some w \<Rightarrow> ?P w)"
  proof (cases "map_of buf bn")
    case None
    have "target_number (data w) \<noteq> bn" if "w \<in> snd ` set buf" for w
      using buffer_lookup [OF assms(3) that] None by auto
    with None show ?thesis by auto
  next
    case (Some w)
    have "(bn, w) \<in> set buf" using Some by (rule map_of_SomeD)
    then have w: "w \<in> snd ` set buf" "target_number (data w) = bn"
      using assms(3) by (force, auto simp: buffer_ok_def)
    have "w' = w" if "w' \<in> snd ` set buf" "target_number (data w') = bn" for w'
      using buffer_lookup [OF assms(3) that(1)] that(2) Some by simp
    then have "(\<exists>w' \<in> snd ` set buf. target_number (data w') = bn \<and> ?P w') \<longleftrightarrow> ?P w" using w by metis
    then show ?thesis using Some by simp
  qed
  have "scan_hit data_hash v upper bn (set buf) \<longleftrightarrow>
      (\<exists>w \<in> snd ` set buf. target_number (data w) = bn \<and> ?P w) \<or> scan_hit data_hash v upper (bn + 1) (set buf)"
    unfolding scan_hit_def using scan_next(2) [OF assms(1,2)] assms(2) by metis
  then show ?thesis unfolding at .
qed

text \<open>The scan returns, keeps the buffer, and finds exactly the conflicting votes of its range.\<close>

lemma conflict_scan_result:
  assumes "upper \<noteq> u64_max" and "buffer_ok buf"
  shows "\<exists>buf'. conflict_scan data_hash v upper bn buf = Some (scan_hit data_hash v upper bn (set buf), buf') \<and>
     buffer_ok buf' \<and> set buf' = set buf"
  using assms(2)
proof (induction "unat upper + 1 - unat bn" arbitrary: bn buf rule: less_induct)
  case less
  show ?case
  proof (cases "bn \<le> upper")
    case False
    then show ?thesis
      using less.prems by (subst conflict_scan.simps) (auto simp: scan_hit_def)
  next
    case True
    note step = scan_hit_step [OF assms(1) True less.prems, of data_hash v]
    have touch: "set (lru_touch bn buf) = set buf"
      using less.prems by (simp add: set_lru_touch buffer_ok_def)
    show ?thesis
    proof (cases "map_of buf bn")
      case None
      then show ?thesis
        using less.hyps [OF scan_next(1) [OF assms(1) True] less.prems] step True
        by (subst conflict_scan.simps) simp
    next
      case (Some w)
      have "bn = target_number (data w)"
        using map_of_SomeD [OF Some] less.prems by (auto simp: buffer_ok_def)
      then have mal: "is_malicious data_hash v bn w \<longleftrightarrow> votes_conflict data_hash (data v) (data w)"
        by (rule is_malicious_iff)
      show ?thesis
        using less.hyps [OF scan_next(1) [OF assms(1) True] buffer_ok_touch [OF less.prems, of bn]] step True Some mal
          buffer_ok_touch [OF less.prems, of bn] touch
        by (subst conflict_scan.simps) (cases "votes_conflict data_hash (data v) (data w)"; simp)
    qed
  qed
qed

lemma scan_start_le:
  assumes "unat sn + 257 < 2 ^ 64" and "unat pending < 2 ^ 63"
  shows "scan_start sn pending \<le> t \<longleftrightarrow> unat sn < unat t \<and> unat pending < unat t + 256"
proof -
  have s1: "unat (sn + 1) = unat sn + 1"
    using unat_add_nowrap [of sn 1] assms(1) by simp
  then have s2: "unat (sn + 1 + 256) = unat sn + 257"
    using unat_add_nowrap [of "sn + 1" 256] assms(1) by simp
  show ?thesis
  proof (cases "sn + 1 + 256 \<le> pending")
    case True
    then have le: "unat sn + 257 \<le> unat pending" using s2 by (simp add: word_le_nat_alt)
    then have "unat (pending - 256) = unat pending - 256"
      by (subst unat_sub_nowrap) (simp_all add: word_le_nat_alt)
    then have "unat (pending - 256 + 1) = unat pending - 255"
      using le assms(2) unat_add_nowrap [of "pending - 256" 1] by simp
    then show ?thesis
      using True le by (auto simp: scan_start_def Let_def MALICIOUS_VOTE_SLASH_SCOPE_def word_le_nat_alt)
  next
    case False
    then have "\<not> unat sn + 257 \<le> unat pending" using s2 by (simp add: word_le_nat_alt)
    then show ?thesis
      using False s1 by (auto simp: scan_start_def Let_def MALICIOUS_VOTE_SLASH_SCOPE_def word_le_nat_alt)
  qed
qed

text \<open>Conflicting votes with a proper span have their target above the source of the other.\<close>

lemma conflict_above_source:
  assumes "votes_conflict data_hash (data v) (data w)" and "valid_span v" and "valid_span w"
  shows "unat (source_number (data v)) < unat (target_number (data w))"
  using assms
  by (auto simp: votes_conflict_def double_vote_def surrounds_def valid_span_def word_less_nat_alt)

lemma unat_window_end:
  "unat pending < 2 ^ 63 \<Longrightarrow> unat (pending + UPPER_LIMIT_OF_VOTE_BLOCK_NUMBER) = unat pending + 11"
  by (simp add: UPPER_LIMIT_OF_VOTE_BLOCK_NUMBER_def unat_add_nowrap)

lemma scan_hit_window:
  assumes "valid_span v" and "unat (target_number (data v)) + 257 < 2 ^ 64" and "unat pending < 2 ^ 63"
    and "buffer_ok buf"
  shows "scan_hit data_hash v (pending + UPPER_LIMIT_OF_VOTE_BLOCK_NUMBER)
       (scan_start (source_number (data v)) pending) (set buf) \<longleftrightarrow>
     (\<exists>w \<in> snd ` set buf. unat pending < unat (target_number (data w)) + 256 \<and>
        unat (target_number (data w)) \<le> unat pending + 11 \<and> votes_conflict data_hash (data v) (data w))"
  unfolding scan_hit_def
proof (rule bex_cong [OF refl])
  have sn: "unat (source_number (data v)) + 257 < 2 ^ 64"
    using assms(1,2) by (simp add: valid_span_def word_less_nat_alt)
  fix w assume "w \<in> snd ` set buf"
  then have "valid_span w" using assms(4) by (force simp: buffer_ok_def)
  then show "(scan_start (source_number (data v)) pending \<le> target_number (data w) \<and>
        target_number (data w) \<le> pending + UPPER_LIMIT_OF_VOTE_BLOCK_NUMBER \<and>
        votes_conflict data_hash (data v) (data w)) \<longleftrightarrow>
      (unat pending < unat (target_number (data w)) + 256 \<and>
        unat (target_number (data w)) \<le> unat pending + 11 \<and> votes_conflict data_hash (data v) (data w))"
    using scan_start_le [OF sn assms(3)] conflict_above_source [OF _ assms(1)] unat_window_end [OF assms(3)]
    by (auto simp: word_le_nat_alt [of _ "pending + UPPER_LIMIT_OF_VOTE_BLOCK_NUMBER"])
qed

section \<open>Properties\<close>



end
