(* ===== verification/VotePool.thy ===== *)
theory VotePool
  imports Attestation VoteMonitor "HOL-Library.Product_Lexorder"
begin

text \<open>
  The vote pool of \<open>src/consensus/parlia/vote_pool.rs\<close>: votes for blocks the node holds
  (\<open>cur_votes\<close>), votes for blocks it does not hold yet (\<open>future_votes\<close>), the promotion of the
  latter, pruning and shedding, the admission checks of \<open>put_vote\<close> and the notification of
  finality.

  The record \<open>vote_env\<close> is the node's view the functions consult through \<open>shared\<close>: the head, the
  header and snapshot providers, and the hashing and signature checks of libraries. The globals
  are the record \<open>vote_state\<close>. The code takes the lock of the pool once per phase: the phases are
  separate definitions (\<open>promotion_candidates\<close> and \<open>resolve_candidates\<close>, \<open>finish_promotion\<close>,
  \<open>classify_vote\<close>, \<open>admit_locked\<close>), so that they can be interleaved. A \<open>HashSet\<close> is a set, a \<open>HashMap\<close> an
  association list. A \<open>BinaryHeap\<close> is the list of its elements in order: the order of elements
  with equal targets, which the library leaves open, is fixed here, and the contract
  \<open>vote_queue\<close> that the lemmas use does not mention it. Metrics and logging are left out.
\<close>

section \<open>State\<close>

definition LOWER_LIMIT_OF_VOTE_BLOCK_NUMBER :: u64 where "LOWER_LIMIT_OF_VOTE_BLOCK_NUMBER = 256"
definition REJECTED_VOTE_CACHE_SIZE :: nat where "REJECTED_VOTE_CACHE_SIZE = 8192"
definition MAX_CUR_VOTE_AMOUNT_PER_BLOCK :: nat where "MAX_CUR_VOTE_AMOUNT_PER_BLOCK = 21"
definition MAX_FUTURE_VOTE_AMOUNT_PER_BLOCK :: nat where "MAX_FUTURE_VOTE_AMOUNT_PER_BLOCK = 50"
definition MAX_PROMOTION_TARGETS_PER_PASS :: nat where "MAX_PROMOTION_TARGETS_PER_PASS = 64"
definition MAX_PROMOTION_VOTES_PER_PASS :: nat where "MAX_PROMOTION_VOTES_PER_PASS = 512"
definition SHED_HEADROOM :: nat where "SHED_HEADROOM = 4096"
definition MAX_VOTES_IN_POOL :: nat where "MAX_VOTES_IN_POOL = 32 * 1024 * 2"
definition FINALIZED_NOTIFIED_CACHE_SIZE :: nat where "FINALIZED_NOTIFIED_CACHE_SIZE = 21"

record vote_entry =
  entry_hash :: b256
  entry_envelope :: vote_envelope
  entry_authenticated :: bool

record vote_messages =
  messages :: "vote_entry list"
  authenticated_count :: nat

type_synonym vote_buckets = "(b256, vote_messages) hash_map"

record promotion_candidate =
  cand_target_number :: u64
  cand_target_hash :: b256
  cand_votes :: "vote_entry list"
  cand_expired :: bool

record vote_pool =
  received_votes :: "b256 set"
  cur_votes :: vote_buckets
  cur_votes_pq :: "vote_data list"
  future_votes :: vote_buckets
  future_votes_pq :: "vote_data list"
  total_votes :: nat
  vote_monitor :: malicious_vote_monitor

record vote_state =
  vote_pool_of :: vote_pool
  last_pruned_block :: u64
  rejected_votes :: "(b256 \<times> unit) list"
  finalized_notified :: "(b256 \<times> unit) list"
  forkchoice_updates :: "header list"

record vote_env =
  ve_best_number :: "u64 option"
  ve_header_by_number :: "u64 \<Rightarrow> header option"
  ve_has_header_provider :: bool
  ve_header_by_hash :: "b256 \<Rightarrow> header option"
  ve_snapshot :: "b256 \<Rightarrow> snapshot option"
  ve_hash :: "header \<Rightarrow> b256"
  ve_vote_hash :: "vote_envelope \<Rightarrow> b256"
  ve_data_hash :: "vote_data \<Rightarrow> b256"
  ve_verify :: "vote_envelope \<Rightarrow> bool"
  ve_has_fork_choice_engine :: bool

section \<open>The queue of targets\<close>

definition pq_push :: "vote_data \<Rightarrow> vote_data list \<Rightarrow> vote_data list" where
  "pq_push vd q = insort_key target_number vd q"

definition pq_peek :: "vote_data list \<Rightarrow> vote_data option" where
  "pq_peek q = (case q of [] \<Rightarrow> None | vd # _ \<Rightarrow> Some vd)"

definition pq_pop :: "vote_data list \<Rightarrow> vote_data list" where
  "pq_pop q = tl q"

section \<open>The pool\<close>

definition vote_pool_new :: vote_pool where
  "vote_pool_new = \<lparr>received_votes = {}, cur_votes = [], cur_votes_pq = [], future_votes = [],
     future_votes_pq = [], total_votes = 0, vote_monitor = []\<rparr>"

definition overflow_shed_target :: "nat \<Rightarrow> nat option" where
  "overflow_shed_target pool_len =
     (if pool_len \<le> MAX_VOTES_IN_POOL then None
      else Some (pool_len - (MAX_VOTES_IN_POOL - SHED_HEADROOM)))"

definition is_at_capacity :: "vote_pool \<Rightarrow> b256 \<Rightarrow> bool \<Rightarrow> bool \<Rightarrow> bool" where
  "is_at_capacity p bh is_future authenticated =
     (if is_future then
        authenticated \<and>
        (case map_of (future_votes p) bh of
           None \<Rightarrow> False | Some vm \<Rightarrow> authenticated_count vm \<ge> MAX_FUTURE_VOTE_AMOUNT_PER_BLOCK)
      else
        (case map_of (cur_votes p) bh of
           None \<Rightarrow> False | Some vm \<Rightarrow> length (messages vm) \<ge> MAX_CUR_VOTE_AMOUNT_PER_BLOCK))"

definition len_for_block :: "vote_pool \<Rightarrow> b256 \<Rightarrow> nat" where
  "len_for_block p bh = (case map_of (cur_votes p) bh of None \<Rightarrow> 0 | Some vm \<Rightarrow> length (messages vm))"

text \<open>Extending the bucket of a target, created empty when it is missing.\<close>

definition extend_bucket :: "b256 \<Rightarrow> vote_entry list \<Rightarrow> nat \<Rightarrow> vote_buckets \<Rightarrow> vote_buckets" where
  "extend_bucket bh es n m =
     (let vm = unwrap_or (map_of m bh) \<lparr>messages = [], authenticated_count = 0\<rparr>
      in AList.update bh \<lparr>messages = messages vm @ es, authenticated_count = authenticated_count vm + n\<rparr> m)"

definition track_target :: "b256 \<Rightarrow> vote_data \<Rightarrow> vote_buckets \<Rightarrow> vote_data list \<Rightarrow> vote_data list" where
  "track_target bh vd m q = (if map_of m bh = None then pq_push vd q else q)"

definition pool_insert ::
  "vote_env \<Rightarrow> vote_envelope \<Rightarrow> u64 \<Rightarrow> bool \<Rightarrow> bool \<Rightarrow> vote_pool \<Rightarrow> (nat \<times> vote_pool) option" where
  "pool_insert env vote pending is_future authenticated p =
     (let vote_hash = ve_vote_hash env vote in
      if vote_hash \<in> received_votes p then Some (0, p)
      else do {
        (_, monitor) \<leftarrow> conflict_detect (ve_data_hash env) vote pending (vote_monitor p);
        let bh = target_hash (data vote);
        let entry = \<lparr>entry_hash = vote_hash, entry_envelope = vote, entry_authenticated = authenticated\<rparr>;
        let n = (if authenticated then 1 else 0);
        let p1 = p\<lparr>received_votes := insert vote_hash (received_votes p), vote_monitor := monitor\<rparr>;
        let p2 = (if is_future
           then p1\<lparr>future_votes_pq := track_target bh (data vote) (future_votes p1) (future_votes_pq p1),
                  future_votes := extend_bucket bh [entry] n (future_votes p1)\<rparr>
           else p1\<lparr>cur_votes_pq := track_target bh (data vote) (cur_votes p1) (cur_votes_pq p1),
                  cur_votes := extend_bucket bh [entry] n (cur_votes p1)\<rparr>);
        let p3 = p2\<lparr>total_votes := total_votes p2 + 1\<rparr>;
        Some (if is_future then 0 else len_for_block p3 bh, p3)
      })"

definition envelopes_of :: "vote_messages \<Rightarrow> vote_envelope list" where
  "envelopes_of vm = map entry_envelope (messages vm)"

definition pool_get_votes :: "vote_pool \<Rightarrow> vote_envelope list" where
  "pool_get_votes p = concat (map (envelopes_of \<circ> snd) (cur_votes p))"

definition pool_drain :: "vote_pool \<Rightarrow> vote_envelope list \<times> vote_pool" where
  "pool_drain p =
     (concat (map (envelopes_of \<circ> snd) (cur_votes p)),
      p\<lparr>received_votes := {}, cur_votes_pq := [], future_votes_pq := [], future_votes := [],
        total_votes := 0, cur_votes := []\<rparr>)"

definition fetch_vote_by_block_hash :: "vote_pool \<Rightarrow> b256 \<Rightarrow> vote_envelope list" where
  "fetch_vote_by_block_hash p bh =
     (case map_of (cur_votes p) bh of Some vm \<Rightarrow> envelopes_of vm | None \<Rightarrow> [])"

definition fetch_vote_by_block_hash_and_source_number :: "vote_pool \<Rightarrow> b256 \<Rightarrow> u64 \<Rightarrow> vote_envelope list" where
  "fetch_vote_by_block_hash_and_source_number p bh sn =
     filter (\<lambda>v. source_number (data v) = sn) (fetch_vote_by_block_hash p bh)"

section \<open>Promotion\<close>

text \<open>The bounded max-heap of the smallest keys, as the ascending list of its elements.\<close>

definition smallest_push :: "nat \<Rightarrow> (u64 \<times> b256) \<Rightarrow> (u64 \<times> b256) list \<Rightarrow> (u64 \<times> b256) list" where
  "smallest_push k key heap =
     (if length heap < k then insort key heap
      else if heap \<noteq> [] \<and> key < last heap then insort key (butlast heap)
      else heap)"

definition promotion_keys :: "vote_data list \<Rightarrow> u64 \<Rightarrow> (u64 \<times> b256) list" where
  "promotion_keys q latest =
     take MAX_PROMOTION_TARGETS_PER_PASS
       (fold (\<lambda>vd heap.
            if target_number vd > latest then heap
            else smallest_push MAX_PROMOTION_TARGETS_PER_PASS (target_number vd, target_hash vd) heap) q [])"

fun budgeted_candidates ::
  "vote_buckets \<Rightarrow> u64 \<Rightarrow> nat \<Rightarrow> (u64 \<times> b256) list \<Rightarrow> promotion_candidate list" where
  "budgeted_candidates m latest budget [] = []"
| "budgeted_candidates m latest budget ((tn, th) # keys) =
     (if budget = 0 then []
      else
        (let votes = (case map_of m th of Some vm \<Rightarrow> take budget (messages vm) | None \<Rightarrow> []) in
         \<lparr>cand_target_number = tn, cand_target_hash = th, cand_votes = votes,
          cand_expired = saturating_add tn UPPER_LIMIT_OF_VOTE_BLOCK_NUMBER < latest\<rparr>
         # budgeted_candidates m latest (budget - length votes) keys))"

definition promotion_candidates :: "vote_pool \<Rightarrow> u64 \<Rightarrow> promotion_candidate list" where
  "promotion_candidates p latest =
     budgeted_candidates (future_votes p) latest MAX_PROMOTION_VOTES_PER_PASS
       (promotion_keys (future_votes_pq p) latest)"

type_synonym verdicts = "(b256, bool) hash_map"

text \<open>The result: whether a vote was promoted, whether the target stays queued, the pool.\<close>

definition promote_judged :: "b256 \<Rightarrow> verdicts \<Rightarrow> vote_pool \<Rightarrow> bool \<times> bool \<times> vote_pool" where
  "promote_judged bh verdicts p =
     (case map_of (future_votes p) bh of
        None \<Rightarrow> (False, False, p)
      | Some vm \<Rightarrow>
          (let valid = filter (\<lambda>e. map_of verdicts (entry_hash e) = Some True) (messages vm);
               rejected = filter (\<lambda>e. map_of verdicts (entry_hash e) = Some False) (messages vm);
               unjudged = filter (\<lambda>e. map_of verdicts (entry_hash e) = None) (messages vm);
               p1 = p\<lparr>future_votes := AList.delete bh (future_votes p),
                      received_votes := received_votes p - set (map entry_hash rejected),
                      total_votes := total_votes p - length rejected\<rparr>;
               requeue = (unjudged \<noteq> []);
               p2 = (if requeue
                     then p1\<lparr>future_votes := extend_bucket bh unjudged
                            (length (filter entry_authenticated unjudged)) (future_votes p1)\<rparr>
                     else p1)
           in case valid of
                [] \<Rightarrow> (False, requeue, p2)
              | e # _ \<Rightarrow>
                  (True, requeue,
                   p2\<lparr>cur_votes_pq := track_target bh (data (entry_envelope e)) (cur_votes p2) (cur_votes_pq p2),
                      cur_votes := extend_bucket bh valid (length (filter entry_authenticated valid))
                        (cur_votes p2)\<rparr>)))"

fun apply_loop ::
  "u64 \<Rightarrow> (b256, verdicts) hash_map \<Rightarrow> nat \<Rightarrow> vote_pool \<Rightarrow> b256 list \<times> vote_data list \<times> vote_pool" where
  "apply_loop latest resolved 0 p = ([], [], p)"
| "apply_loop latest resolved (Suc n) p =
     (case pq_peek (future_votes_pq p) of
        None \<Rightarrow> ([], [], p)
      | Some vd \<Rightarrow>
          if target_number vd > latest then ([], [], p)
          else
            (let p1 = p\<lparr>future_votes_pq := pq_pop (future_votes_pq p)\<rparr> in
             case map_of resolved (target_hash vd) of
               Some verdicts \<Rightarrow>
                 (let (promoted, requeue, p2) = promote_judged (target_hash vd) verdicts p1;
                      (ps, ds, p3) = apply_loop latest resolved n p2
                  in ((if promoted then [target_hash vd] else []) @ ps,
                      (if requeue then [vd] else []) @ ds, p3))
             | None \<Rightarrow>
                 (let (ps, ds, p3) = apply_loop latest resolved n p1
                  in (ps, (if map_of (future_votes p1) (target_hash vd) = None then [] else [vd]) @ ds, p3))))"

definition apply_promotion ::
  "u64 \<Rightarrow> (b256, verdicts) hash_map \<Rightarrow> vote_pool \<Rightarrow> b256 list \<times> vote_pool" where
  "apply_promotion latest resolved p =
     (let (promoted, deferred, p1) = apply_loop latest resolved MAX_PROMOTION_TARGETS_PER_PASS p
      in (promoted, p1\<lparr>future_votes_pq := fold pq_push deferred (future_votes_pq p1)\<rparr>))"

section \<open>Pruning and shedding\<close>

definition remove_future_bucket :: "b256 \<Rightarrow> vote_pool \<Rightarrow> nat \<times> vote_pool" where
  "remove_future_bucket bh p =
     (case map_of (future_votes p) bh of
        None \<Rightarrow> (0, p)
      | Some vm \<Rightarrow>
          (length (messages vm),
           p\<lparr>future_votes := AList.delete bh (future_votes p),
             total_votes := total_votes p - length (messages vm),
             received_votes := received_votes p - set (map entry_hash (messages vm))\<rparr>))"

definition remove_cur_bucket :: "b256 \<Rightarrow> vote_pool \<Rightarrow> vote_pool" where
  "remove_cur_bucket bh p =
     (case map_of (cur_votes p) bh of
        None \<Rightarrow> p
      | Some vm \<Rightarrow>
          p\<lparr>cur_votes := AList.delete bh (cur_votes p),
            total_votes := total_votes p - length (messages vm),
            received_votes := received_votes p - set (map entry_hash (messages vm))\<rparr>)"

fun shed_loop :: "nat \<Rightarrow> vote_data list \<Rightarrow> nat \<Rightarrow> vote_pool \<Rightarrow> nat \<times> vote_pool" where
  "shed_loop target [] shed p = (shed, p)"
| "shed_loop target (vd # order) shed p =
     (if shed \<ge> target then (shed, p)
      else (let (n, p1) = remove_future_bucket (target_hash vd) p in shed_loop target order (shed + n) p1))"

definition shed_future_votes :: "nat \<Rightarrow> vote_pool \<Rightarrow> nat \<times> vote_pool" where
  "shed_future_votes target p =
     (let order = sort_key (\<lambda>vd. u64_max - target_number vd) (future_votes_pq p);
          (shed, p1) = shed_loop target order 0 p;
          surviving = List.map_filter
            (\<lambda>(_, vm). case messages vm of [] \<Rightarrow> None | e # _ \<Rightarrow> Some (data (entry_envelope e))) (future_votes p1)
      in (shed, p1\<lparr>future_votes_pq := fold pq_push surviving []\<rparr>))"

definition outdated :: "u64 \<Rightarrow> vote_data \<Rightarrow> bool" where
  "outdated latest vd \<longleftrightarrow> saturating_add (target_number vd) LOWER_LIMIT_OF_VOTE_BLOCK_NUMBER \<le> latest"

text \<open>The two loops of \<open>prune\<close>, on the queue they consume.\<close>

fun prune_cur_loop :: "u64 \<Rightarrow> vote_data list \<Rightarrow> vote_pool \<Rightarrow> vote_pool" where
  "prune_cur_loop latest [] p = p\<lparr>cur_votes_pq := []\<rparr>"
| "prune_cur_loop latest (vd # q) p =
     (if outdated latest vd then prune_cur_loop latest q (remove_cur_bucket (target_hash vd) p)
      else p\<lparr>cur_votes_pq := vd # q\<rparr>)"

fun prune_future_loop :: "u64 \<Rightarrow> vote_data list \<Rightarrow> vote_pool \<Rightarrow> vote_pool" where
  "prune_future_loop latest [] p = p\<lparr>future_votes_pq := []\<rparr>"
| "prune_future_loop latest (vd # q) p =
     (if outdated latest vd then prune_future_loop latest q (snd (remove_future_bucket (target_hash vd) p))
      else p\<lparr>future_votes_pq := vd # q\<rparr>)"

definition pool_prune :: "u64 \<Rightarrow> vote_pool \<Rightarrow> vote_pool" where
  "pool_prune latest p =
     (let p1 = prune_cur_loop latest (cur_votes_pq p) p
      in prune_future_loop latest (future_votes_pq p1) p1)"

section \<open>Admission checks\<close>

definition justified_pair_of :: "vote_data \<Rightarrow> (u64 \<times> b256) option \<Rightarrow> (u64 \<times> b256) option" where
  "justified_pair_of vd genesis =
     (if target_hash vd = 0 then genesis else Some (target_number vd, target_hash vd))"

definition justified_pair_for_hash :: "vote_env \<Rightarrow> b256 \<Rightarrow> (u64 \<times> b256) option" where
  "justified_pair_for_hash env bh =
     do {
       snap \<leftarrow> ve_snapshot env bh;
       justified_pair_of (vote_data snap)
         (map_option (\<lambda>genesis. (number genesis, ve_hash env genesis)) (ve_header_by_number env 0))
     }"

definition governing_sets_differ :: "u64 \<Rightarrow> u64 \<Rightarrow> u64 \<Rightarrow> u64 \<Rightarrow> bool" where
  "governing_sets_differ head target epoch_len offset =
     (let el = max epoch_len 1 in
      if offset \<ge> el then False
      else
        (let swaps_upto = (\<lambda>n. if n \<ge> offset then (n - offset) div el + 1 else 0)
         in swaps_upto head \<noteq> swaps_upto (saturating_sub target 1)))"

definition future_vote_sender_is_validator :: "vote_env \<Rightarrow> vote_envelope \<Rightarrow> bool option" where
  "future_vote_sender_is_validator env vote =
     do {
       head_number \<leftarrow> ve_best_number env;
       head \<leftarrow> ve_header_by_number env head_number;
       snap \<leftarrow> ve_snapshot env (ve_hash env head);
       if validators_map snap = [] then None
       else if governing_sets_differ head_number (target_number (data vote)) (epoch_num snap)
                 (miner_history_check_len snap)
       then None
       else Some (known_voter snap (vote_address vote))
     }"

datatype origin_verdict = OriginOk | OriginRejected | OriginUnverifiable

definition verify_vote_origin :: "vote_env \<Rightarrow> vote_envelope \<Rightarrow> origin_verdict" where
  "verify_vote_origin env vote =
     (case ve_header_by_hash env (target_hash (data vote)) of
        None \<Rightarrow> OriginUnverifiable
      | Some h \<Rightarrow>
          if number h \<noteq> target_number (data vote) then OriginRejected
          else
            (case justified_pair_for_hash env (target_hash (data vote)) of
               None \<Rightarrow> OriginUnverifiable
             | Some (justified_number, justified_hash) \<Rightarrow>
                 if source_number (data vote) \<noteq> justified_number \<or> source_hash (data vote) \<noteq> justified_hash
                 then OriginRejected
                 else
                   (case ve_snapshot env (parent_hash h) of
                      None \<Rightarrow> OriginUnverifiable
                    | Some parent_snap \<Rightarrow>
                        if known_voter parent_snap (vote_address vote) then OriginOk else OriginRejected)))"

definition is_within_admission_window :: "u64 \<Rightarrow> u64 option \<Rightarrow> bool" where
  "is_within_admission_window tn head =
     (case head of
        None \<Rightarrow> True
      | Some head \<Rightarrow>
          if saturating_add tn (LOWER_LIMIT_OF_VOTE_BLOCK_NUMBER - 1) < head then False
          else tn \<le> saturating_add head UPPER_LIMIT_OF_VOTE_BLOCK_NUMBER)"

definition remember_rejected :: "b256 \<Rightarrow> vote_state \<Rightarrow> vote_state" where
  "remember_rejected vh s =
     s\<lparr>rejected_votes := lru_put REJECTED_VOTE_CACHE_SIZE vh () (rejected_votes s)\<rparr>"

section \<open>Operations on the global state\<close>

definition vote_state_new :: vote_state where
  "vote_state_new = \<lparr>vote_pool_of = vote_pool_new, last_pruned_block = 0, rejected_votes = [],
     finalized_notified = [], forkchoice_updates = []\<rparr>"

text \<open>The fork-choice update that is spawned is appended to \<open>forkchoice_updates\<close>.\<close>

definition maybe_notify_finality :: "vote_env \<Rightarrow> b256 \<Rightarrow> nat \<Rightarrow> vote_state \<Rightarrow> vote_state" where
  "maybe_notify_finality env th votes_for_block s =
     (if map_of (finalized_notified s) th \<noteq> None then s
      else
        (case do {
            head_number \<leftarrow> ve_best_number env;
            head \<leftarrow> ve_header_by_number env head_number;
            if ve_hash env head \<noteq> th then None
            else do {
              snap \<leftarrow> ve_snapshot env th;
              let jn = target_number (vote_data snap);
              let q = quorum (length (validators snap));
              if validators snap = [] \<or> number head = 0 \<or> number head - 1 \<noteq> jn \<or> votes_for_block < q then None
              else if length (filter (\<lambda>v. source_number (data v) = jn \<and> target_number (data v) = number head)
                       (fetch_vote_by_block_hash (vote_pool_of s) th)) < q
              then None
              else Some head
            }
          } of
           None \<Rightarrow> s
         | Some head \<Rightarrow>
             s\<lparr>finalized_notified := lru_put FINALIZED_NOTIFIED_CACHE_SIZE th () (finalized_notified s),
               forkchoice_updates := forkchoice_updates s @ (if ve_has_fork_choice_engine env then [head] else [])\<rparr>))"

definition resolve_candidates :: "vote_env \<Rightarrow> promotion_candidate list \<Rightarrow> (b256, verdicts) hash_map" where
  "resolve_candidates env cands =
     fold (\<lambda>c m.
         if \<not> cand_expired c \<and> ve_header_by_hash env (cand_target_hash c) = None then m
         else AList.update (cand_target_hash c)
                (fold (\<lambda>e. AList.update (entry_hash e) (verify_vote_origin env (entry_envelope e) = OriginOk))
                   (cand_votes c) []) m) cands []"

text \<open>The write phase of a promotion, and the notifications once the lock is released.\<close>

definition finish_promotion ::
  "vote_env \<Rightarrow> u64 \<Rightarrow> (b256, verdicts) hash_map \<Rightarrow> vote_state \<Rightarrow> vote_state" where
  "finish_promotion env head_number resolved s =
     (let (promoted, pool) = apply_promotion head_number resolved (vote_pool_of s);
          counts = map (\<lambda>bh. (bh, len_for_block pool bh)) promoted
      in fold (\<lambda>(bh, count) s. if count > 0 then maybe_notify_finality env bh count s else s)
           counts (s\<lparr>vote_pool_of := pool\<rparr>))"

definition promote_future_votes :: "vote_env \<Rightarrow> u64 \<Rightarrow> vote_state \<Rightarrow> vote_state" where
  "promote_future_votes env head_number s =
     (let candidates = promotion_candidates (vote_pool_of s) head_number in
      if candidates = [] then s
      else
        (let resolved = resolve_candidates env candidates in
         if resolved = [] then s else finish_promotion env head_number resolved s))"

definition shrink_oversized :: "u64 \<Rightarrow> vote_pool \<Rightarrow> vote_pool" where
  "shrink_oversized pending p =
     (if total_votes p > MAX_VOTES_IN_POOL then
        (let p1 = pool_prune pending p in
         case overflow_shed_target (total_votes p1) of
           Some to_shed \<Rightarrow> snd (shed_future_votes to_shed p1)
         | None \<Rightarrow> p1)
      else p)"

text \<open>The part of \<open>put_vote_inner\<close> under the write lock, and the notification after it.\<close>

definition admit_locked ::
  "vote_env \<Rightarrow> vote_envelope \<Rightarrow> u64 \<Rightarrow> bool \<Rightarrow> bool \<Rightarrow> bool \<Rightarrow> vote_state \<Rightarrow> vote_state option" where
  "admit_locked env vote pending is_future authenticated need_head_work s =
     (let th = target_hash (data vote) in
      if is_at_capacity (vote_pool_of s) th is_future authenticated then Some s
      else do {
        (votes_for_block, pool) \<leftarrow> pool_insert env vote pending is_future authenticated (vote_pool_of s);
        let pool1 = (if need_head_work then pool_prune pending pool else pool);
        let s1 = s\<lparr>vote_pool_of := shrink_oversized pending pool1,
          last_pruned_block := (if need_head_work then max (last_pruned_block s) pending else last_pruned_block s)\<rparr>;
        Some (if votes_for_block > 0 then maybe_notify_finality env th votes_for_block s1 else s1)
      })"

definition admit_vote :: "vote_env \<Rightarrow> vote_envelope \<Rightarrow> u64 \<Rightarrow> bool \<Rightarrow> bool \<Rightarrow> vote_state \<Rightarrow> vote_state option" where
  "admit_vote env vote pending is_future authenticated s =
     (let need_head_work = (pending > last_pruned_block s);
          s1 = (if need_head_work then promote_future_votes env pending s else s)
      in admit_locked env vote pending is_future authenticated need_head_work s1)"

text \<open>The decision before the lock is taken: admitted as future or not, with the sender known or not.\<close>

datatype admission = Admit bool bool | Drop | DropAndRemember

definition classify_vote :: "vote_env \<Rightarrow> vote_envelope \<Rightarrow> admission" where
  "classify_vote env vote =
     (if \<not> ve_has_header_provider env \<or> ve_header_by_hash env (target_hash (data vote)) = None then
        (case future_vote_sender_is_validator env vote of
           Some False \<Rightarrow> Drop
         | Some True \<Rightarrow> Admit True True
         | None \<Rightarrow> Admit True False)
      else
        (case verify_vote_origin env vote of
           OriginOk \<Rightarrow> Admit False False
         | OriginRejected \<Rightarrow> DropAndRemember
         | OriginUnverifiable \<Rightarrow> Drop))"

definition put_vote_inner :: "vote_env \<Rightarrow> vote_envelope \<Rightarrow> b256 \<Rightarrow> vote_state \<Rightarrow> vote_state option" where
  "put_vote_inner env vote vote_hash s =
     (case classify_vote env vote of
        Admit is_future authenticated \<Rightarrow>
          admit_vote env vote (unwrap_or (ve_best_number env) 0) is_future authenticated s
      | Drop \<Rightarrow> Some s
      | DropAndRemember \<Rightarrow> Some (remember_rejected vote_hash s))"

definition put_vote :: "vote_env \<Rightarrow> vote_envelope \<Rightarrow> vote_state \<Rightarrow> vote_state option" where
  "put_vote env vote s =
     (if \<not> is_within_admission_window (target_number (data vote)) (ve_best_number env) then Some s
      else
        (let vote_hash = ve_vote_hash env vote in
         if vote_hash \<in> received_votes (vote_pool_of s) then Some s
         else if map_of (rejected_votes s) vote_hash \<noteq> None then Some s
         else if \<not> ve_verify env vote then Some (remember_rejected vote_hash s)
         else put_vote_inner env vote vote_hash s))"

definition drain_votes :: "vote_state \<Rightarrow> vote_envelope list \<times> vote_state" where
  "drain_votes s = (let (vs, p) = pool_drain (vote_pool_of s) in (vs, s\<lparr>vote_pool_of := p\<rparr>))"

section \<open>The contract of the queue\<close>

text \<open>What the pool relies on: a priority queue over a multiset of vote data, smallest target first.\<close>

locale vote_queue =
  fixes push :: "vote_data \<Rightarrow> 'q \<Rightarrow> 'q"
    and peek :: "'q \<Rightarrow> vote_data option"
    and pop :: "'q \<Rightarrow> 'q"
    and invar :: "'q \<Rightarrow> bool"
    and elems :: "'q \<Rightarrow> vote_data multiset"
  assumes elems_push: "invar q \<Longrightarrow> elems (push vd q) = add_mset vd (elems q)"
    and invar_push: "invar q \<Longrightarrow> invar (push vd q)"
    and peek_None: "invar q \<Longrightarrow> peek q = None \<longleftrightarrow> elems q = {#}"
    and peek_mem: "invar q \<Longrightarrow> peek q = Some vd \<Longrightarrow> vd \<in># elems q"
    and peek_min: "invar q \<Longrightarrow> peek q = Some vd \<Longrightarrow> w \<in># elems q \<Longrightarrow> target_number vd \<le> target_number w"
    and elems_pop: "invar q \<Longrightarrow> peek q = Some vd \<Longrightarrow> elems (pop q) = elems q - {#vd#}"
    and invar_pop: "invar q \<Longrightarrow> peek q = Some vd \<Longrightarrow> invar (pop q)"
begin

text \<open>Once the first target is above a bound, all are.\<close>

lemma peek_above: "invar q \<Longrightarrow> peek q = Some vd \<Longrightarrow> n < target_number vd \<Longrightarrow> w \<in># elems q \<Longrightarrow> n < target_number w"
  using peek_min by (blast intro: less_le_trans)

lemma pop_split: "invar q \<Longrightarrow> peek q = Some vd \<Longrightarrow> elems q = add_mset vd (elems (pop q))"
  using elems_pop peek_mem by simp

lemma fold_push:
  "invar q \<Longrightarrow> invar (fold push vds q) \<and> elems (fold push vds q) = elems q + mset vds"
  by (induction vds arbitrary: q) (simp_all add: elems_push invar_push)

end

interpretation pq: vote_queue pq_push pq_peek pq_pop "\<lambda>q. sorted (map target_number q)" mset
proof unfold_locales
  fix q :: "vote_data list" and vd w
  assume s: "sorted (map target_number q)"
  show "mset (pq_push vd q) = add_mset vd (mset q)" by (simp add: pq_push_def)
  show "sorted (map target_number (pq_push vd q))" using s by (simp add: pq_push_def sorted_insort_key)
  show "pq_peek q = None \<longleftrightarrow> mset q = {#}" by (simp add: pq_peek_def split: list.splits)
  assume peek: "pq_peek q = Some vd"
  then obtain r where q: "q = vd # r" by (auto simp: pq_peek_def split: list.splits)
  show "vd \<in># mset q" "mset (pq_pop q) = mset q - {#vd#}" by (simp_all add: q pq_pop_def)
  show "sorted (map target_number (pq_pop q))" using s by (simp add: q pq_pop_def)
  show "w \<in># mset q \<Longrightarrow> target_number vd \<le> target_number w" using s by (auto simp: q)
qed

end
