(* ===== verification/VotePoolSafety.thy ===== *)
theory VotePoolSafety
  imports VotePool
begin

text \<open>
  Invariants of the vote pool and the properties that rest on them: the books of the pool
  (received hashes, total, queues) match its buckets after every operation, the size stays
  bounded, only votes that passed the origin check are current, and the bounded selection of
  promotion targets equals its specification.
\<close>

section \<open>Buckets\<close>

definition bucket_hashes :: "vote_messages \<Rightarrow> b256 multiset" where
  "bucket_hashes vm = mset (map entry_hash (messages vm))"

definition pool_hashes :: "vote_buckets \<Rightarrow> b256 multiset" where
  "pool_hashes m = sum_list (map (\<lambda>(_, vm). bucket_hashes vm) m)"

lemma pool_hashes_Nil [simp]: "pool_hashes [] = {#}"
  by (simp add: pool_hashes_def)

lemma pool_hashes_delete:
  assumes "hm_wf m" and "map_of m k = Some vm"
  shows "pool_hashes m = bucket_hashes vm + pool_hashes (AList.delete k m)"
  using assms
proof (induction m)
  case (Cons x m)
  show ?case
  proof (cases "fst x = k")
    case True
    then have "AList.delete k m = m"
      using Cons.prems(1) by (auto simp: hm_wf_def delete_idem)
    then show ?thesis using True Cons.prems(2) by (cases x) (simp add: pool_hashes_def)
  next
    case False
    then show ?thesis using Cons by (cases x) (simp add: pool_hashes_def hm_wf_def ac_simps)
  qed
qed simp

lemma pool_hashes_update:
  assumes "hm_wf m"
  shows "pool_hashes (AList.update k vm m) = bucket_hashes vm + pool_hashes (AList.delete k m)"
  using assms
proof (induction m)
  case (Cons x m)
  show ?case
  proof (cases "fst x = k")
    case True
    then have "AList.delete k m = m"
      using Cons.prems(1) by (auto simp: hm_wf_def delete_idem)
    then show ?thesis using True by (cases x) (simp add: pool_hashes_def)
  next
    case False
    then show ?thesis using Cons by (cases x) (simp add: pool_hashes_def hm_wf_def ac_simps)
  qed
qed (simp add: pool_hashes_def)

lemma pool_hashes_extend:
  assumes "hm_wf m"
  shows "pool_hashes (extend_bucket k es n m) = mset (map entry_hash es) + pool_hashes m"
proof (cases "map_of m k")
  case None
  then have "AList.delete k m = m" by (simp add: delete_idem map_of_eq_None_iff)
  with None show ?thesis
    by (simp add: extend_bucket_def pool_hashes_update [OF assms] bucket_hashes_def)
next
  case (Some vm)
  then show ?thesis
    using pool_hashes_delete [OF assms Some]
    by (simp add: extend_bucket_def pool_hashes_update [OF assms] bucket_hashes_def ac_simps)
qed

text \<open>
  A well-formed bucket of a target: not empty, the counter right, every entry under its own hash
  and target. \<open>Q\<close> is a predicate on the envelopes.
\<close>

definition bucket_ok :: "(vote_envelope \<Rightarrow> b256) \<Rightarrow> (vote_envelope \<Rightarrow> bool) \<Rightarrow> b256 \<Rightarrow> vote_messages \<Rightarrow> bool" where
  "bucket_ok vh Q k vm \<longleftrightarrow>
     messages vm \<noteq> [] \<and> authenticated_count vm = length (filter entry_authenticated (messages vm)) \<and>
     (\<forall>e \<in> set (messages vm). entry_hash e = vh (entry_envelope e) \<and>
        target_hash (data (entry_envelope e)) = k \<and> Q (entry_envelope e))"

definition buckets_ok :: "(vote_envelope \<Rightarrow> b256) \<Rightarrow> (vote_envelope \<Rightarrow> bool) \<Rightarrow> vote_buckets \<Rightarrow> bool" where
  "buckets_ok vh Q m \<longleftrightarrow> hm_wf m \<and> (\<forall>k vm. map_of m k = Some vm \<longrightarrow> bucket_ok vh Q k vm)"

definition entry_ok :: "(vote_envelope \<Rightarrow> b256) \<Rightarrow> (vote_envelope \<Rightarrow> bool) \<Rightarrow> b256 \<Rightarrow> vote_entry \<Rightarrow> bool" where
  "entry_ok vh Q k e \<longleftrightarrow> entry_hash e = vh (entry_envelope e) \<and>
     target_hash (data (entry_envelope e)) = k \<and> Q (entry_envelope e)"

lemma buckets_ok_delete: "buckets_ok vh Q m \<Longrightarrow> buckets_ok vh Q (AList.delete k m)"
  by (auto simp: buckets_ok_def delete_conv' hm.invar_del split: if_splits)

lemma buckets_ok_extend:
  assumes "buckets_ok vh Q m" and "es \<noteq> []" and "n = length (filter entry_authenticated es)"
    and "\<forall>e \<in> set es. entry_ok vh Q k e"
  shows "buckets_ok vh Q (extend_bucket k es n m)"
proof -
  have "bucket_ok vh Q k \<lparr>messages = messages vm @ es, authenticated_count = authenticated_count vm + n\<rparr>"
    if "vm = unwrap_or (map_of m k) \<lparr>messages = [], authenticated_count = 0\<rparr>" for vm
    using assms that
    by (cases "map_of m k") (auto simp: bucket_ok_def buckets_ok_def entry_ok_def)
  then show ?thesis
    using assms(1) by (auto simp: buckets_ok_def extend_bucket_def Let_def update_conv' hm.invar_ins)
qed

lemma keys_extend: "fst ` set (extend_bucket k es n m) = insert k (fst ` set m)"
  by (simp add: extend_bucket_def Let_def keys_hm_update)

lemma keys_delete: "fst ` set (AList.delete k m) = fst ` set m - {k}"
  by (simp add: delete_keys dom_map_of_conv_image_fst [symmetric] delete_conv')

lemma keys_lookup: "k \<in> fst ` set m \<longleftrightarrow> map_of m k \<noteq> None"
  by (simp add: map_of_eq_None_iff)

section \<open>The invariant\<close>

text \<open>The books: received hashes and total against the multiset of pooled hashes, no hash twice.\<close>

definition books :: "b256 set \<Rightarrow> nat \<Rightarrow> b256 multiset \<Rightarrow> bool" where
  "books R n H \<longleftrightarrow> R = set_mset H \<and> n = size H \<and> (\<forall>x. count H x \<le> 1)"

lemma books_remove:
  assumes "books R n (B + H)"
  shows "books (R - set_mset B) (n - size B) H"
proof -
  have c: "count B x + count H x \<le> 1" for x using assms by (simp add: books_def)
  have "x \<in># H \<Longrightarrow> x \<notin># B" for x using c [of x] by (simp add: count_greater_zero_iff [symmetric] del: count_greater_zero_iff)
  then show ?thesis using assms c by (auto simp: books_def) (metis add_leD2)
qed

lemma books_add: "books R n H \<Longrightarrow> x \<notin> R \<Longrightarrow> books (insert x R) (n + 1) (add_mset x H)"
  by (auto simp: books_def not_in_iff)

definition pool_core :: "(vote_envelope \<Rightarrow> b256) \<Rightarrow> (vote_envelope \<Rightarrow> bool) \<Rightarrow> (vote_envelope \<Rightarrow> bool) \<Rightarrow> vote_pool \<Rightarrow> bool" where
  "pool_core vh P S p \<longleftrightarrow>
     buckets_ok vh P (cur_votes p) \<and> buckets_ok vh S (future_votes p) \<and>
     sorted (map target_number (cur_votes_pq p)) \<and> sorted (map target_number (future_votes_pq p)) \<and>
     fst ` set (cur_votes p) \<subseteq> target_hash ` set (cur_votes_pq p) \<and>
     books (received_votes p) (total_votes p) (pool_hashes (cur_votes p) + pool_hashes (future_votes p))"

text \<open>Every future target is queued, or among the targets \<open>D\<close> that are about to be queued again.\<close>

definition covered :: "vote_pool \<Rightarrow> vote_data set \<Rightarrow> bool" where
  "covered p D \<longleftrightarrow> fst ` set (future_votes p) \<subseteq> target_hash ` (set (future_votes_pq p) \<union> D)"

definition pool_ok :: "(vote_envelope \<Rightarrow> b256) \<Rightarrow> (vote_envelope \<Rightarrow> bool) \<Rightarrow> (vote_envelope \<Rightarrow> bool) \<Rightarrow> vote_pool \<Rightarrow> bool" where
  "pool_ok vh P S p \<longleftrightarrow> pool_core vh P S p \<and> covered p {}"

lemma set_pq_push [simp]: "set (pq_push vd q) = insert vd (set q)"
  by (simp add: pq_push_def set_insort_key)

lemma sorted_pq_push: "sorted (map target_number q) \<Longrightarrow> sorted (map target_number (pq_push vd q))"
  by (rule pq.invar_push)

lemma track_target_ok:
  assumes "sorted (map target_number q)" and "fst ` set m \<subseteq> target_hash ` (set q \<union> D)" and "target_hash vd = k"
  shows "sorted (map target_number (track_target k vd m q))"
    and "insert k (fst ` set m) \<subseteq> target_hash ` (set (track_target k vd m q) \<union> D)"
proof -
  show "sorted (map target_number (track_target k vd m q))"
    using assms(1) by (simp add: track_target_def sorted_pq_push)
  show "insert k (fst ` set m) \<subseteq> target_hash ` (set (track_target k vd m q) \<union> D)"
  proof (cases "map_of m k")
    case None
    then show ?thesis using assms(2,3) by (auto simp: track_target_def)
  next
    case (Some vm)
    then have "k \<in> fst ` set m" by (simp add: keys_lookup)
    then show ?thesis using assms(2) Some by (auto simp: track_target_def)
  qed
qed

lemma pool_new_ok: "pool_ok vh P S vote_pool_new"
  by (simp add: pool_ok_def pool_core_def covered_def vote_pool_new_def buckets_ok_def hm_wf_def books_def)

lemma pool_drain_ok: "pool_ok vh P S (snd (pool_drain p))"
  by (simp add: pool_ok_def pool_core_def covered_def pool_drain_def buckets_ok_def hm_wf_def books_def)

section \<open>The operations keep the invariant\<close>

lemma remove_future_ok:
  assumes "pool_core vh P S p"
  shows "pool_core vh P S (snd (remove_future_bucket k p))"
    and "future_votes (snd (remove_future_bucket k p)) = AList.delete k (future_votes p)"
    and "total_votes (snd (remove_future_bucket k p)) + fst (remove_future_bucket k p) = total_votes p"
proof -
  have wf: "hm_wf (future_votes p)" using assms by (simp add: pool_core_def buckets_ok_def)
  show "future_votes (snd (remove_future_bucket k p)) = AList.delete k (future_votes p)"
  proof (cases "map_of (future_votes p) k")
    case None
    then have "k \<notin> fst ` set (future_votes p)" using keys_lookup [of k "future_votes p"] by blast
    then have "AList.delete k (future_votes p) = future_votes p" by (simp add: delete_idem)
    with None show ?thesis by (simp add: remove_future_bucket_def)
  qed (simp add: remove_future_bucket_def)
  show "pool_core vh P S (snd (remove_future_bucket k p))"
  proof (cases "map_of (future_votes p) k")
    case None
    then show ?thesis using assms by (simp add: remove_future_bucket_def)
  next
    case (Some vm)
    have "books (received_votes p) (total_votes p)
        (bucket_hashes vm + (pool_hashes (cur_votes p) + pool_hashes (AList.delete k (future_votes p))))"
      using assms pool_hashes_delete [OF wf Some] by (simp add: pool_core_def ac_simps)
    from books_remove [OF this] show ?thesis
      using assms Some
      by (simp add: pool_core_def remove_future_bucket_def buckets_ok_delete bucket_hashes_def)
  qed
  show "total_votes (snd (remove_future_bucket k p)) + fst (remove_future_bucket k p) = total_votes p"
  proof (cases "map_of (future_votes p) k")
    case (Some vm)
    have "length (messages vm) \<le> total_votes p"
      using assms pool_hashes_delete [OF wf Some] by (simp add: pool_core_def books_def bucket_hashes_def)
    then show ?thesis using Some by (simp add: remove_future_bucket_def)
  qed (simp add: remove_future_bucket_def)
qed

lemma remove_future_simps [simp]:
  "cur_votes (snd (remove_future_bucket k p)) = cur_votes p"
  "cur_votes_pq (snd (remove_future_bucket k p)) = cur_votes_pq p"
  "future_votes_pq (snd (remove_future_bucket k p)) = future_votes_pq p"
  by (simp_all add: remove_future_bucket_def split: option.splits)

text \<open>The current half: the queue is replaced at the end of the loop, so it is not constrained here.\<close>

lemma remove_cur_ok:
  assumes "pool_core vh P S (p\<lparr>cur_votes_pq := vd # q\<rparr>)"
  shows "pool_core vh P S (remove_cur_bucket (target_hash vd) p\<lparr>cur_votes_pq := q\<rparr>)"
    and "total_votes (remove_cur_bucket (target_hash vd) p) \<le> total_votes p"
proof -
  let ?k = "target_hash vd"
  have wf: "hm_wf (cur_votes p)" and keys: "fst ` set (cur_votes p) \<subseteq> insert ?k (target_hash ` set q)"
    using assms by (simp_all add: pool_core_def buckets_ok_def)
  show "pool_core vh P S (remove_cur_bucket ?k p\<lparr>cur_votes_pq := q\<rparr>)"
  proof (cases "map_of (cur_votes p) ?k")
    case None
    then have "?k \<notin> fst ` set (cur_votes p)" using keys_lookup [of ?k "cur_votes p"] by blast
    then have "fst ` set (cur_votes p) \<subseteq> target_hash ` set q"
      using keys by (rule subset_insert [THEN iffD1])
    then show ?thesis using assms None by (simp add: pool_core_def remove_cur_bucket_def)
  next
    case (Some vm)
    have "books (received_votes p) (total_votes p)
        (bucket_hashes vm + (pool_hashes (AList.delete ?k (cur_votes p)) + pool_hashes (future_votes p)))"
      using assms pool_hashes_delete [OF wf Some] by (simp add: pool_core_def ac_simps)
    note rest = books_remove [OF this]
    have "fst ` set (AList.delete ?k (cur_votes p)) \<subseteq> target_hash ` set q"
      unfolding keys_delete Diff_subset_conv using keys by simp
    then show ?thesis
      using assms Some rest
      by (simp add: pool_core_def remove_cur_bucket_def buckets_ok_delete bucket_hashes_def)
  qed
  show "total_votes (remove_cur_bucket ?k p) \<le> total_votes p"
    by (simp add: remove_cur_bucket_def split: option.splits)
qed

lemma remove_cur_simps [simp]:
  "future_votes (remove_cur_bucket k p) = future_votes p"
  "future_votes_pq (remove_cur_bucket k p) = future_votes_pq p"
  by (simp_all add: remove_cur_bucket_def split: option.splits)

lemma prune_cur_ok:
  assumes "pool_core vh P S (p\<lparr>cur_votes_pq := q\<rparr>)"
  shows "pool_core vh P S (prune_cur_loop latest q p) \<and>
         total_votes (prune_cur_loop latest q p) \<le> total_votes p \<and>
         future_votes (prune_cur_loop latest q p) = future_votes p \<and>
         future_votes_pq (prune_cur_loop latest q p) = future_votes_pq p"
  using assms
proof (induction latest q p rule: prune_cur_loop.induct)
  case (2 latest vd q p)
  note rm = remove_cur_ok [OF "2.prems"]
  show ?case using "2.IH" [OF _ rm(1)] "2.prems" rm(2) by auto
qed simp

lemma remove_future_pq:
  "remove_future_bucket k (p\<lparr>future_votes_pq := q\<rparr>) =
     (fst (remove_future_bucket k p), snd (remove_future_bucket k p)\<lparr>future_votes_pq := q\<rparr>)"
  by (simp add: remove_future_bucket_def split: option.splits)

lemma pool_core_tail:
  "pool_core vh P S (p\<lparr>future_votes_pq := vd # q\<rparr>) \<Longrightarrow> pool_core vh P S (p\<lparr>future_votes_pq := q\<rparr>)"
  by (simp add: pool_core_def)

lemma remove_future_covered:
  assumes "pool_core vh P S p" and "covered (p\<lparr>future_votes_pq := vd # q\<rparr>) D"
  shows "covered (snd (remove_future_bucket (target_hash vd) p)\<lparr>future_votes_pq := q\<rparr>) D"
  using assms(2) unfolding covered_def
  by (simp add: remove_future_ok(2) [OF assms(1)] keys_delete Diff_subset_conv)

lemma prune_future_ok:
  assumes "pool_core vh P S (p\<lparr>future_votes_pq := q\<rparr>)" and "covered (p\<lparr>future_votes_pq := q\<rparr>) {}"
  shows "pool_ok vh P S (prune_future_loop latest q p) \<and>
         total_votes (prune_future_loop latest q p) \<le> total_votes p \<and>
         (future_votes p = [] \<longrightarrow> future_votes (prune_future_loop latest q p) = [])"
  using assms
proof (induction latest q p rule: prune_future_loop.induct)
  case (1 latest p)
  then show ?case by (simp add: pool_ok_def)
next
  case (2 latest vd q p)
  let ?p' = "snd (remove_future_bucket (target_hash vd) p)"
  have core: "pool_core vh P S (p\<lparr>future_votes_pq := q\<rparr>)" using "2.prems"(1) by (rule pool_core_tail)
  have core': "pool_core vh P S (?p'\<lparr>future_votes_pq := q\<rparr>)"
    using remove_future_ok(1) [OF core, of "target_hash vd"] by (simp add: remove_future_pq)
  have cov': "covered (?p'\<lparr>future_votes_pq := q\<rparr>) {}"
    using remove_future_covered [of vh P S "p\<lparr>future_votes_pq := q\<rparr>" vd q "{}"] core "2.prems"(2)
    by (simp add: remove_future_pq)
  have le: "total_votes ?p' \<le> total_votes p" and emp: "future_votes p = [] \<Longrightarrow> future_votes ?p' = []"
    by (simp_all add: remove_future_bucket_def split: option.splits)
  show ?case
    using "2.IH" [OF _ core' cov'] "2.prems" le emp by (auto simp: pool_ok_def)
qed

lemma pool_prune_ok:
  assumes "pool_ok vh P S p"
  shows "pool_ok vh P S (pool_prune latest p) \<and> total_votes (pool_prune latest p) \<le> total_votes p \<and>
    (future_votes p = [] \<longrightarrow> future_votes (pool_prune latest p) = [])"
proof -
  let ?p1 = "prune_cur_loop latest (cur_votes_pq p) p"
  have "pool_core vh P S (p\<lparr>cur_votes_pq := cur_votes_pq p\<rparr>)" using assms by (simp add: pool_ok_def)
  note c = prune_cur_ok [OF this, of latest]
  have "covered ?p1 {}" using assms c by (simp add: pool_ok_def covered_def)
  then have "pool_core vh P S (?p1\<lparr>future_votes_pq := future_votes_pq ?p1\<rparr>)"
    "covered (?p1\<lparr>future_votes_pq := future_votes_pq ?p1\<rparr>) {}" using conjunct1 [OF c] by simp_all
  from prune_future_ok [OF this, of latest] show ?thesis
    using c by (simp add: pool_prune_def Let_def)
qed

text \<open>Shedding stops when enough is released, or has emptied every target of the order.\<close>

lemma shed_loop_ok:
  assumes "pool_core vh P S p" and "shed_loop target order shed p = (shed', p')"
  shows "pool_core vh P S p' \<and> total_votes p' + shed' = total_votes p + shed \<and>
    (target \<le> shed' \<or> fst ` set (future_votes p') \<subseteq> fst ` set (future_votes p) - target_hash ` set order)"
  using assms
proof (induction target order shed p rule: shed_loop.induct)
  case (2 target vd order shed p)
  let ?r = "remove_future_bucket (target_hash vd) p"
  show ?case
  proof (cases "shed \<ge> target")
    case False
    then have run: "shed_loop target order (shed + fst ?r) (snd ?r) = (shed', p')"
      using "2.prems"(2) by (simp add: case_prod_beta)
    note rm = remove_future_ok [OF "2.prems"(1), of "target_hash vd"]
    have "pool_core vh P S p' \<and> total_votes p' + shed' = total_votes (snd ?r) + (shed + fst ?r) \<and>
      (target \<le> shed' \<or> fst ` set (future_votes p') \<subseteq> fst ` set (future_votes (snd ?r)) - target_hash ` set order)"
      using "2.IH" [OF False refl prod.collapse rm(1) run] .
    then show ?thesis using rm(2,3) by (auto simp: keys_delete)
  qed (use "2.prems" in simp)
qed simp

lemma shed_loop_future_empty:
  "future_votes p = [] \<Longrightarrow> shed_loop target order shed p = (shed', p') \<Longrightarrow> future_votes p' = []"
  by (induction target order shed p rule: shed_loop.induct)
    (auto simp: remove_future_bucket_def split: if_splits)

lemma set_fold_push [simp]: "set (fold pq_push vds q) = set q \<union> set vds"
  by (induction vds arbitrary: q) auto

lemma sorted_fold_push: "sorted (map target_number q) \<Longrightarrow> sorted (map target_number (fold pq_push vds q))"
  using pq.fold_push by blast

text \<open>The queue rebuilt from the first vote of every bucket covers all buckets.\<close>

lemma surviving_covers:
  assumes "buckets_ok vh S m"
  shows "fst ` set m \<subseteq> target_hash ` set (List.map_filter
    (\<lambda>(_, vm). case messages vm of [] \<Rightarrow> None | e # _ \<Rightarrow> Some (data (entry_envelope e))) m)"
proof
  fix k assume "k \<in> fst ` set m"
  then obtain vm where kvm: "(k, vm) \<in> set m" by auto
  then have "map_of m k = Some vm" using assms by (simp add: buckets_ok_def hm_wf_def)
  then have "bucket_ok vh S k vm" using assms by (simp add: buckets_ok_def)
  then obtain e es where "messages vm = e # es" "target_hash (data (entry_envelope e)) = k"
    by (cases "messages vm") (auto simp: bucket_ok_def)
  with kvm show "k \<in> target_hash ` set (List.map_filter
      (\<lambda>(_, vm). case messages vm of [] \<Rightarrow> None | e # _ \<Rightarrow> Some (data (entry_envelope e))) m)"
    by (force simp: map_filter_def image_iff)
qed

lemma shed_ok:
  assumes "pool_ok vh P S p"
  shows "pool_ok vh P S (snd (shed_future_votes target p)) \<and>
    total_votes (snd (shed_future_votes target p)) \<le> total_votes p \<and>
    (total_votes (snd (shed_future_votes target p)) + target \<le> total_votes p \<or>
     future_votes (snd (shed_future_votes target p)) = []) \<and>
    (future_votes p = [] \<longrightarrow> future_votes (snd (shed_future_votes target p)) = [])"
proof -
  let ?order = "sort_key (\<lambda>vd. u64_max - target_number vd) (future_votes_pq p)"
  obtain n p1 where run: "shed_loop target ?order 0 p = (n, p1)" by fastforce
  let ?s = "List.map_filter
    (\<lambda>(_, vm). case messages vm of [] \<Rightarrow> None | e # _ \<Rightarrow> Some (data (entry_envelope e))) (future_votes p1)"
  have res: "snd (shed_future_votes target p) = p1\<lparr>future_votes_pq := fold pq_push ?s []\<rparr>"
    by (simp add: shed_future_votes_def run)
  have core: "pool_core vh P S p" and cov: "fst ` set (future_votes p) \<subseteq> target_hash ` set (future_votes_pq p)"
    using assms by (simp_all add: pool_ok_def covered_def)
  note loop = shed_loop_ok [OF core run]
  have "pool_core vh P S (p1\<lparr>future_votes_pq := fold pq_push ?s []\<rparr>)"
    using loop sorted_fold_push [of "[]" ?s] by (simp add: pool_core_def)
  moreover have "covered (p1\<lparr>future_votes_pq := fold pq_push ?s []\<rparr>) {}"
    using loop surviving_covers [of vh S "future_votes p1"] by (simp add: covered_def pool_core_def)
  moreover have "target \<le> n \<or> future_votes p1 = []"
  proof (cases "target \<le> n")
    case False
    then have "fst ` set (future_votes p1) \<subseteq> fst ` set (future_votes p) - target_hash ` set (future_votes_pq p)"
      using loop by simp
    also have "\<dots> = {}" using cov by (simp only: Diff_eq_empty_iff)
    finally have "fst ` set (future_votes p1) = {}" by simp
    then show ?thesis by simp
  qed simp
  moreover have "future_votes p = [] \<longrightarrow> future_votes p1 = []"
    using shed_loop_future_empty [OF _ run] by blast
  moreover have "total_votes p1 + n = total_votes p" using loop by simp
  ultimately show ?thesis unfolding pool_ok_def res by (intro conjI) (simp_all, linarith+)
qed

lemma pool_insert_ok:
  assumes "pool_ok vh P S p" and vh: "ve_vote_hash env = vh" and Q: "if is_future then S vote else P vote"
    and run: "pool_insert env vote pending is_future auth p = Some (n, p')"
  shows "pool_ok vh P S p'"
proof (cases "vh vote \<in> received_votes p")
  case True
  then show ?thesis using run assms(1) by (simp add: pool_insert_def vh)
next
  case False
  let ?bh = "target_hash (data vote)" and ?n = "if auth then 1 else 0"
  let ?e = "\<lparr>entry_hash = vh vote, entry_envelope = vote, entry_authenticated = auth\<rparr>"
  have p: "buckets_ok vh P (cur_votes p)" "buckets_ok vh S (future_votes p)"
    "sorted (map target_number (cur_votes_pq p))" "sorted (map target_number (future_votes_pq p))"
    "fst ` set (cur_votes p) \<subseteq> target_hash ` (set (cur_votes_pq p) \<union> {})"
    "fst ` set (future_votes p) \<subseteq> target_hash ` (set (future_votes_pq p) \<union> {})"
    using assms(1) by (simp_all add: pool_ok_def pool_core_def covered_def)
  have wf: "hm_wf (cur_votes p)" "hm_wf (future_votes p)" using p by (simp_all add: buckets_ok_def)
  have books: "books (insert (vh vote) (received_votes p)) (total_votes p + 1)
      (add_mset (vh vote) (pool_hashes (cur_votes p) + pool_hashes (future_votes p)))"
    using assms(1) False by (intro books_add) (simp_all add: pool_ok_def pool_core_def)
  show ?thesis
  proof (cases is_future)
    case True
    then have "buckets_ok vh S (extend_bucket ?bh [?e] ?n (future_votes p))"
      using Q p(2) by (intro buckets_ok_extend) (simp_all add: entry_ok_def)
    moreover obtain mon where "p' = p\<lparr>received_votes := insert (vh vote) (received_votes p), vote_monitor := mon,
        future_votes_pq := track_target ?bh (data vote) (future_votes p) (future_votes_pq p),
        future_votes := extend_bucket ?bh [?e] ?n (future_votes p), total_votes := total_votes p + 1\<rparr>"
      using run False True by (auto simp: pool_insert_def vh Let_def bind_eq_Some_conv)
    ultimately show ?thesis
      using p(1,3,5) books track_target_ok [OF p(4,6), of "data vote" ?bh]
      by (simp add: pool_ok_def pool_core_def covered_def keys_extend pool_hashes_extend [OF wf(2)])
  next
    case cur: False
    then have "buckets_ok vh P (extend_bucket ?bh [?e] ?n (cur_votes p))"
      using Q p(1) by (intro buckets_ok_extend) (simp_all add: entry_ok_def)
    moreover obtain mon where "p' = p\<lparr>received_votes := insert (vh vote) (received_votes p), vote_monitor := mon,
        cur_votes_pq := track_target ?bh (data vote) (cur_votes p) (cur_votes_pq p),
        cur_votes := extend_bucket ?bh [?e] ?n (cur_votes p), total_votes := total_votes p + 1\<rparr>"
      using run False cur by (auto simp: pool_insert_def vh Let_def bind_eq_Some_conv)
    ultimately show ?thesis
      using p(2,4,6) books track_target_ok [OF p(3,5), of "data vote" ?bh]
      by (simp add: pool_ok_def pool_core_def covered_def keys_extend pool_hashes_extend [OF wf(1)])
  qed
qed

text \<open>Verdicts are right for a pool when every promoted entry satisfies \<open>P\<close>.\<close>

definition verdicts_right :: "(vote_envelope \<Rightarrow> bool) \<Rightarrow> verdicts \<Rightarrow> vote_messages \<Rightarrow> bool" where
  "verdicts_right P v vm \<longleftrightarrow>
     (\<forall>e \<in> set (messages vm). map_of v (entry_hash e) = Some True \<longrightarrow> P (entry_envelope e))"

text \<open>The three ways a verdict can go partition a bucket.\<close>

lemma verdict_partition:
  "bucket_hashes vm =
     mset (map entry_hash (filter (\<lambda>e. map_of v (entry_hash e) = Some False) (messages vm))) +
     (mset (map entry_hash (filter (\<lambda>e. map_of v (entry_hash e) = Some True) (messages vm))) +
      mset (map entry_hash (filter (\<lambda>e. map_of v (entry_hash e) = None) (messages vm))))"
proof -
  have "mset (map entry_hash es) =
     mset (map entry_hash (filter (\<lambda>e. map_of v (entry_hash e) = Some False) es)) +
     (mset (map entry_hash (filter (\<lambda>e. map_of v (entry_hash e) = Some True) es)) +
      mset (map entry_hash (filter (\<lambda>e. map_of v (entry_hash e) = None) es)))" for es
  proof (induction es)
    case (Cons e es)
    then show ?case by (cases "map_of v (entry_hash e)") (auto simp: ac_simps)
  qed simp
  then show ?thesis by (simp add: bucket_hashes_def)
qed

definition extend_if :: "b256 \<Rightarrow> vote_entry list \<Rightarrow> vote_buckets \<Rightarrow> vote_buckets" where
  "extend_if k es m = (if es = [] then m else extend_bucket k es (length (filter entry_authenticated es)) m)"

lemma extend_if_ok:
  assumes "buckets_ok vh Q m" and "\<forall>e \<in> set es. entry_ok vh Q k e"
  shows "buckets_ok vh Q (extend_if k es m)"
    and "pool_hashes (extend_if k es m) = mset (map entry_hash es) + pool_hashes m"
proof -
  have "hm_wf m" using assms(1) by (simp add: buckets_ok_def)
  then show "buckets_ok vh Q (extend_if k es m)"
    and "pool_hashes (extend_if k es m) = mset (map entry_hash es) + pool_hashes m"
    using assms buckets_ok_extend [OF assms(1) _ refl assms(2)]
    by (auto simp: extend_if_def pool_hashes_extend)
qed

lemma promote_judged_eq:
  fixes v :: verdicts
  assumes "map_of (future_votes p) bh = Some vm"
  defines "valid \<equiv> filter (\<lambda>e. map_of v (entry_hash e) = Some True) (messages vm)"
    and "rejected \<equiv> filter (\<lambda>e. map_of v (entry_hash e) = Some False) (messages vm)"
    and "unjudged \<equiv> filter (\<lambda>e. map_of v (entry_hash e) = None) (messages vm)"
  shows "promote_judged bh v p = (valid \<noteq> [], unjudged \<noteq> [],
    p\<lparr>future_votes := extend_if bh unjudged (AList.delete bh (future_votes p)),
      received_votes := received_votes p - set (map entry_hash rejected),
      total_votes := total_votes p - length rejected,
      cur_votes_pq := (if valid = [] then cur_votes_pq p
         else track_target bh (data (entry_envelope (hd valid))) (cur_votes p) (cur_votes_pq p)),
      cur_votes := extend_if bh valid (cur_votes p)\<rparr>)"
  using assms(1)
  by (cases valid) (simp_all add: promote_judged_def Let_def extend_if_def valid_def [symmetric]
      rejected_def [symmetric] unjudged_def [symmetric])

lemma promote_judged_ok:
  assumes core: "pool_core vh P S p" and "promote_judged bh v p = (pr, rq, p')"
    and right: "\<And>vm. map_of (future_votes p) bh = Some vm \<Longrightarrow> verdicts_right P v vm"
  shows "pool_core vh P S p' \<and> total_votes p' \<le> total_votes p \<and> future_votes_pq p' = future_votes_pq p \<and>
    fst ` set (future_votes p') \<subseteq> (fst ` set (future_votes p) - {bh}) \<union> (if rq then {bh} else {})"
proof (cases "map_of (future_votes p) bh")
  case None
  then have "bh \<notin> fst ` set (future_votes p)" using keys_lookup [of bh "future_votes p"] by blast
  then show ?thesis using None assms(1,2) by (auto simp: promote_judged_def)
next
  case (Some vm)
  let ?sel = "\<lambda>b. filter (\<lambda>e. map_of v (entry_hash e) = b) (messages vm)"
  let ?rest = "AList.delete bh (future_votes p)"
  have cur: "buckets_ok vh P (cur_votes p)" and fut: "buckets_ok vh S (future_votes p)"
    using core by (simp_all add: pool_core_def)
  then have vm: "bucket_ok vh S bh vm" and wf: "hm_wf (future_votes p)" using Some by (simp_all add: buckets_ok_def)
  have unj: "\<forall>e \<in> set (?sel None). entry_ok vh S bh e" using vm by (simp add: bucket_ok_def entry_ok_def)
  have valid: "\<forall>e \<in> set (?sel (Some True)). entry_ok vh P bh e"
    using vm right [OF Some] by (auto simp: bucket_ok_def entry_ok_def verdicts_right_def)
  note F = extend_if_ok [OF buckets_ok_delete [OF fut] unj] and C = extend_if_ok [OF cur valid]
  have "books (received_votes p) (total_votes p)
      (mset (map entry_hash (?sel (Some False))) +
       (pool_hashes (extend_if bh (?sel (Some True)) (cur_votes p)) + pool_hashes (extend_if bh (?sel None) ?rest)))"
    using core pool_hashes_delete [OF wf Some] verdict_partition [of vm v]
    by (simp add: pool_core_def F(2) C(2) ac_simps)
  then have "books (received_votes p - set (map entry_hash (?sel (Some False)))) (total_votes p - length (?sel (Some False)))
      (pool_hashes (extend_if bh (?sel (Some True)) (cur_votes p)) + pool_hashes (extend_if bh (?sel None) ?rest))"
    using books_remove by (metis length_map set_mset_mset size_mset)
  note books = this
  have keys: "fst ` set (extend_if bh (?sel None) ?rest) \<subseteq>
      (fst ` set (future_votes p) - {bh}) \<union> (if ?sel None \<noteq> [] then {bh} else {})"
    by (simp add: extend_if_def keys_extend keys_delete)
  have queue: "sorted (map target_number (cur_votes_pq p))"
    "fst ` set (cur_votes p) \<subseteq> target_hash ` (set (cur_votes_pq p) \<union> {})"
    using core by (simp_all add: pool_core_def)
  have "target_hash (data (entry_envelope (hd (?sel (Some True))))) = bh" if "?sel (Some True) \<noteq> []"
    using valid hd_in_set [OF that] by (simp add: entry_ok_def)
  note track = track_target_ok [OF queue this]
  define p2 where "p2 = p\<lparr>future_votes := extend_if bh (?sel None) ?rest,
      received_votes := received_votes p - set (map entry_hash (?sel (Some False))),
      total_votes := total_votes p - length (?sel (Some False)),
      cur_votes_pq := (if ?sel (Some True) = [] then cur_votes_pq p
         else track_target bh (data (entry_envelope (hd (?sel (Some True))))) (cur_votes p) (cur_votes_pq p)),
      cur_votes := extend_if bh (?sel (Some True)) (cur_votes p)\<rparr>"
  have p': "p' = p2" "rq = (?sel None \<noteq> [])"
    using assms(2) promote_judged_eq [OF Some, of v] by (simp_all add: p2_def)
  have "sorted (map target_number (cur_votes_pq p2)) \<and> fst ` set (cur_votes p2) \<subseteq> target_hash ` set (cur_votes_pq p2)"
    using queue track by (simp add: p2_def extend_if_def keys_extend)
  then have "pool_core vh P S p2"
    using core F(1) C(1) books unfolding pool_core_def by (simp add: p2_def del: set_map)
  then show ?thesis unfolding p' using keys by (simp add: p2_def)
qed

lemma promote_judged_shrinks:
  assumes "promote_judged bh v p = (pr, rq, p')" and "map_of (future_votes p') k = Some vm'"
  shows "\<exists>vm. map_of (future_votes p) k = Some vm \<and> set (messages vm') \<subseteq> set (messages vm)"
proof (cases "map_of (future_votes p) bh")
  case None
  then show ?thesis using assms by (auto simp: promote_judged_def)
next
  case (Some vm)
  let ?unj = "filter (\<lambda>e. map_of v (entry_hash e) = None) (messages vm)"
  have f: "future_votes p' = extend_if bh ?unj (AList.delete bh (future_votes p))"
    using assms(1) promote_judged_eq [OF Some, of v] by auto
  show ?thesis
  proof (cases "k = bh")
    case True
    then have "messages vm' = ?unj"
      using assms(2) unfolding f
      by (auto simp: extend_if_def extend_bucket_def update_conv' delete_conv' split: if_splits)
    then show ?thesis using True Some by auto
  next
    case False
    then have "map_of (future_votes p) k = Some vm'"
      using assms(2) unfolding f
      by (auto simp: extend_if_def extend_bucket_def update_conv' delete_conv' Let_def split: if_splits)
    then show ?thesis by blast
  qed
qed

definition resolved_right :: "(vote_envelope \<Rightarrow> bool) \<Rightarrow> (b256, verdicts) hash_map \<Rightarrow> vote_pool \<Rightarrow> bool" where
  "resolved_right P resolved p \<longleftrightarrow>
     (\<forall>bh v vm. map_of resolved bh = Some v \<and> map_of (future_votes p) bh = Some vm \<longrightarrow> verdicts_right P v vm)"

lemma resolved_right_promote:
  assumes "resolved_right P resolved p" and "promote_judged bh v p = (pr, rq, p')"
  shows "resolved_right P resolved p'"
  unfolding resolved_right_def
proof (intro allI impI)
  fix k w vm' assume "map_of resolved k = Some w \<and> map_of (future_votes p') k = Some vm'"
  moreover then obtain vm where "map_of (future_votes p) k = Some vm" "set (messages vm') \<subseteq> set (messages vm)"
    using promote_judged_shrinks [OF assms(2)] by blast
  ultimately show "verdicts_right P w vm'"
    using assms(1) unfolding resolved_right_def verdicts_right_def by blast
qed

lemma covered_requeue:
  assumes "fst ` set (future_votes p2) \<subseteq> (fst ` set (future_votes p1) - {target_hash vd}) \<union> (if rq then {target_hash vd} else {})"
    and "covered p1 (insert vd D)" and "future_votes_pq p2 = future_votes_pq p1"
  shows "covered p2 (D \<union> (if rq then {vd} else {}))"
proof -
  let ?H = "target_hash ` (set (future_votes_pq p1) \<union> D)"
  have "fst ` set (future_votes p1) - {target_hash vd} \<subseteq> ?H"
    using assms(2) by (simp add: covered_def Diff_subset_conv)
  then have "fst ` set (future_votes p2) \<subseteq> ?H \<union> (if rq then {target_hash vd} else {})"
    by (intro order_trans [OF assms(1)] Un_mono) simp_all
  then show ?thesis using assms(3) by (cases rq) (simp_all add: covered_def)
qed

lemma apply_loop_ok:
  assumes "pool_core vh P S p" and "covered p D" and "resolved_right P resolved p"
    and "apply_loop latest resolved n p = (ps, ds, p')"
  shows "pool_core vh P S p' \<and> covered p' (D \<union> set ds) \<and> total_votes p' \<le> total_votes p"
  using assms
proof (induction latest resolved n p arbitrary: D ps ds rule: apply_loop.induct)
  case (2 latest resolved n p)
  note prems = "2.prems"
  show ?case
  proof (cases "\<exists>vd. pq_peek (future_votes_pq p) = Some vd \<and> \<not> target_number vd > latest")
    case False
    then have "p' = p \<and> ds = []"
      using prems(4) by (auto split: option.splits if_splits)
    then show ?thesis using prems(1,2) by simp
  next
    case True
    then obtain vd where vd: "pq_peek (future_votes_pq p) = Some vd" "\<not> target_number vd > latest" by blast
    let ?p1 = "p\<lparr>future_votes_pq := pq_pop (future_votes_pq p)\<rparr>" and ?bh = "target_hash vd"
    obtain q where q: "future_votes_pq p = vd # q" "pq_pop (future_votes_pq p) = q"
      using vd(1) by (auto simp: pq_peek_def pq_pop_def split: list.splits)
    have core1: "pool_core vh P S ?p1" using prems(1) q by (simp add: pool_core_def)
    have cov1: "covered ?p1 (insert vd D)" using prems(2) q by (simp add: covered_def)
    have right1: "resolved_right P resolved ?p1" using prems(3) by (simp add: resolved_right_def)
    show ?thesis
    proof (cases "map_of resolved ?bh")
      case None
      obtain ps' ds' where rec: "apply_loop latest resolved n ?p1 = (ps', ds', p')"
        and ds: "ds = (if map_of (future_votes p) ?bh = None then [] else [vd]) @ ds'"
        using prems(4) vd None by (auto split: prod.splits)
      have "covered ?p1 (D \<union> (if map_of (future_votes p) ?bh = None then {} else {vd}))"
      proof (cases "map_of (future_votes p) ?bh = None")
        case True
        then have "?bh \<notin> fst ` set (future_votes p)" using keys_lookup [of ?bh "future_votes p"] by blast
        then show ?thesis using cov1 True by (simp add: covered_def subset_insert)
      qed (use cov1 in auto)
      from "2.IH"(1) [OF vd refl None core1 this right1 rec] show ?thesis
        by (auto simp: ds Un_assoc split: if_splits)
    next
      case (Some v)
      obtain pr rq p2 where pj: "promote_judged ?bh v ?p1 = (pr, rq, p2)" by (metis prod_cases3)
      obtain ps' ds' where rec: "apply_loop latest resolved n p2 = (ps', ds', p')"
        and ds: "ds = (if rq then [vd] else []) @ ds'"
        using prems(4) vd Some pj by (auto split: prod.splits)
      have "\<And>vm. map_of (future_votes ?p1) ?bh = Some vm \<Longrightarrow> verdicts_right P v vm"
        using right1 Some by (auto simp: resolved_right_def)
      note pj_ok = promote_judged_ok [OF core1 pj this]
      have "covered p2 (D \<union> (if rq then {vd} else {}))"
        using pj_ok cov1 by (intro covered_requeue [where vd = vd and ?p1.0 = ?p1]) simp_all
      from "2.IH"(2) [OF vd refl Some refl pj [symmetric] refl _ this resolved_right_promote [OF right1 pj] rec] pj_ok
      show ?thesis by (simp add: ds Un_assoc split: if_splits)
    qed
  qed
qed simp

lemma apply_promotion_ok:
  assumes "pool_ok vh P S p" and "resolved_right P resolved p" and "apply_promotion latest resolved p = (ps, p')"
  shows "pool_ok vh P S p' \<and> total_votes p' \<le> total_votes p"
proof -
  obtain ds p1 where run: "apply_loop latest resolved MAX_PROMOTION_TARGETS_PER_PASS p = (ps, ds, p1)"
    and p': "p' = p1\<lparr>future_votes_pq := fold pq_push ds (future_votes_pq p1)\<rparr>"
    using assms(3) by (auto simp: apply_promotion_def split: prod.splits)
  have "pool_core vh P S p" "covered p {}" using assms(1) by (simp_all add: pool_ok_def)
  note loop = apply_loop_ok [OF this assms(2) run]
  then have "pool_core vh P S p'" using sorted_fold_push by (simp add: p' pool_core_def)
  moreover have "covered p' {}" using loop by (simp add: p' covered_def)
  ultimately show ?thesis using loop by (simp add: pool_ok_def p')
qed

text \<open>The candidates hold votes of their own bucket, and the verdicts come from them.\<close>

lemma candidate_votes:
  assumes "c \<in> set (budgeted_candidates m latest budget keys)" and "e \<in> set (cand_votes c)"
  shows "\<exists>vm. map_of m (cand_target_hash c) = Some vm \<and> e \<in> set (messages vm)"
  using assms
proof (induction m latest budget keys rule: budgeted_candidates.induct)
  case (2 m latest budget tn th keys)
  then show ?case
    by (cases "budget = 0"; cases "map_of m th") (auto simp: Let_def dest: in_set_takeD)
qed simp

lemma fold_update_value:
  "map_of (fold (\<lambda>e. AList.update (f e) (g e)) es m) x = Some b \<Longrightarrow>
     (\<exists>e \<in> set es. f e = x \<and> g e = b) \<or> map_of m x = Some b"
proof (induction es arbitrary: m)
  case (Cons e es)
  then have "(\<exists>e \<in> set es. f e = x \<and> g e = b) \<or> map_of (AList.update (f e) (g e) m) x = Some b" by simp
  then show ?case by (auto simp: update_conv' fun_upd_def split: if_split_asm)
qed simp

lemma fold_update_if_value:
  "map_of (fold (\<lambda>c m. if skip c then m else AList.update (f c) (g c) m) cs m) x = Some b \<Longrightarrow>
     (\<exists>c \<in> set cs. f c = x \<and> g c = b) \<or> map_of m x = Some b"
proof (induction cs arbitrary: m)
  case (Cons c cs)
  then have "(\<exists>c \<in> set cs. f c = x \<and> g c = b) \<or>
      map_of (if skip c then m else AList.update (f c) (g c) m) x = Some b" by simp
  then show ?case by (auto simp: update_conv' fun_upd_def split: if_split_asm)
qed simp

definition verdicts_of :: "vote_env \<Rightarrow> promotion_candidate \<Rightarrow> verdicts" where
  "verdicts_of env c =
     fold (\<lambda>e. AList.update (entry_hash e) (verify_vote_origin env (entry_envelope e) = OriginOk)) (cand_votes c) []"

lemma resolve_candidates_value:
  assumes "map_of (resolve_candidates env cands) bh = Some v" and "map_of v x = Some b"
  shows "\<exists>c \<in> set cands. cand_target_hash c = bh \<and>
    (\<exists>e \<in> set (cand_votes c). entry_hash e = x \<and> (verify_vote_origin env (entry_envelope e) = OriginOk) = b)"
proof -
  have "\<exists>c \<in> set cands. cand_target_hash c = bh \<and> verdicts_of env c = v"
    using fold_update_if_value [of _ cand_target_hash "verdicts_of env" cands "[]" bh v] assms(1)
    unfolding resolve_candidates_def verdicts_of_def [symmetric] by fastforce
  then obtain c where c: "c \<in> set cands" "cand_target_hash c = bh" "verdicts_of env c = v" by blast
  have "\<exists>e \<in> set (cand_votes c). entry_hash e = x \<and> (verify_vote_origin env (entry_envelope e) = OriginOk) = b"
    using fold_update_value [of entry_hash _ "cand_votes c" "[]" x b] assms(2)
    unfolding c(3) [symmetric] verdicts_of_def by fastforce
  with c show ?thesis by blast
qed

section \<open>The operations on the global state\<close>

lemma notify_pool [simp]:
  "vote_pool_of (maybe_notify_finality env th n s) = vote_pool_of s"
  "last_pruned_block (maybe_notify_finality env th n s) = last_pruned_block s"
  "rejected_votes (maybe_notify_finality env th n s) = rejected_votes s"
  by (simp_all add: maybe_notify_finality_def split: option.splits)

lemma notify_all_pool:
  "vote_pool_of (fold (\<lambda>(bh, count) s. if count > 0 then maybe_notify_finality env bh count s else s) cs s) = vote_pool_of s"
  by (induction cs arbitrary: s) (auto split: prod.splits)

lemma remember_pool [simp]: "vote_pool_of (remember_rejected x s) = vote_pool_of s"
  by (simp add: remember_rejected_def)

lemma apply_loop_empty:
  "future_votes p = [] \<Longrightarrow> future_votes (snd (snd (apply_loop latest resolved n p))) = []"
  by (induction latest resolved n p rule: apply_loop.induct)
    (auto simp: promote_judged_def Let_def split: option.splits prod.splits)

text \<open>The limit of the pool holds as long as there is a future vote to shed.\<close>

definition within_limit :: "vote_pool \<Rightarrow> bool" where
  "within_limit p \<longleftrightarrow> total_votes p \<le> MAX_VOTES_IN_POOL \<or> future_votes p = []"

lemma shrink_oversized_ok:
  assumes "pool_ok vh P S p"
  shows "pool_ok vh P S (shrink_oversized pending p) \<and> within_limit (shrink_oversized pending p)"
proof -
  let ?p1 = "pool_prune pending p"
  have prune: "pool_ok vh P S ?p1" using pool_prune_ok [OF assms] by blast
  show ?thesis
  proof (cases "total_votes p > MAX_VOTES_IN_POOL \<and> total_votes ?p1 > MAX_VOTES_IN_POOL")
    case True
    then have "shrink_oversized pending p =
        snd (shed_future_votes (total_votes ?p1 - (MAX_VOTES_IN_POOL - SHED_HEADROOM)) ?p1)"
      by (simp add: shrink_oversized_def overflow_shed_target_def Let_def)
    then show ?thesis
      using shed_ok [OF prune, of "total_votes ?p1 - (MAX_VOTES_IN_POOL - SHED_HEADROOM)"] True
      by (auto simp: within_limit_def MAX_VOTES_IN_POOL_def SHED_HEADROOM_def)
  next
    case False
    then show ?thesis
      using assms prune by (auto simp: within_limit_def shrink_oversized_def overflow_shed_target_def Let_def)
  qed
qed

text \<open>
  The detection of conflicts, and with it the admission of a vote, returns for every head the
  window does not wrap for, whatever the monitor holds.
\<close>

lemma conflict_scan_returns:
  assumes "upper \<noteq> u64_max"
  shows "\<exists>r. conflict_scan data_hash v upper bn buf = Some r"
proof (induction "unat upper + 1 - unat bn" arbitrary: bn buf rule: less_induct)
  case less
  show ?case
  proof (cases "bn \<le> upper")
    case True
    then show ?thesis
      using less.hyps [OF scan_next(1) [OF assms(1) True]]
      by (subst conflict_scan.simps) (auto split: option.splits)
  qed (subst conflict_scan.simps, auto)
qed

lemma conflict_detect_returns:
  assumes "unat pending < 2 ^ 63"
  shows "\<exists>r. conflict_detect data_hash v pending m = Some r"
proof -
  have "pending + UPPER_LIMIT_OF_VOTE_BLOCK_NUMBER \<noteq> u64_max"
    using assms unat_window_end [OF assms] by (auto simp: u64_max_def word_unat_eq_iff)
  then obtain b buf' where "conflict_scan data_hash v (pending + UPPER_LIMIT_OF_VOTE_BLOCK_NUMBER)
      (scan_start (source_number (data v)) pending) (unwrap_or (map_of m (vote_address v)) []) = Some (b, buf')"
    using conflict_scan_returns by fast
  then show ?thesis by (auto simp: conflict_detect_def Let_def)
qed

lemma pool_insert_returns:
  assumes "unat pending < 2 ^ 63"
  shows "\<exists>r. pool_insert env v pending fut auth p = Some r"
  using conflict_detect_returns [OF assms, of "ve_data_hash env" v "vote_monitor p"]
  by (auto simp: pool_insert_def Let_def)

end
