(* ===== verification/VotePoolRuns.thy ===== *)
theory VotePoolRuns
  imports VotePoolSafety
begin

text \<open>
  The vote pool over its life: the states that votes, block imports and drains reach from the
  empty pool, with the phases of concurrent promotions and admissions interleaved in any order,
  and what holds of all of them. The chain the node learns about is the record \<open>vote_chain\<close>: headers
  and snapshots by hash, of which an environment sees a part.
\<close>

section \<open>The chain the votes are about\<close>

record vote_chain =
  vc_hash :: "header \<Rightarrow> b256"
  vc_header :: "b256 \<Rightarrow> header option"
  vc_snapshot :: "b256 \<Rightarrow> snapshot option"
  vc_genesis :: header
  vc_vote_hash :: "vote_envelope \<Rightarrow> b256"
  vc_verify :: "vote_envelope \<Rightarrow> bool"

definition views :: "vote_chain \<Rightarrow> vote_env \<Rightarrow> bool" where
  "views c env \<longleftrightarrow>
     ve_hash env = vc_hash c \<and> ve_vote_hash env = vc_vote_hash c \<and> ve_verify env = vc_verify c \<and>
     ve_header_by_hash env \<subseteq>\<^sub>m vc_header c \<and> ve_snapshot env \<subseteq>\<^sub>m vc_snapshot c \<and>
     (ve_header_by_number env 0 = None \<or> ve_header_by_number env 0 = Some (vc_genesis c)) \<and>
     (case ve_best_number env of None \<Rightarrow> True | Some n \<Rightarrow> unat n < 2 ^ 63)"

definition justified_source :: "vote_chain \<Rightarrow> b256 \<Rightarrow> (u64 \<times> b256) option" where
  "justified_source c bh =
     do {
       snap \<leftarrow> vc_snapshot c bh;
       justified_pair_of (vote_data snap) (Some (number (vc_genesis c), vc_hash c (vc_genesis c)))
     }"

text \<open>
  A legitimate vote: its target is a block of the chain at the height it names, its source is the
  justified block at the target, and its sender is a validator of the snapshot before the target.
\<close>

definition legit :: "vote_chain \<Rightarrow> vote_envelope \<Rightarrow> bool" where
  "legit c v \<longleftrightarrow>
     (case vc_header c (target_hash (data v)) of
        None \<Rightarrow> False
      | Some h \<Rightarrow>
          number h = target_number (data v) \<and>
          justified_source c (target_hash (data v)) = Some (source_number (data v), source_hash (data v)) \<and>
          (case vc_snapshot c (parent_hash h) of
             None \<Rightarrow> False | Some snap \<Rightarrow> known_voter snap (vote_address v)))"

text \<open>
  The votes \<open>V\<close> that reach the node: their hashes do not collide, and a sender has one valid
  signature on given data, as BLS signatures are deterministic.
\<close>

definition votes_proper :: "vote_chain \<Rightarrow> vote_envelope set \<Rightarrow> bool" where
  "votes_proper c V \<longleftrightarrow> inj_on (vc_vote_hash c) V \<and>
     (\<forall>v \<in> V. \<forall>w \<in> V. vc_verify c v \<and> vc_verify c w \<and> vote_address v = vote_address w \<and> data v = data w \<longrightarrow>
        signature v = signature w)"

definition held :: "vote_chain \<Rightarrow> vote_envelope set \<Rightarrow> vote_envelope \<Rightarrow> bool" where
  "held c V v \<longleftrightarrow> v \<in> V \<and> vc_verify c v"

definition current :: "vote_chain \<Rightarrow> vote_envelope set \<Rightarrow> vote_envelope \<Rightarrow> bool" where
  "current c V v \<longleftrightarrow> held c V v \<and> legit c v"

lemma views_origin: "views c env \<Longrightarrow> verify_vote_origin env v = OriginOk \<Longrightarrow> legit c v"
  by (auto simp: views_def verify_vote_origin_def legit_def justified_source_def justified_pair_for_hash_def
      justified_pair_of_def map_le_def dom_def Option.bind_eq_Some_conv split: option.splits if_splits)

lemma classify_sound:
  assumes "views c env" and "classify_vote env v = Admit fut auth" and "held c V v"
  shows "if fut then held c V v else current c V v"
  using assms views_origin [OF assms(1), of v]
  by (auto simp: classify_vote_def current_def split: if_splits option.splits bool.splits origin_verdict.splits)

lemma current_same_data:
  assumes "current c V v" and "current c V w" and "target_hash (data v) = target_hash (data w)"
  shows "data v = data w"
  using assms by (auto simp: current_def legit_def intro: vote_data.equality split: option.splits)

lemma current_address_inj:
  assumes "votes_proper c V" and "current c V v" and "current c V w"
    and "target_hash (data v) = target_hash (data w)" and "vote_address v = vote_address w"
  shows "v = w"
proof -
  have "data v = data w" using assms(2-4) by (rule current_same_data)
  then have "signature v = signature w"
    using assms by (simp add: votes_proper_def current_def held_def)
  with \<open>data v = data w\<close> assms(5) show ?thesis by (intro vote_envelope.equality) simp_all
qed

section \<open>Runs\<close>

text \<open>
  \<open>J\<close> holds the verdicts of promotions that have judged their candidates and not yet applied the
  result; a promotion that never finishes leaves its verdicts there.
\<close>

inductive pool_reaches ::
  "vote_chain \<Rightarrow> vote_envelope set \<Rightarrow> vote_state \<Rightarrow> (b256, verdicts) hash_map set \<Rightarrow> bool"
  for c V where
  new: "pool_reaches c V vote_state_new {}"
| put: "pool_reaches c V s J \<Longrightarrow> views c env \<Longrightarrow> v \<in> V \<Longrightarrow> put_vote env v s = Some s' \<Longrightarrow> pool_reaches c V s' J"
| promote: "pool_reaches c V s J \<Longrightarrow> views c env \<Longrightarrow> pool_reaches c V (promote_future_votes env n s) J"
| drain: "pool_reaches c V s J \<Longrightarrow> pool_reaches c V (snd (drain_votes s)) J"
| judge: "pool_reaches c V s J \<Longrightarrow> views c env \<Longrightarrow>
    pool_reaches c V s (insert (resolve_candidates env (promotion_candidates (vote_pool_of s) n)) J)"
| finish: "pool_reaches c V s J \<Longrightarrow> views c env \<Longrightarrow> r \<in> J \<Longrightarrow> pool_reaches c V (finish_promotion env n r s) J"
| admit: "pool_reaches c V s J \<Longrightarrow> views c env \<Longrightarrow> views c env' \<Longrightarrow> v \<in> V \<Longrightarrow> ve_verify env v \<Longrightarrow>
    classify_vote env v = Admit fut auth \<Longrightarrow> admit_locked env' v n fut auth work s = Some s' \<Longrightarrow>
    pool_reaches c V s' J"

section \<open>The invariant\<close>

abbreviation chain_pool_ok :: "vote_chain \<Rightarrow> vote_envelope set \<Rightarrow> vote_pool \<Rightarrow> bool" where
  "chain_pool_ok c V \<equiv> pool_ok (vc_vote_hash c) (current c V) (held c V)"

text \<open>The validators with a current vote on a block.\<close>

definition backers :: "vote_chain \<Rightarrow> vote_envelope set \<Rightarrow> vote_data \<Rightarrow> vote_address set" where
  "backers c V vd = vote_address ` {v. current c V v \<and> data v = vd}"

definition finality_backed :: "vote_chain \<Rightarrow> vote_envelope set \<Rightarrow> header \<Rightarrow> bool" where
  "finality_backed c V head \<longleftrightarrow>
     (\<exists>snap vd addrs. vc_snapshot c (vc_hash c head) = Some snap \<and> validators snap \<noteq> [] \<and>
        target_hash vd = vc_hash c head \<and> target_number vd = number head \<and>
        number head = source_number vd + 1 \<and>
        justified_source c (vc_hash c head) = Some (source_number vd, source_hash vd) \<and>
        distinct addrs \<and> set addrs \<subseteq> backers c V vd \<and> quorum (length (validators snap)) \<le> length addrs)"

definition verdicts_sound :: "vote_chain \<Rightarrow> vote_envelope set \<Rightarrow> (b256, verdicts) hash_map \<Rightarrow> bool" where
  "verdicts_sound c V r \<longleftrightarrow>
     (\<forall>bh v x. map_of r bh = Some v \<and> map_of v x = Some True \<longrightarrow> (\<exists>w. current c V w \<and> vc_vote_hash c w = x))"

definition state_ok :: "vote_chain \<Rightarrow> vote_envelope set \<Rightarrow> vote_state \<Rightarrow> bool" where
  "state_ok c V s \<longleftrightarrow> chain_pool_ok c V (vote_pool_of s) \<and> within_limit (vote_pool_of s) \<and>
     (\<forall>head \<in> set (forkchoice_updates s). finality_backed c V head)"

lemma cur_bucket_ok:
  assumes "chain_pool_ok c V p" and "map_of (cur_votes p) bh = Some vm"
  shows "bucket_ok (vc_vote_hash c) (current c V) bh vm"
  using assms by (simp add: pool_ok_def pool_core_def buckets_ok_def)

lemma cur_bucket_hashes:
  assumes ok: "pool_core vh P S p" and vm: "map_of (cur_votes p) bh = Some vm"
  shows "distinct (map entry_hash (messages vm))"
proof -
  have "count (bucket_hashes vm) x \<le> 1" for x
  proof -
    have "pool_hashes (cur_votes p) = bucket_hashes vm + pool_hashes (AList.delete bh (cur_votes p))"
      using ok vm by (intro pool_hashes_delete) (simp_all add: pool_core_def buckets_ok_def)
    moreover have "count (pool_hashes (cur_votes p) + pool_hashes (future_votes p)) x \<le> 1"
      using ok unfolding pool_core_def books_def by blast
    ultimately show ?thesis by simp
  qed
  then show ?thesis
    by (simp add: bucket_hashes_def distinct_count_atmost_1 count_mset_0_iff le_Suc_eq)
      (metis (no_types) count_mset_0_iff mset_map set_map)
qed

lemma cur_bucket_distinct:
  assumes proper: "votes_proper c V" and ok: "chain_pool_ok c V p" and vm: "map_of (cur_votes p) bh = Some vm"
  shows "distinct (map (vote_address \<circ> entry_envelope) (messages vm))"
proof -
  note b = cur_bucket_ok [OF ok vm, unfolded bucket_ok_def]
  have hashes: "distinct (map entry_hash (messages vm))" using ok vm cur_bucket_hashes by (auto simp: pool_ok_def)
  have "x = y"
    if x: "x \<in> set (messages vm)" and y: "y \<in> set (messages vm)"
      and same: "vote_address (entry_envelope x) = vote_address (entry_envelope y)" for x y
  proof -
    have "entry_envelope x = entry_envelope y"
      using b x y by (intro current_address_inj [OF proper _ _ _ same]) auto
    then have "entry_hash x = entry_hash y" using b x y by simp
    with hashes x y show ?thesis by (simp add: distinct_map inj_on_def)
  qed
  with hashes show ?thesis by (simp add: distinct_map inj_on_def)
qed

lemma fetched_votes:
  assumes "votes_proper c V" and "chain_pool_ok c V p"
  shows "distinct (map vote_address (fetch_vote_by_block_hash p bh))"
    and "v \<in> set (fetch_vote_by_block_hash p bh) \<Longrightarrow> current c V v \<and> target_hash (data v) = bh"
  using cur_bucket_distinct [OF assms, of bh] cur_bucket_ok [OF assms(2), of bh]
  by (cases "map_of (cur_votes p) bh"; auto simp: fetch_vote_by_block_hash_def envelopes_of_def bucket_ok_def)+

text \<open>A notification is sent for a head that a quorum of distinct validators voted for.\<close>

lemma notify_backed:
  assumes proper: "votes_proper c V" and ok: "chain_pool_ok c V (vote_pool_of s)" and view: "views c env"
    and new: "head \<in> set (forkchoice_updates (maybe_notify_finality env th n s))"
    and old: "head \<notin> set (forkchoice_updates s)"
  shows "finality_backed c V head"
proof -
  let ?votes = "\<lambda>snap. filter (\<lambda>v. source_number (data v) = target_number (vote_data snap) \<and> target_number (data v) = number head)
      (fetch_vote_by_block_hash (vote_pool_of s) th)"
  obtain snap where th: "vc_hash c head = th" and snap: "ve_snapshot env th = Some snap"
    and nonempty: "validators snap \<noteq> []" and h0: "number head \<noteq> 0"
    and h1: "number head - 1 = target_number (vote_data snap)"
    and quorum: "quorum (length (validators snap)) \<le> length (?votes snap)"
    using new old view
    by (auto simp: maybe_notify_finality_def views_def Let_def Option.bind_eq_Some_conv not_less
        split: if_splits option.splits)
  have csnap: "vc_snapshot c th = Some snap" using snap view by (auto simp: views_def map_le_def dom_def)
  have "?votes snap \<noteq> []"
    using quorum nonempty quorum_bounds(1) [of "length (validators snap)"] by (cases "validators snap") auto
  then obtain v where v: "v \<in> set (?votes snap)" by (cases "?votes snap") auto
  then have cv: "current c V v" "target_hash (data v) = th"
    using fetched_votes(2) [OF proper ok] by auto
  have "data w = data v" if "w \<in> set (?votes snap)" for w
    using that cv fetched_votes(2) [OF proper ok, of w th] current_same_data [of c V w v] by simp
  then have "vote_address ` set (?votes snap) \<subseteq> backers c V (data v)"
    using fetched_votes(2) [OF proper ok] by (auto simp: backers_def)
  moreover have "distinct (map vote_address (?votes snap))"
    using fetched_votes(1) [OF proper ok, of th] by (rule distinct_map_filter)
  moreover have "number head = source_number (data v) + 1" using v h1 by (simp add: algebra_simps)
  moreover have "justified_source c th = Some (source_number (data v), source_hash (data v))"
    using cv by (auto simp: current_def legit_def split: option.splits)
  ultimately show ?thesis
    unfolding finality_backed_def th
    using csnap nonempty cv(2) v quorum
    by (intro exI [of _ snap] exI [of _ "data v"] exI [of _ "map vote_address (?votes snap)"]) simp
qed

lemma state_ok_notify:
  assumes "votes_proper c V" and "views c env" and "state_ok c V s"
  shows "state_ok c V (maybe_notify_finality env th n s)"
  using notify_backed [OF assms(1) _ assms(2), of s] assms(3) by (auto simp: state_ok_def)

lemma state_ok_notify_all:
  assumes "votes_proper c V" and "views c env"
  shows "state_ok c V s \<Longrightarrow>
    state_ok c V (fold (\<lambda>(bh, count) s. if count > 0 then maybe_notify_finality env bh count s else s) cs s)"
proof (induction cs arbitrary: s)
  case (Cons x cs)
  then show ?case using state_ok_notify [OF assms] by (cases x) simp
qed simp

text \<open>Verdicts stay right for any later pool, since a hash determines the vote.\<close>

lemma verdicts_sound_right:
  assumes "votes_proper c V" and "chain_pool_ok c V p" and "verdicts_sound c V r"
  shows "resolved_right (current c V) r p"
proof -
  have "current c V (entry_envelope e)"
    if r: "map_of r bh = Some v" "map_of v (entry_hash e) = Some True"
      and vm: "map_of (future_votes p) bh = Some vm" "e \<in> set (messages vm)" for bh v vm e
  proof -
    obtain w where w: "current c V w" "vc_vote_hash c w = entry_hash e"
      using r assms(3) unfolding verdicts_sound_def by blast
    have "bucket_ok (vc_vote_hash c) (held c V) bh vm"
      using assms(2) vm by (simp add: pool_ok_def pool_core_def buckets_ok_def)
    then have e: "entry_hash e = vc_vote_hash c (entry_envelope e)" "held c V (entry_envelope e)"
      using vm(2) by (simp_all add: bucket_ok_def)
    then have "entry_envelope e = w"
      using w assms(1) unfolding votes_proper_def current_def held_def by (metis inj_onD)
    with w show ?thesis by simp
  qed
  then show ?thesis unfolding resolved_right_def verdicts_right_def by blast
qed

lemma judged_sound:
  assumes "chain_pool_ok c V p" and "views c env"
  shows "verdicts_sound c V (resolve_candidates env (promotion_candidates p n))"
  unfolding verdicts_sound_def
proof (intro allI impI, elim conjE)
  fix bh v x
  assume "map_of (resolve_candidates env (promotion_candidates p n)) bh = Some v" "map_of v x = Some True"
  from resolve_candidates_value [OF this] obtain cand e where
    cand: "cand \<in> set (promotion_candidates p n)" "e \<in> set (cand_votes cand)" and
    e: "entry_hash e = x" "verify_vote_origin env (entry_envelope e) = OriginOk" by blast
  obtain vm where vm: "map_of (future_votes p) (cand_target_hash cand) = Some vm" "e \<in> set (messages vm)"
    using candidate_votes [OF cand(1) [unfolded promotion_candidates_def] cand(2)] by blast
  have "bucket_ok (vc_vote_hash c) (held c V) (cand_target_hash cand) vm"
    using assms(1) vm by (simp add: pool_ok_def pool_core_def buckets_ok_def)
  then have "entry_hash e = vc_vote_hash c (entry_envelope e)" "held c V (entry_envelope e)"
    using vm(2) by (simp_all add: bucket_ok_def)
  with e views_origin [OF assms(2) e(2)] show "\<exists>w. current c V w \<and> vc_vote_hash c w = x"
    by (auto simp: current_def)
qed

lemma finish_ok:
  assumes proper: "votes_proper c V" and view: "views c env" and ok: "state_ok c V s" and r: "verdicts_sound c V r"
  shows "state_ok c V (finish_promotion env n r s)"
proof -
  obtain ps p' where run: "apply_promotion n r (vote_pool_of s) = (ps, p')" by fastforce
  have pool: "chain_pool_ok c V (vote_pool_of s)" and limit: "within_limit (vote_pool_of s)"
    using ok by (simp_all add: state_ok_def)
  note p' = apply_promotion_ok [OF pool verdicts_sound_right [OF proper pool r] run]
  have "future_votes p' = []" if "future_votes (vote_pool_of s) = []"
    using apply_loop_empty [OF that, of n r MAX_PROMOTION_TARGETS_PER_PASS] run
    by (auto simp: apply_promotion_def split: prod.splits)
  then have "state_ok c V (s\<lparr>vote_pool_of := p'\<rparr>)"
    using ok p' limit by (auto simp: state_ok_def within_limit_def)
  then show ?thesis
    using state_ok_notify_all [OF proper view] by (simp add: finish_promotion_def run)
qed

lemma promote_ok:
  assumes "votes_proper c V" and "views c env" and "state_ok c V s"
  shows "state_ok c V (promote_future_votes env n s)"
  using finish_ok [OF assms] judged_sound [OF _ assms(2), of V "vote_pool_of s" n] assms(3)
  by (simp add: promote_future_votes_def Let_def state_ok_def)

lemma admit_locked_ok:
  assumes proper: "votes_proper c V" and view: "views c env" and ok: "state_ok c V s"
    and v: "if fut then held c V v else current c V v"
    and run: "admit_locked env v n fut auth work s = Some s'"
  shows "state_ok c V s'"
proof (cases "is_at_capacity (vote_pool_of s) (target_hash (data v)) fut auth")
  case True
  then show ?thesis using run ok by (simp add: admit_locked_def Let_def)
next
  case False
  then obtain k p where ins: "pool_insert env v n fut auth (vote_pool_of s) = Some (k, p)"
    using run by (auto simp: admit_locked_def Let_def Option.bind_eq_Some_conv)
  let ?p1 = "if work then pool_prune n p else p"
  let ?s1 = "s\<lparr>vote_pool_of := shrink_oversized n ?p1,
     last_pruned_block := (if work then max (last_pruned_block s) n else last_pruned_block s)\<rparr>"
  have s': "s' = (if k > 0 then maybe_notify_finality env (target_hash (data v)) k ?s1 else ?s1)"
    using run False ins by (simp add: admit_locked_def Let_def)
  have "chain_pool_ok c V (vote_pool_of s)" "ve_vote_hash env = vc_vote_hash c"
    using ok view by (simp_all add: state_ok_def views_def)
  note pool_insert_ok [OF this v ins]
  then have "chain_pool_ok c V ?p1" using pool_prune_ok by simp
  note shrink_oversized_ok [OF this, of n]
  then have "state_ok c V ?s1" using ok by (simp add: state_ok_def)
  then show ?thesis using state_ok_notify [OF proper view] by (simp add: s')
qed

lemma admit_locked_returns:
  "unat n < 2 ^ 63 \<Longrightarrow> \<exists>s'. admit_locked env v n fut auth work s = Some s'"
  using pool_insert_returns [of n env v fut auth "vote_pool_of s"] by (auto simp: admit_locked_def Let_def)

lemma put_vote_returns:
  assumes "views c env"
  shows "\<exists>s'. put_vote env v s = Some s'"
proof -
  have "unat (unwrap_or (ve_best_number env) 0) < 2 ^ 63"
    using assms by (simp add: views_def unwrap_or_def split: option.splits)
  note admit_locked_returns [OF this, of env v]
  then show ?thesis
    by (auto simp: put_vote_def put_vote_inner_def admit_vote_def Let_def split: admission.splits)
qed

lemma put_vote_ok:
  assumes proper: "votes_proper c V" and view: "views c env" and ok: "state_ok c V s" and v: "v \<in> V"
    and run: "put_vote env v s = Some s'"
  shows "state_ok c V s'"
proof -
  have remember: "state_ok c V (remember_rejected x s)" for x
    using ok by (simp add: state_ok_def remember_rejected_def)
  show ?thesis
  proof (cases "s' = s \<or> s' = remember_rejected (ve_vote_hash env v) s")
    case True
    then show ?thesis using ok remember by blast
  next
    case False
    then obtain fut auth where cl: "classify_vote env v = Admit fut auth" and sig: "ve_verify env v"
      and adm: "admit_vote env v (unwrap_or (ve_best_number env) 0) fut auth s = Some s'"
      using run by (auto simp: put_vote_def put_vote_inner_def Let_def split: if_splits admission.splits)
    have "held c V v" using v sig view by (simp add: held_def views_def)
    note Q = classify_sound [OF view cl this]
    show ?thesis
      using adm promote_ok [OF proper view ok] ok
      unfolding admit_vote_def Let_def by (elim admit_locked_ok [OF proper view _ Q, rotated]) simp
  qed
qed

lemma reachable_ok:
  assumes "pool_reaches c V s J" and "votes_proper c V"
  shows "state_ok c V s \<and> (\<forall>r \<in> J. verdicts_sound c V r)"
  using assms(1)
proof induction
  case new
  then show ?case by (simp add: state_ok_def vote_state_new_def pool_new_ok within_limit_def) (simp add: vote_pool_new_def)
next
  case (put s J env v s')
  then show ?case using put_vote_ok [OF assms(2)] by blast
next
  case (promote s J env n)
  then show ?case using promote_ok [OF assms(2)] by blast
next
  case (drain s J)
  then show ?case
    using pool_drain_ok [of "vc_vote_hash c" "current c V" "held c V" "vote_pool_of s"]
    by (simp add: drain_votes_def pool_drain_def state_ok_def within_limit_def)
next
  case (judge s J env n)
  then show ?case using judged_sound [of c V "vote_pool_of s" env n] by (simp add: state_ok_def)
next
  case (finish s J env r n)
  then show ?case using finish_ok [OF assms(2)] by blast
next
  case (admit s J env env' v fut auth n work s')
  then have "held c V v" by (simp add: held_def views_def)
  with admit show ?case using admit_locked_ok [OF assms(2)] classify_sound by meson
qed

section \<open>The books\<close>

definition pool_future_votes :: "vote_pool \<Rightarrow> vote_envelope list" where
  "pool_future_votes p = concat (map (envelopes_of \<circ> snd) (future_votes p))"

lemma bucket_votes:
  assumes "buckets_ok vh Q m"
  shows "pool_hashes m = mset (map vh (concat (map (envelopes_of \<circ> snd) m)))"
    and "v \<in> set (concat (map (envelopes_of \<circ> snd) m)) \<Longrightarrow> Q v"
proof -
  have b: "bucket_ok vh Q k vm" if "(k, vm) \<in> set m" for k vm
    using that assms by (simp add: buckets_ok_def hm_wf_def)
  then have "bucket_hashes vm = mset (map vh (envelopes_of vm))" if "(k, vm) \<in> set m" for k vm
    using that unfolding bucket_hashes_def envelopes_of_def bucket_ok_def map_map mset_map
    by (intro image_mset_cong) (fastforce simp: bucket_ok_def)
  then show "pool_hashes m = mset (map vh (concat (map (envelopes_of \<circ> snd) m)))"
  proof (induction m)
    case (Cons x m)
    obtain k vm where x: "x = (k, vm)" by fastforce
    have "pool_hashes m = mset (map vh (concat (map (envelopes_of \<circ> snd) m)))"
      by (rule Cons.IH) (meson Cons.prems list.set_intros(2))
    with Cons.prems [of k vm] show ?case by (simp add: x pool_hashes_def comp_def)
  qed simp
  show "v \<in> set (concat (map (envelopes_of \<circ> snd) m)) \<Longrightarrow> Q v"
    using b by (fastforce simp: envelopes_of_def bucket_ok_def)
qed

lemma books_votes:
  assumes "pool_ok vh P S p"
  shows "distinct (map vh (pool_get_votes p @ pool_future_votes p))"
    and "received_votes p = vh ` set (pool_get_votes p @ pool_future_votes p)"
    and "total_votes p = length (pool_get_votes p @ pool_future_votes p)"
proof -
  let ?H = "map vh (pool_get_votes p @ pool_future_votes p)"
  have "pool_hashes (cur_votes p) + pool_hashes (future_votes p) = mset ?H"
    using assms bucket_votes(1) [of vh P "cur_votes p"] bucket_votes(1) [of vh S "future_votes p"]
    by (simp add: pool_ok_def pool_core_def pool_get_votes_def pool_future_votes_def)
  then have b: "received_votes p = set ?H" "total_votes p = length ?H" "\<And>x. count (mset ?H) x \<le> 1"
    using assms by (simp_all add: pool_ok_def pool_core_def books_def del: map_append mset_map)
  then show "received_votes p = vh ` set (pool_get_votes p @ pool_future_votes p)"
    "total_votes p = length (pool_get_votes p @ pool_future_votes p)" by (simp_all add: image_Un)
  show "distinct ?H"
    using b(3) by (simp add: distinct_count_atmost_1 le_Suc_eq count_mset_0_iff del: map_append mset_map)
qed

section \<open>Sample run\<close>

text \<open>Block 10 is the head, block 9 is justified, and two of three validators vote for the head.\<close>

definition sample_chain :: vote_chain where
  "sample_chain =
     \<lparr>vc_hash = number_hash,
      vc_header = (\<lambda>bh. if bh = 10 then Some (sample_header 10 1754967090) else None),
      vc_snapshot = (\<lambda>_. Some (sample_voter_snapshot\<lparr>vote_data := sample_vote_data 9\<rparr>)),
      vc_genesis = sample_header 0 1754967080, vc_vote_hash = (\<lambda>v. ucast (vote_address v)), vc_verify = (\<lambda>_. True)\<rparr>"

definition sample_view :: vote_env where
  "sample_view =
     \<lparr>ve_best_number = Some 10, ve_header_by_number = (\<lambda>n. if n = 10 then Some (sample_header 10 1754967090) else None),
      ve_has_header_provider = True, ve_header_by_hash = vc_header sample_chain, ve_snapshot = vc_snapshot sample_chain,
      ve_hash = number_hash, ve_vote_hash = vc_vote_hash sample_chain, ve_data_hash = target_hash,
      ve_verify = (\<lambda>_. True), ve_has_fork_choice_engine = True\<rparr>"

definition sample_ballot :: "vote_envelope list" where
  "sample_ballot = sample_votes [11, 12, 13] (sample_vote_data 10)"

definition sample_run :: "vote_state option" where
  "sample_run =
     do { s \<leftarrow> put_vote sample_view (sample_ballot ! 0) vote_state_new; put_vote sample_view (sample_ballot ! 1) s }"

definition run_summary :: "vote_state option \<Rightarrow> (nat \<times> u64 list \<times> vote_address list) option" where
  "run_summary r = map_option (\<lambda>s. (total_votes (vote_pool_of s), map number (forkchoice_updates s),
     map vote_address (fetch_vote_by_block_hash_and_source_number (vote_pool_of s) 10 9))) r"

lemma sample_view_ok: "views sample_chain sample_view"
  by (simp add: views_def sample_chain_def sample_view_def)

lemma sample_ballot_proper: "votes_proper sample_chain (set sample_ballot)"
  by (simp add: votes_proper_def sample_chain_def sample_ballot_def sample_votes_def)

text \<open>For a small pool the limit need not be evaluated.\<close>

lemma shrink_oversized_small [code]:
  "shrink_oversized pending p =
     (if total_votes p < 64 then p
      else if total_votes p > MAX_VOTES_IN_POOL then
        (let p1 = pool_prune pending p in
         case overflow_shed_target (total_votes p1) of
           Some to_shed \<Rightarrow> snd (shed_future_votes to_shed p1)
         | None \<Rightarrow> p1)
      else p)"
  by (simp add: shrink_oversized_def MAX_VOTES_IN_POOL_def)

lemma sample_run_value: "run_summary sample_run = Some (2, [10], [11, 12])"
  by code_simp

lemma sample_run_reaches:
  obtains s where "pool_reaches sample_chain (set sample_ballot) s {}"
    and "total_votes (vote_pool_of s) = 2" and "map number (forkchoice_updates s) = [10]"
    and "map vote_address (fetch_vote_by_block_hash_and_source_number (vote_pool_of s) 10 9) = [11, 12]"
proof -
  obtain s1 s where s1: "put_vote sample_view (sample_ballot ! 0) vote_state_new = Some s1"
    and s: "put_vote sample_view (sample_ballot ! 1) s1 = Some s"
    and sum: "run_summary (Some s) = Some (2, [10], [11, 12])"
    using sample_run_value by (cases sample_run) (auto simp: run_summary_def sample_run_def Option.bind_eq_Some_conv)
  have mem: "sample_ballot ! 0 \<in> set sample_ballot" "sample_ballot ! 1 \<in> set sample_ballot"
    by (simp_all add: sample_ballot_def sample_votes_def)
  have "pool_reaches sample_chain (set sample_ballot) s1 {}"
    using pool_reaches.new sample_view_ok mem(1) s1 by (rule pool_reaches.put)
  then have "pool_reaches sample_chain (set sample_ballot) s {}"
    using sample_view_ok mem(2) s by (rule pool_reaches.put)
  then show ?thesis using sum unfolding run_summary_def by (intro that) auto
qed

section \<open>Properties\<close>

text \<open>
  C7. The books of the vote pool balance in every reachable state, whatever the interleaving of
  admissions, promotions and drains: no vote is held twice, the set of received hashes is that of
  the votes held, the counter is their number, every vote held has a valid signature, the votes
  of the current pool are legitimate (target on the chain, source the justified block, sender a
  validator), and the pool exceeds its limit only when there is no future vote left to shed.
\<close>

theorem pool_books_balance:
  assumes "pool_reaches c V s J" and "votes_proper c V"
    and "p = vote_pool_of s" and "votes = pool_get_votes p @ pool_future_votes p"
  shows "distinct (map (vc_vote_hash c) votes) \<and> received_votes p = vc_vote_hash c ` set votes \<and>
    total_votes p = length votes \<and>
    (\<forall>v \<in> set votes. vc_verify c v) \<and> (\<forall>v \<in> set (pool_get_votes p). legit c v) \<and>
    (MAX_VOTES_IN_POOL < total_votes p \<longrightarrow> pool_future_votes p = [])"
proof -
  have ok: "chain_pool_ok c V p" "within_limit p"
    using reachable_ok [OF assms(1,2)] by (simp_all add: state_ok_def assms(3))
  have cur: "buckets_ok (vc_vote_hash c) (current c V) (cur_votes p)"
    and fut: "buckets_ok (vc_vote_hash c) (held c V) (future_votes p)"
    using ok(1) by (simp_all add: pool_ok_def pool_core_def)
  have "\<forall>v \<in> set (pool_get_votes p). current c V v"
    using bucket_votes(2) [OF cur] by (simp add: pool_get_votes_def)
  moreover have "\<forall>v \<in> set (pool_future_votes p). held c V v"
    using bucket_votes(2) [OF fut] by (simp add: pool_future_votes_def)
  ultimately show ?thesis
    using books_votes [OF ok(1)] ok(2) unfolding assms(4)
    by (auto simp: current_def held_def within_limit_def pool_future_votes_def)
qed

theorem pool_books_balance_witness:
  "\<exists>s. pool_reaches sample_chain (set sample_ballot) s {} \<and>
     length (pool_get_votes (vote_pool_of s) @ pool_future_votes (vote_pool_of s)) = 2"
proof -
  obtain s where s: "pool_reaches sample_chain (set sample_ballot) s {}" "total_votes (vote_pool_of s) = 2"
    by (rule sample_run_reaches)
  have "total_votes (vote_pool_of s) = length (pool_get_votes (vote_pool_of s) @ pool_future_votes (vote_pool_of s))"
    using pool_books_balance [OF s(1) sample_ballot_proper refl refl] by (elim conjE)
  with s show ?thesis by (metis (no_types))
qed

text \<open>
  C15. A vote is always processed: under every view of the chain, admission returns, and so does
  the detection of conflicting votes it runs, whatever the pool and the vote are.
\<close>

theorem put_vote_total:
  assumes "views c env"
  shows "\<exists>s'. put_vote env v s = Some s'"
  using assms by (rule put_vote_returns)

theorem put_vote_total_witness: "\<exists>s'. put_vote sample_view (sample_ballot ! 2) vote_state_new = Some s'"
  using put_vote_total [OF sample_view_ok] .

text \<open>
  C6. The pool never announces a finalized block too early: each fork-choice update it has sent, in
  any reachable state, is for a head whose parent is the justified block and for which validators
  that number two thirds of the snapshot have cast legitimate, signed votes with exactly that
  block as target and its justified block as source, counted once each.
\<close>

theorem finality_notified_backed:
  assumes "pool_reaches c V s J" and "votes_proper c V" and "head \<in> set (forkchoice_updates s)"
  shows "\<exists>snap vd addrs. vc_snapshot c (vc_hash c head) = Some snap \<and>
    target_hash vd = vc_hash c head \<and> target_number vd = number head \<and> number head = source_number vd + 1 \<and>
    justified_source c (vc_hash c head) = Some (source_number vd, source_hash vd) \<and>
    distinct addrs \<and> 2 * length (validators snap) \<le> 3 * length addrs \<and>
    set addrs \<subseteq> {vote_address v |v. v \<in> V \<and> vc_verify c v \<and> legit c v \<and> data v = vd}"
proof -
  have "finality_backed c V head" using reachable_ok [OF assms(1,2)] assms(3) by (simp add: state_ok_def)
  then obtain snap vd addrs where "vc_snapshot c (vc_hash c head) = Some snap"
    "target_hash vd = vc_hash c head" "target_number vd = number head" "number head = source_number vd + 1"
    "justified_source c (vc_hash c head) = Some (source_number vd, source_hash vd)" "distinct addrs"
    and addrs: "set addrs \<subseteq> backers c V vd" "quorum (length (validators snap)) \<le> length addrs"
    unfolding finality_backed_def by blast
  moreover have "set addrs \<subseteq> {vote_address v |v. v \<in> V \<and> vc_verify c v \<and> legit c v \<and> data v = vd}"
    using addrs(1) by (auto simp: backers_def current_def held_def)
  moreover have "2 * length (validators snap) \<le> 3 * length addrs"
    using addrs(2) quorum_bounds(1) [of "length (validators snap)"] by simp
  ultimately show ?thesis by blast
qed

theorem finality_notified_backed_witness:
  "\<exists>(vd :: vote_data) addrs. distinct addrs \<and> 2 * (3::nat) \<le> 3 * length addrs \<and> target_number vd = 10 \<and>
     set addrs \<subseteq> {vote_address v |v. v \<in> set sample_ballot \<and> legit sample_chain v \<and> data v = vd}"
proof -
  obtain s where s: "pool_reaches sample_chain (set sample_ballot) s {}" "map number (forkchoice_updates s) = [10]"
    by (rule sample_run_reaches)
  then obtain head where head: "head \<in> set (forkchoice_updates s)" "number head = 10" by (cases "forkchoice_updates s") auto
  have len: "length (validators sample_voter_snapshot) = 3" by (rule sample_voter_snapshot_wf)
  from finality_notified_backed [OF s(1) sample_ballot_proper head(1)]
  obtain vd :: vote_data and addrs where
    "target_number vd = number head" "distinct addrs" "2 * (3::nat) \<le> 3 * length addrs"
    "set addrs \<subseteq> {vote_address v |v. v \<in> set sample_ballot \<and> vc_verify sample_chain v \<and> legit sample_chain v \<and> data v = vd}"
    using len by (auto simp: sample_chain_def)
  then show ?thesis using head(2) by (intro exI [of _ vd] exI [of _ addrs]) auto
qed

text \<open>
  C8. The pool serves the assembly of attestations: in every reachable state, the votes fetched for
  a block of the chain and its justified source all carry the data the attestation needs and come
  from distinct validators of the snapshot before the block, so that building an attestation from
  them never fails and succeeds exactly when they come from two thirds of the validators.
\<close>

theorem fetched_votes_attest:
  assumes reach: "pool_reaches c V s J" and proper: "votes_proper c V"
    and target: "vc_header c bh = Some target" "vc_snapshot c (parent_hash target) = Some snap"
    and source: "justified_source c bh = Some (jn, jh)"
    and snap: "snap_wf snap" "validators snap \<noteq> []" "length (validators snap) \<le> 64"
    and sigs: "\<And>v. vc_verify c v \<Longrightarrow> env_sig_from_bytes env (signature v) \<noteq> None"
      "\<And>sigs. sigs \<noteq> [] \<Longrightarrow> env_aggregate env sigs \<noteq> None"
    and votes: "votes = fetch_vote_by_block_hash_and_source_number (vote_pool_of s) bh jn"
    and vd: "vd = \<lparr>source_number = jn, source_hash = jh, target_number = number target, target_hash = bh\<rparr>"
  shows "distinct (map vote_address votes) \<and>
    (\<forall>v \<in> set votes. data v = vd \<and> known_voter snap (vote_address v)) \<and>
    (if 2 * length (validators snap) \<le> 3 * length (voters snap votes)
     then \<exists>att. build_attestation env snap vd votes = Inr (Some att) \<and> att_data att = vd
     else build_attestation env snap vd votes = Inr None)"
proof -
  have ok: "chain_pool_ok c V (vote_pool_of s)"
    using reachable_ok [OF reach proper] by (simp add: state_ok_def)
  have v: "data v = vd \<and> known_voter snap (vote_address v) \<and> vc_verify c v" if "v \<in> set votes" for v
  proof -
    have "current c V v" "target_hash (data v) = bh"
      using that fetched_votes(2) [OF proper ok, of v bh]
      by (simp_all add: votes fetch_vote_by_block_hash_and_source_number_def)
    then show ?thesis
      using target source by (auto simp: current_def held_def legit_def vd intro: vote_data.equality)
  qed
  have "distinct (map vote_address votes)"
    using fetched_votes(1) [OF proper ok, of bh] unfolding votes fetch_vote_by_block_hash_and_source_number_def
    by (rule distinct_map_filter)
  moreover have "\<forall>v \<in> set votes. env_vote_hash env (data v) = env_vote_hash env vd \<and>
      env_sig_from_bytes env (signature v) \<noteq> None"
    using v sigs(1) by blast
  from build_attestation_complete [OF snap this sigs(2)]
  have "if 2 * length (validators snap) \<le> 3 * length (voters snap votes)
     then \<exists>att. build_attestation env snap vd votes = Inr (Some att) \<and> att_data att = vd
     else build_attestation env snap vd votes = Inr None" by (auto split: if_splits)
  ultimately show ?thesis using v by blast
qed

theorem fetched_votes_attest_witness:
  "\<exists>s. pool_reaches sample_chain (set sample_ballot) s {} \<and>
     (\<exists>v \<in> set (fetch_vote_by_block_hash_and_source_number (vote_pool_of s) 10 9). data v = sample_vote_data 10)"
proof -
  obtain s where s: "pool_reaches sample_chain (set sample_ballot) s {}"
    "map vote_address (fetch_vote_by_block_hash_and_source_number (vote_pool_of s) 10 9) = [11, 12]"
    by (rule sample_run_reaches)
  let ?snap = "sample_voter_snapshot\<lparr>vote_data := sample_vote_data 9\<rparr>"
  have src: "justified_source sample_chain 10 = Some (9, 9)" by code_simp
  have wf: "snap_wf ?snap" "validators ?snap \<noteq> []" "length (validators ?snap) \<le> 64" by code_simp+
  have "\<forall>v \<in> set (fetch_vote_by_block_hash_and_source_number (vote_pool_of s) 10 9).
      data v = \<lparr>source_number = 9, source_hash = 9, target_number = 10, target_hash = 10\<rparr>"
    using fetched_votes_attest [OF s(1) sample_ballot_proper _ _ src wf, of "sample_header 10 1754967090" "sample_env []"]
    by (simp add: sample_chain_def sample_env_def sample_header_def)
  moreover obtain v where "v \<in> set (fetch_vote_by_block_hash_and_source_number (vote_pool_of s) 10 9)"
    using s(2) by (cases "fetch_vote_by_block_hash_and_source_number (vote_pool_of s) 10 9") auto
  ultimately show ?thesis using s(1) by (auto simp: sample_vote_data_def)
qed

end
