(* ===== verification/VotePoolRules.thy ===== *)
theory VotePoolRules
  imports VotePoolRuns
begin

text \<open>
  Rules of the vote pool that hold for any state: which future targets a promotion selects, when
  the validator sets of two heights differ, and what an admission refuses without trace.
\<close>

section \<open>The smallest targets\<close>

text \<open>Inserting into a sorted list, when the position lies in a known part.\<close>

lemma insort_append_left:
  fixes x :: "'a :: linorder"
  assumes "sorted (hs @ ts)" and "\<And>t. t \<in> set ts \<Longrightarrow> x \<le> t"
  shows "insort x (hs @ ts) = insort x hs @ ts"
proof -
  have "sort (x # hs @ ts) = insort x hs @ ts"
    using assms by (intro properties_for_sort) (auto simp: sorted_append sorted_insort set_insort_key)
  then show ?thesis using assms(1) by (simp add: sorted_sort_id)
qed

lemma insort_append_right:
  fixes x :: "'a :: linorder"
  assumes "sorted (hs @ ts)" and "\<And>h. h \<in> set hs \<Longrightarrow> h \<le> x"
  shows "insort x (hs @ ts) = hs @ insort x ts"
proof -
  have "sort (x # hs @ ts) = hs @ insort x ts"
    using assms by (intro properties_for_sort) (auto simp: sorted_append sorted_insort set_insort_key)
  then show ?thesis using assms(1) by (simp add: sorted_sort_id)
qed

lemma smallest_push_take:
  assumes "sorted zs"
  shows "smallest_push k x (take k zs) = take k (insort x zs)"
proof (cases "length zs < k")
  case True
  then show ?thesis by (simp add: smallest_push_def)
next
  case False
  define hs ts where "hs = take k zs" and "ts = drop k zs"
  have zs: "zs = hs @ ts" and len: "length hs = k" using False by (simp_all add: hs_def ts_def)
  show ?thesis
  proof (cases "hs \<noteq> [] \<and> x < last hs")
    case True
    then have split: "hs = butlast hs @ [last hs]" by simp
    have "x \<le> t" if "t \<in> set ts" for t
    proof -
      have "last hs \<le> t" using that True assms by (simp add: zs sorted_append)
      with True show ?thesis by (meson less_imp_le order.trans)
    qed
    then have "insort x zs = insort x hs @ ts" using assms insort_append_left unfolding zs by blast
    moreover have "insort x hs = insort x (butlast hs) @ [last hs]"
      using insort_append_left [of "butlast hs" "[last hs]" x] True assms split by (auto simp: zs sorted_append intro: less_imp_le)
    moreover have "length (insort x (butlast hs)) = k" using True len by (cases hs) auto
    ultimately show ?thesis using True len by (simp add: smallest_push_def hs_def [symmetric])
  next
    case 2: False
    have "h \<le> x" if "h \<in> set hs" for h
    proof -
      have "h \<le> last hs" using that assms
        by (cases hs rule: rev_cases) (auto simp: zs sorted_append)
      with 2 that show ?thesis by auto
    qed
    then have "insort x zs = hs @ insort x ts" using assms insort_append_right unfolding zs by blast
    then show ?thesis using 2 len by (auto simp: smallest_push_def hs_def [symmetric])
  qed
qed

definition eligible_keys :: "vote_data list \<Rightarrow> u64 \<Rightarrow> (u64 \<times> b256) list" where
  "eligible_keys q latest =
     map (\<lambda>vd. (target_number vd, target_hash vd)) (filter (\<lambda>vd. target_number vd \<le> latest) q)"

lemma smallest_fold:
  "fold (\<lambda>vd heap.
       if target_number vd > latest then heap else smallest_push k (target_number vd, target_hash vd) heap) q
     (take k (sort ys)) = take k (sort (rev (eligible_keys q latest) @ ys))"
proof (induction q arbitrary: ys)
  case (Cons vd q)
  show ?case
  proof (cases "target_number vd > latest")
    case False
    let ?key = "(target_number vd, target_hash vd)"
    have "smallest_push k ?key (take k (sort ys)) = take k (sort (?key # ys))"
      by (simp add: smallest_push_take)
    moreover have "target_number vd \<le> latest" using False by simp
    ultimately show ?thesis using Cons.IH [of "?key # ys"] by (auto simp: eligible_keys_def)
  qed (use Cons.IH in \<open>auto simp: eligible_keys_def\<close>)
qed (simp add: eligible_keys_def)

lemma sort_rev: "sort (rev xs) = sort (xs :: 'a :: linorder list)"
  by (rule properties_for_sort) simp_all

lemma promotion_keys_sort:
  "promotion_keys q latest = take MAX_PROMOTION_TARGETS_PER_PASS (sort (eligible_keys q latest))"
  using smallest_fold [of latest MAX_PROMOTION_TARGETS_PER_PASS q "[]"]
  by (simp add: promotion_keys_def sort_rev)

lemma sorted_fst: "sorted xs \<Longrightarrow> sorted (map fst (xs :: (u64 \<times> b256) list))"
  by (induction xs) (auto simp: less_eq_prod_def)

lemma sort_keys_fst: "map fst (sort xs) = sort (map fst (xs :: (u64 \<times> b256) list))"
  by (rule sym, rule properties_for_sort) (simp_all add: sorted_fst)

lemma sorted_filter_takeWhile:
  "sorted (map f q) \<Longrightarrow> filter (\<lambda>x. f x \<le> n) q = takeWhile (\<lambda>x. f x \<le> (n :: 'a :: linorder)) q"
proof (induction q)
  case (Cons a q)
  then have "\<forall>x \<in> set q. f a \<le> f x" by simp
  then have "filter (\<lambda>x. f x \<le> n) q = []" if "\<not> f a \<le> n" using that by (auto simp: filter_empty_conv)
  with Cons show ?case by auto
qed simp

text \<open>
  C13. A promotion judges the targets its write phase will reach. The bounded heap selects exactly
  the 64 smallest eligible targets in order of height and hash, and their heights are the heights
  of the first eligible entries of the queue, in the order in which the write phase pops them.
\<close>

theorem promotion_keys_smallest:
  assumes "sorted (map target_number q)"
  shows "promotion_keys q latest =
      take 64 (sort (map (\<lambda>vd. (target_number vd, target_hash vd)) (filter (\<lambda>vd. target_number vd \<le> latest) q))) \<and>
    map fst (promotion_keys q latest) =
      map target_number (take 64 (takeWhile (\<lambda>vd. target_number vd \<le> latest) q))"
proof -
  have "sorted (map target_number (filter (\<lambda>vd. target_number vd \<le> latest) q))"
    using assms by (rule sorted_filter)
  then have "map fst (sort (eligible_keys q latest)) = map target_number (filter (\<lambda>vd. target_number vd \<le> latest) q)"
    by (simp add: sort_keys_fst eligible_keys_def comp_def sorted_sort_id)
  then show ?thesis
    using sorted_filter_takeWhile [OF assms, of latest]
    by (simp add: promotion_keys_sort MAX_PROMOTION_TARGETS_PER_PASS_def take_map [symmetric] eligible_keys_def)
qed

theorem promotion_keys_smallest_witness:
  "map fst (promotion_keys [sample_vote_data 3, sample_vote_data 3, sample_vote_data 5, sample_vote_data 9] 6) = [3, 3, 5]"
  using promotion_keys_smallest [of "[sample_vote_data 3, sample_vote_data 3, sample_vote_data 5, sample_vote_data 9]" 6]
  by (simp add: sample_vote_data_def)

section \<open>The sets of two heights\<close>

definition swaps :: "nat \<Rightarrow> nat \<Rightarrow> nat \<Rightarrow> nat" where
  "swaps e off n = (if n \<ge> off then (n - off) div e + 1 else 0)"

lemma swaps_Suc:
  assumes "off < e"
  shows "swaps e off (Suc n) = swaps e off n + (if Suc n mod e = off then 1 else 0)"
proof (cases "Suc n \<le> off")
  case True
  then have "Suc n mod e = Suc n" using assms by simp
  with True show ?thesis by (cases "Suc n = off") (simp_all add: swaps_def)
next
  case False
  define m where "m = n - off"
  have n: "n = m + off" using False by (simp add: m_def)
  have "Suc n mod e = off mod e \<longleftrightarrow> e dvd Suc n - off"
    using False by (intro mod_eq_dvd_iff_nat) simp
  then have "Suc n mod e = off \<longleftrightarrow> Suc m mod e = 0"
    using assms by (simp add: n dvd_eq_mod_eq_0)
  moreover have "swaps e off (Suc n) = Suc m div e + 1" "swaps e off n = m div e + 1"
    by (simp_all add: swaps_def n)
  ultimately show ?thesis by (simp add: div_Suc)
qed

lemma swaps_differ:
  assumes "off < e" and "m \<le> n"
  shows "swaps e off m \<noteq> swaps e off n \<longleftrightarrow> (\<exists>b. m < b \<and> b \<le> n \<and> b mod e = off)"
proof -
  have "swaps e off m \<le> swaps e off n \<and> (swaps e off m \<noteq> swaps e off n \<longleftrightarrow> (\<exists>b. m < b \<and> b \<le> n \<and> b mod e = off))"
    using assms(2)
  proof (induction rule: dec_induct)
    case (step k)
    have "(\<exists>b. m < b \<and> b \<le> Suc k \<and> b mod e = off) \<longleftrightarrow>
        (\<exists>b. m < b \<and> b \<le> k \<and> b mod e = off) \<or> Suc k mod e = off"
      using step.hyps(1) by (metis le_SucE le_SucI le_imp_less_Suc order_refl)
    with step.IH show ?case by (simp add: swaps_Suc [OF assms(1)])
  qed auto
  then show ?thesis by blast
qed

lemma swaps_word:
  assumes "off < e"
  shows "(if n \<ge> off then (n - off) div e + 1 else 0) = (if m \<ge> off then (m - off) div e + 1 else (0 :: u64)) \<longleftrightarrow>
    swaps (unat e) (unat off) (unat n) = swaps (unat e) (unat off) (unat m)"
proof (cases "off = 0")
  case True
  have "n div e = m div e \<longleftrightarrow> unat n div unat e = unat m div unat e"
    by (metis unat_div word_unat_eq_iff)
  with True show ?thesis by (simp add: swaps_def)
next
  case False
  then have off: "1 \<le> unat off" by (simp add: unat_gt_0 Suc_le_eq)
  then have e: "2 \<le> unat e" using assms by (simp add: word_less_nat_alt)
  have "unat (if k \<ge> off then (k - off) div e + 1 else 0) = swaps (unat e) (unat off) (unat k)" for k
  proof (cases "k \<ge> off")
    case True
    have "unat (k - off) < 9223372036854775808 * 2" using unat_u64_lt [of "k - off"] by simp
    then have "unat (k - off) div 2 < 9223372036854775808" by (rule less_mult_imp_div_less)
    moreover have "unat ((k - off) div e) \<le> unat (k - off) div 2"
      unfolding unat_div using e by (intro div_le_mono2) simp_all
    ultimately have "unat ((k - off) div e) < 9223372036854775808" by (rule le_less_trans [rotated])
    then have "unat ((k - off) div e + 1) = unat ((k - off) div e) + 1"
      using unat_add_nowrap [of "(k - off) div e" 1] by simp
    moreover have "unat off \<le> unat k" "unat (k - off) = unat k - unat off"
      using True by (simp_all add: unat_sub word_le_nat_alt)
    ultimately show ?thesis using True by (simp add: swaps_def unat_div)
  qed (simp add: swaps_def word_le_nat_alt)
  then show ?thesis by (simp only: word_unat_eq_iff)
qed

text \<open>
  C14. The test whether the head's validator set may judge a vote for a later or earlier target is
  exact: it reports a difference if and only if a block at which the set is exchanged, one whose
  number is congruent to the offset modulo the epoch length, lies between the head and the
  target's parent, in either order, for all 64-bit inputs (an epoch length of 0 counts as 1).
\<close>

theorem governing_sets_differ_exact:
  "governing_sets_differ head target epoch_len off \<longleftrightarrow>
     unat off < max (unat epoch_len) 1 \<and>
     (\<exists>b. min (unat head) (unat target - 1) < b \<and> b \<le> max (unat head) (unat target - 1) \<and>
        b mod max (unat epoch_len) 1 = unat off)"
proof -
  define e where "e = max epoch_len 1"
  have ue: "unat e = max (unat epoch_len) 1" by (simp add: e_def max_def word_le_nat_alt)
  have up: "unat (saturating_sub target 1) = unat target - 1"
    by simp
  show ?thesis
  proof (cases "off < e")
    case False
    then have "\<not> unat off < unat e" by (simp add: word_less_nat_alt)
    moreover have "\<not> governing_sets_differ head target epoch_len off"
      using leI [OF False] by (simp add: governing_sets_differ_def Let_def e_def [symmetric])
    ultimately show ?thesis by (simp only: ue) blast
  next
    case True
    then have lt: "unat off < unat e" by (simp add: word_less_nat_alt)
    let ?a = "unat head" and ?b = "unat target - 1"
    have "governing_sets_differ head target epoch_len off \<longleftrightarrow>
        swaps (unat e) (unat off) ?a \<noteq> swaps (unat e) (unat off) ?b"
      using swaps_word [OF True, of head "saturating_sub target 1"] True
      by (auto simp: governing_sets_differ_def Let_def e_def [symmetric] up)
    also have "\<dots> \<longleftrightarrow> swaps (unat e) (unat off) (min ?a ?b) \<noteq> swaps (unat e) (unat off) (max ?a ?b)"
      by (auto simp: min_def max_def)
    also have "\<dots> \<longleftrightarrow> (\<exists>b. min ?a ?b < b \<and> b \<le> max ?a ?b \<and> b mod unat e = unat off)"
      by (rule swaps_differ [OF lt]) simp
    finally show ?thesis using lt by (simp add: ue)
  qed
qed

section \<open>Caps and caches\<close>

text \<open>
  A promotion adds every vote it accepts to the current bucket: the limit of 21 votes per block
  that an admission enforces is not consulted.
\<close>

lemma promotion_ignores_cap:
  assumes "map_of (future_votes p) bh = Some vm"
    and "\<And>e. e \<in> set (messages vm) \<Longrightarrow> map_of verdicts (entry_hash e) = Some True"
    and "promote_judged bh verdicts p = (promoted, requeue, p')"
  shows "len_for_block p' bh = len_for_block p bh + length (messages vm)"
proof (cases "messages vm")
  case (Cons e es)
  have "filter (\<lambda>e. map_of verdicts (entry_hash e) = Some True) (messages vm) = messages vm"
    "filter (\<lambda>e. map_of verdicts (entry_hash e) = None) (messages vm) = []"
    using assms(2) by (simp_all add: filter_empty_conv)
  then show ?thesis
    using assms(1,3) Cons
    by (auto simp: promote_judged_def Let_def len_for_block_def extend_bucket_def unwrap_or_def update_conv'
        split: option.splits)
qed (use assms in \<open>auto simp: promote_judged_def Let_def len_for_block_def\<close>)

text \<open>
  A future vote whose sender is not in the head's set is refused and leaves no trace: the vote is
  judged afresh when another copy arrives.
\<close>

lemma refused_future_not_cached:
  assumes "ve_verify env v" and "ve_header_by_hash env (target_hash (data v)) = None"
    and "future_vote_sender_is_validator env v = Some False"
  shows "put_vote env v s = Some s"
  using assms by (simp add: put_vote_def put_vote_inner_def classify_vote_def Let_def)

end
