(* ===== verification/VoteJournal.thy ===== *)
theory VoteJournal
  imports VoteMonitor
begin

text \<open>
  The journal of the votes a validator has produced, \<open>src/node/vote_journal.rs\<close>: a bounded cache in
  memory that the voting rules are checked against, and a file the cache is rebuilt from after a
  restart.

  The file is its text. Serialization is the pair \<open>print\<close> and \<open>parse\<close> of the record \<open>journal_lib\<close>
  (the JSON library), and what the operating system does with an append is the argument
  \<open>append_outcome\<close>: it is written and synced, nothing is written, or it fails half-way and leaves
  some text behind after the roll-back.
\<close>

section \<open>State\<close>

definition MAX_RECENT_ENTRIES :: nat where "MAX_RECENT_ENTRIES = 512"

record vote_data_lru =
  lru_capacity :: nat
  lru_order :: "u64 list"
  lru_map :: "(u64, vote_data) hash_map"

record journal_lib =
  print :: "vote_envelope \<Rightarrow> string"
  parse :: "string \<Rightarrow> vote_envelope option"

datatype append_outcome = Appended | OpenFailed | AppendFailed string

datatype journal_error = AlreadyExists | StorageFault

section \<open>The cache\<close>

definition vote_data_lru_new :: "nat \<Rightarrow> vote_data_lru" where
  "vote_data_lru_new capacity = \<lparr>lru_capacity = capacity, lru_order = [], lru_map = []\<rparr>"

definition journal_contains :: "vote_data_lru \<Rightarrow> u64 \<Rightarrow> bool" where
  "journal_contains l k \<longleftrightarrow> map_of (lru_map l) k \<noteq> None"

definition journal_get :: "vote_data_lru \<Rightarrow> u64 \<Rightarrow> vote_data option" where
  "journal_get l k = map_of (lru_map l) k"

definition lru_add :: "u64 \<Rightarrow> vote_data \<Rightarrow> vote_data_lru \<Rightarrow> vote_data_lru" where
  "lru_add k vd l =
     (let l1 = (if journal_contains l k then l
                else
                  (let order = lru_order l @ [k] in
                   if length order > lru_capacity l then
                     (case order of
                        [] \<Rightarrow> l\<lparr>lru_order := order\<rparr>
                      | old # rest \<Rightarrow> l\<lparr>lru_order := rest, lru_map := AList.delete old (lru_map l)\<rparr>)
                   else l\<lparr>lru_order := order\<rparr>))
      in l1\<lparr>lru_map := AList.update k vd (lru_map l1)\<rparr>)"

section \<open>The file\<close>

text \<open>The lines of a text, without their ends; the last one may lack its newline.\<close>

fun split_lines :: "string \<Rightarrow> string \<Rightarrow> string list" where
  "split_lines line [] = (if line = [] then [] else [line])"
| "split_lines line (c # cs) =
     (if c = CHR ''\<newline>'' then line # split_lines [] cs else split_lines (line @ [c]) cs)"

definition strip_cr :: "string \<Rightarrow> string" where
  "strip_cr line = (if line \<noteq> [] \<and> last line = CHR 0x0D then butlast line else line)"

definition file_lines :: "string \<Rightarrow> string list" where
  [rust_std]: "file_lines s = map strip_cr (split_lines [] s)"

definition push_recent :: "vote_data \<Rightarrow> vote_data list \<Rightarrow> vote_data list" where
  "push_recent vd buf = (let buf' = buf @ [vd] in if length buf' > MAX_RECENT_ENTRIES then tl buf' else buf')"

definition load_from_disk :: "journal_lib \<Rightarrow> string \<Rightarrow> vote_data_lru" where
  "load_from_disk lib file =
     (let votes = List.map_filter (\<lambda>line. if line = [] then None else map_option data (parse lib line))
            (file_lines file);
          buf = fold push_recent votes []
      in fold (\<lambda>vd. lru_add (target_number vd) vd) buf (vote_data_lru_new MAX_RECENT_ENTRIES))"

section \<open>The rules\<close>

function backward_ok :: "vote_data_lru \<Rightarrow> u64 \<Rightarrow> u64 \<Rightarrow> u64 \<Rightarrow> bool" where
  "backward_ok l sn tn bn =
     (if bn < tn then
        (case journal_get l bn of
           Some vd \<Rightarrow> if source_number vd > sn then False else backward_ok l sn tn (bn + 1)
         | None \<Rightarrow> backward_ok l sn tn (bn + 1))
      else True)"
  by pat_completeness auto

termination
proof (relation "measure (\<lambda>(_, _, tn, bn). unat tn - unat bn)")
  fix l sn tn bn
  assume "bn < (tn :: u64)"
  then have "unat (bn + 1) = unat bn + 1" "unat bn < unat tn"
    using unat_add_nowrap [of bn 1] unat_u64_lt [of tn] by (simp_all add: word_less_nat_alt)
  then show "((l, sn, tn, bn + 1), l, sn, tn, bn) \<in> measure (\<lambda>(_, _, tn, bn). unat tn - unat bn)"
    "\<And>vd. journal_get l bn = Some vd \<Longrightarrow> \<not> source_number vd > sn \<Longrightarrow>
      ((l, sn, tn, bn + 1), l, sn, tn, bn) \<in> measure (\<lambda>(_, _, tn, bn). unat tn - unat bn)"
    by simp_all
qed simp_all

declare backward_ok.simps [simp del]

partial_function (option) forward_ok :: "vote_data_lru \<Rightarrow> u64 \<Rightarrow> u64 \<Rightarrow> u64 \<Rightarrow> bool option" where
  "forward_ok l sn upper bn =
     (if bn \<le> upper then
        (case journal_get l bn of
           Some vd \<Rightarrow> if source_number vd < sn then Some False else forward_ok l sn upper (bn + 1)
         | None \<Rightarrow> forward_ok l sn upper (bn + 1))
      else Some True)"

declare forward_ok.simps [code]

definition backward_start :: "u64 \<Rightarrow> u64 \<Rightarrow> u64" where
  "backward_start sn tn =
     (let bn = saturating_add sn 1 in
      if bn + MALICIOUS_VOTE_SLASH_SCOPE < tn then saturating_sub tn MALICIOUS_VOTE_SLASH_SCOPE else bn)"

definition under_rules :: "vote_data_lru \<Rightarrow> u64 \<Rightarrow> u64 \<Rightarrow> bool option" where
  "under_rules l sn tn =
     (if journal_contains l tn then Some False
      else if \<not> backward_ok l sn tn (backward_start sn tn) then Some False
      else forward_ok l sn (tn + UPPER_LIMIT_OF_VOTE_BLOCK_NUMBER) (tn + 1))"

text \<open>The result, the cache and the text of the file; \<open>mem_only\<close> is the environment toggle.\<close>

definition write_vote ::
  "journal_lib \<Rightarrow> bool \<Rightarrow> append_outcome \<Rightarrow> vote_envelope \<Rightarrow> vote_data_lru \<Rightarrow> string \<Rightarrow>
     ((journal_error + unit) \<times> vote_data_lru \<times> string) option" where
  "write_vote lib mem_only outcome vote l file =
     do {
       allowed \<leftarrow> under_rules l (source_number (data vote)) (target_number (data vote));
       let l' = lru_add (target_number (data vote)) (data vote) l;
       Some (if \<not> allowed then (Inl AlreadyExists, l, file)
             else if mem_only then (Inr (), l', file)
             else
               (case outcome of
                  OpenFailed \<Rightarrow> (Inl StorageFault, l, file)
                | Appended \<Rightarrow> (Inr (), l', file @ print lib vote @ [CHR ''\<newline>''])
                | AppendFailed rest \<Rightarrow> (Inl StorageFault, l', file @ rest)))
     }"

section \<open>What the rules check\<close>

lemma word_le_cases: "bn < (tn :: u64) \<Longrightarrow> bn \<le> k \<longleftrightarrow> k = bn \<or> bn + 1 \<le> k"
  using unat_add_nowrap [of bn 1] unat_u64_lt [of tn]
  by (auto simp: word_le_nat_alt word_less_nat_alt word_unat_eq_iff)

lemma backward_ok_iff:
  "backward_ok l sn tn bn \<longleftrightarrow>
     (\<forall>k vd. bn \<le> k \<and> k < tn \<and> journal_get l k = Some vd \<longrightarrow> source_number vd \<le> sn)"
proof (induction l sn tn bn rule: backward_ok.induct)
  case (1 l sn tn bn)
  show ?case
  proof (cases "bn < tn")
    case True
    show ?thesis
    proof (cases "journal_get l bn")
      case None
      with True have "backward_ok l sn tn bn = backward_ok l sn tn (bn + 1)" by (simp add: backward_ok.simps [of l sn tn bn])
      also have "\<dots> \<longleftrightarrow> (\<forall>k vd. bn + 1 \<le> k \<and> k < tn \<and> journal_get l k = Some vd \<longrightarrow> source_number vd \<le> sn)"
        by (rule "1.IH"(1) [OF True None])
      finally show ?thesis using word_le_cases [OF True] None by auto
    next
      case (Some vd)
      show ?thesis
      proof (cases "source_number vd > sn")
        case True
        then have "\<not> backward_ok l sn tn bn" using Some \<open>bn < tn\<close> by (simp add: backward_ok.simps [of l sn tn bn])
        moreover have "bn \<le> bn" "\<not> source_number vd \<le> sn" using True by simp_all
        ultimately show ?thesis using Some \<open>bn < tn\<close> by blast
      next
        case False
        then have "backward_ok l sn tn bn = backward_ok l sn tn (bn + 1)"
          using Some \<open>bn < tn\<close> by (simp add: backward_ok.simps [of l sn tn bn])
        also have "\<dots> \<longleftrightarrow> (\<forall>k vd. bn + 1 \<le> k \<and> k < tn \<and> journal_get l k = Some vd \<longrightarrow> source_number vd \<le> sn)"
          by (rule "1.IH"(2) [OF \<open>bn < tn\<close> Some False])
        finally show ?thesis using word_le_cases [OF \<open>bn < tn\<close>] Some leI [OF False] by (metis option.inject)
      qed
    qed
  next
    case False
    then have "backward_ok l sn tn bn" by (simp add: backward_ok.simps [of l sn tn bn])
    moreover have "\<not> k < tn" if "bn \<le> k" for k using False that by (meson le_less_trans)
    ultimately show ?thesis by blast
  qed
qed

lemma forward_ok_iff:
  assumes "upper \<noteq> u64_max"
  shows "forward_ok l sn upper bn =
    Some (\<forall>k vd. bn \<le> k \<and> k \<le> upper \<and> journal_get l k = Some vd \<longrightarrow> sn \<le> source_number vd)"
proof (induction "unat upper + 1 - unat bn" arbitrary: bn rule: less_induct)
  case less
  show ?case
  proof (cases "bn \<le> upper")
    case True
    note next_ok = less.hyps [OF scan_next(1) [OF assms True]]
    note split = scan_next(2) [OF assms True]
    show ?thesis
    proof (cases "journal_get l bn")
      case None
      have "forward_ok l sn upper bn = forward_ok l sn upper (bn + 1)"
        using True None by (subst forward_ok.simps) simp
      then show ?thesis using split None by (auto simp: next_ok)
    next
      case (Some vd)
      show ?thesis
      proof (cases "source_number vd < sn")
        case True
        have "forward_ok l sn upper bn = Some False"
          using \<open>bn \<le> upper\<close> Some True by (subst forward_ok.simps) simp
        moreover have "\<not> sn \<le> source_number vd" using True by simp
        ultimately show ?thesis using Some \<open>bn \<le> upper\<close> by auto
      next
        case False
        have "forward_ok l sn upper bn = forward_ok l sn upper (bn + 1)"
          using \<open>bn \<le> upper\<close> Some False by (subst forward_ok.simps) simp
        moreover have "sn \<le> source_number vd" using False by simp
        ultimately show ?thesis using split Some by (auto simp: next_ok)
      qed
    qed
  next
    case False
    have "forward_ok l sn upper bn = Some True" using False by (subst forward_ok.simps) simp
    moreover have "\<not> k \<le> upper" if "bn \<le> k" for k using False that by (meson order.trans)
    ultimately show ?thesis by auto
  qed
qed

text \<open>What a new vote \<open>v\<close> must satisfy against an earlier one.\<close>

definition compatible :: "vote_data \<Rightarrow> vote_data \<Rightarrow> bool" where
  "compatible w v \<longleftrightarrow>
     target_number w \<noteq> target_number v \<and>
     (source_number v < target_number w \<and> target_number w < target_number v \<and>
        unat (target_number v) \<le> unat (target_number w) + 256 \<longrightarrow> source_number w \<le> source_number v) \<and>
     (target_number v < target_number w \<and> unat (target_number w) \<le> unat (target_number v) + 11 \<longrightarrow>
        source_number v \<le> source_number w)"

lemma backward_start_le:
  assumes "unat sn < 2 ^ 63" and "unat tn < 2 ^ 63"
  shows "backward_start sn tn \<le> k \<longleftrightarrow> sn < k \<and> unat tn \<le> unat k + 256"
proof -
  have "sn \<le> u64_max - 1" using assms(1) by (simp add: u64_max_def word_le_nat_alt)
  then have sat: "saturating_add sn 1 = sn + 1" by (simp add: saturating_add_def)
  have s1: "unat (sn + 1) = unat sn + 1" using assms(1) unat_add_nowrap [of sn 1] by simp
  have s2: "unat (sn + 1 + 256) = unat sn + 257" using assms(1) s1 unat_add_nowrap [of "sn + 1" 256] by simp
  show ?thesis
  proof (cases "sn + 1 + 256 < tn")
    case True
    then have "unat sn + 257 < unat tn" using s2 by (simp add: word_less_nat_alt)
    moreover have "backward_start sn tn = saturating_sub tn 256"
      using True by (simp add: backward_start_def sat MALICIOUS_VOTE_SLASH_SCOPE_def)
    ultimately show ?thesis by (auto simp: word_le_nat_alt word_less_nat_alt)
  next
    case False
    then have "unat tn \<le> unat sn + 257" using s2 by (simp add: word_less_nat_alt)
    moreover have "backward_start sn tn = sn + 1"
      using False by (simp add: backward_start_def sat MALICIOUS_VOTE_SLASH_SCOPE_def)
    ultimately show ?thesis using s1 by (auto simp: word_le_nat_alt word_less_nat_alt)
  qed
qed

lemma under_rules_iff:
  assumes keyed: "\<And>k vd. journal_get l k = Some vd \<longleftrightarrow> vd \<in> X \<and> target_number vd = k"
    and "unat (source_number v) < 2 ^ 63" and "unat (target_number v) < 2 ^ 63"
  shows "under_rules l (source_number v) (target_number v) = Some (\<forall>w \<in> X. compatible w v)"
proof -
  let ?sn = "source_number v" and ?tn = "target_number v"
  have up: "unat (?tn + UPPER_LIMIT_OF_VOTE_BLOCK_NUMBER) = unat ?tn + 11"
    using assms(3) unat_add_nowrap [of ?tn 11] by (simp add: UPPER_LIMIT_OF_VOTE_BLOCK_NUMBER_def)
  have n1: "unat (?tn + 1) = unat ?tn + 1" using assms(3) unat_add_nowrap [of ?tn 1] by simp
  have "?tn + UPPER_LIMIT_OF_VOTE_BLOCK_NUMBER \<noteq> u64_max"
    using up assms(3) by (auto simp: u64_max_def word_unat_eq_iff)
  moreover have "?tn + 1 \<le> k \<and> k \<le> ?tn + UPPER_LIMIT_OF_VOTE_BLOCK_NUMBER \<longleftrightarrow> ?tn < k \<and> unat k \<le> unat ?tn + 11" for k
    by (simp add: word_le_nat_alt word_less_nat_alt up n1 Suc_le_eq)
  ultimately have fwd: "forward_ok l ?sn (?tn + UPPER_LIMIT_OF_VOTE_BLOCK_NUMBER) (?tn + 1) =
      Some (\<forall>w \<in> X. ?tn < target_number w \<and> unat (target_number w) \<le> unat ?tn + 11 \<longrightarrow> ?sn \<le> source_number w)"
    by (auto simp: forward_ok_iff keyed)
  have bwd: "backward_ok l ?sn ?tn (backward_start ?sn ?tn) \<longleftrightarrow>
      (\<forall>w \<in> X. ?sn < target_number w \<and> target_number w < ?tn \<and> unat ?tn \<le> unat (target_number w) + 256 \<longrightarrow>
         source_number w \<le> ?sn)"
    by (auto simp: backward_ok_iff backward_start_le [OF assms(2,3)] keyed)
  have dup: "journal_contains l ?tn \<longleftrightarrow> (\<exists>w \<in> X. target_number w = ?tn)"
    using keyed [of ?tn] by (auto simp: journal_contains_def journal_get_def)
  show ?thesis
    unfolding under_rules_def fwd bwd dup compatible_def by auto
qed

text \<open>Two nearby votes that pass the check do not conflict.\<close>

lemma compatible_no_conflict:
  assumes "compatible w v" and "source_number w < target_number w" and "source_number v < target_number v"
    and "unat (target_number v) \<le> unat (target_number w) + 256"
    and "unat (target_number w) \<le> unat (target_number v) + 11"
  shows "\<not> votes_conflict data_hash v w"
proof -
  have "\<not> double_vote data_hash v w" using assms(1) by (auto simp: compatible_def double_vote_def)
  moreover have "\<not> surrounds v w"
  proof
    assume s: "surrounds v w"
    then have "source_number v < target_number w"
      using assms(2) unfolding surrounds_def by (meson less_trans)
    with s assms(1,4) have "source_number w \<le> source_number v" by (simp add: compatible_def surrounds_def)
    with s show False by (simp add: surrounds_def leD)
  qed
  moreover have "\<not> surrounds w v"
    using assms(1,5) unfolding compatible_def surrounds_def by (meson leD)
  ultimately show ?thesis by (simp add: votes_conflict_def)
qed

section \<open>The cache holds the recent votes\<close>

definition recent :: "'a list \<Rightarrow> 'a list" where
  "recent xs = drop (length xs - MAX_RECENT_ENTRIES) xs"

lemma length_recent: "length (recent xs) \<le> MAX_RECENT_ENTRIES"
  by (simp add: recent_def)

lemma recent_short: "length xs \<le> MAX_RECENT_ENTRIES \<Longrightarrow> recent xs = xs"
  by (simp add: recent_def)

lemma recent_snoc:
  "recent (recent xs @ [x]) = recent (xs @ [x])"
  "length (recent xs) = MAX_RECENT_ENTRIES \<Longrightarrow> recent (xs @ [x]) = tl (recent xs) @ [x]"
  "length (recent xs) < MAX_RECENT_ENTRIES \<Longrightarrow> recent (xs @ [x]) = recent xs @ [x]"
proof -
  have "length xs - (length xs - 512 + 511) + (length xs - 512) = length xs - 511" by arith
  then show "recent (recent xs @ [x]) = recent (xs @ [x])"
    by (simp add: recent_def MAX_RECENT_ENTRIES_def)
  show "recent (xs @ [x]) = tl (recent xs) @ [x]" if len: "length (recent xs) = MAX_RECENT_ENTRIES"
  proof -
    have "512 \<le> length xs" using len by (simp add: recent_def MAX_RECENT_ENTRIES_def)
    then have "length xs - 511 = Suc (length xs - 512)" by simp
    then show ?thesis by (simp add: recent_def MAX_RECENT_ENTRIES_def tl_drop drop_Suc)
  qed
  show "recent (xs @ [x]) = recent xs @ [x]" if len: "length (recent xs) < MAX_RECENT_ENTRIES"
  proof -
    have "length xs < 512" using len by (simp add: recent_def MAX_RECENT_ENTRIES_def)
    then show ?thesis by (simp add: recent_def MAX_RECENT_ENTRIES_def)
  qed
qed

lemma set_recent: "set (recent xs) \<subseteq> set xs"
  by (simp add: recent_def set_drop_subset)

lemma recent_map: "recent (map f xs) = map f (recent xs)"
  by (simp add: recent_def drop_map)

definition mem_ok :: "vote_data_lru \<Rightarrow> vote_data list \<Rightarrow> bool" where
  "mem_ok l R \<longleftrightarrow> lru_capacity l = MAX_RECENT_ENTRIES \<and> lru_order l = map target_number R \<and>
     distinct (map target_number R) \<and> length R \<le> MAX_RECENT_ENTRIES \<and>
     (\<forall>k vd. map_of (lru_map l) k = Some vd \<longleftrightarrow> vd \<in> set R \<and> target_number vd = k)"

lemma mem_ok_get: "mem_ok l R \<Longrightarrow> journal_get l k = Some vd \<longleftrightarrow> vd \<in> set R \<and> target_number vd = k"
  by (simp add: mem_ok_def journal_get_def)

lemma mem_ok_new: "mem_ok (vote_data_lru_new MAX_RECENT_ENTRIES) []"
  by (simp add: mem_ok_def vote_data_lru_new_def)

lemma mem_ok_add:
  assumes "mem_ok l R" and fresh: "\<forall>w \<in> set R. target_number w \<noteq> target_number v"
  shows "mem_ok (lru_add (target_number v) v l) (recent (R @ [v]))"
proof -
  note m = assms(1) [unfolded mem_ok_def]
  have new: "\<not> journal_contains l (target_number v)"
  proof
    assume "journal_contains l (target_number v)"
    then obtain vd where "map_of (lru_map l) (target_number v) = Some vd" by (auto simp: journal_contains_def)
    with m have "vd \<in> set R" "target_number vd = target_number v" by simp_all
    with fresh show False by blast
  qed
  show ?thesis
  proof (cases "length R < MAX_RECENT_ENTRIES")
    case True
    then have r: "recent (R @ [v]) = R @ [v]" by (simp add: recent_short)
    have "lru_add (target_number v) v l = l\<lparr>lru_order := lru_order l @ [target_number v],
        lru_map := AList.update (target_number v) v (lru_map l)\<rparr>"
      using m new True by (simp add: lru_add_def Let_def)
    then show ?thesis
      using m True fresh unfolding r mem_ok_def by (auto simp: update_conv' fun_upd_def)
  next
    case False
    then have len: "length R = MAX_RECENT_ENTRIES" using m by simp
    then obtain a R' where R: "R = a # R'" by (cases R) (simp_all add: MAX_RECENT_ENTRIES_def)
    have r: "recent (R @ [v]) = R' @ [v]"
      using recent_snoc(2) [of R v] len by (simp add: recent_short R)
    have "lru_add (target_number v) v l =
        l\<lparr>lru_order := map target_number R' @ [target_number v],
          lru_map := AList.update (target_number v) v (AList.delete (target_number a) (lru_map l))\<rparr>"
      using m new len by (simp add: lru_add_def Let_def R)
    moreover have "\<forall>w \<in> set R'. target_number w \<noteq> target_number a"
    proof
      fix w
      assume "w \<in> set R'"
      then have "target_number w \<in> target_number ` set R'" by (rule imageI)
      then show "target_number w \<noteq> target_number a" using m by (auto simp: R)
    qed
    ultimately show ?thesis
      using m len fresh unfolding r mem_ok_def
      by (auto simp: R update_conv' delete_conv' fun_upd_def restrict_map_def split: if_split_asm)
  qed
qed

lemma mem_ok_fold_add:
  assumes "mem_ok l R" and "distinct (map target_number (R @ vs))" and "length (R @ vs) \<le> MAX_RECENT_ENTRIES"
  shows "mem_ok (fold (\<lambda>vd. lru_add (target_number vd) vd) vs l) (R @ vs)"
  using assms
proof (induction vs arbitrary: l R)
  case (Cons v vs)
  have "recent (R @ [v]) = R @ [v]" using Cons.prems(3) by (simp add: recent_short)
  moreover have "\<forall>w \<in> set R. target_number w \<noteq> target_number v" using Cons.prems(2) by (auto simp: rev_image_eqI)
  ultimately have "mem_ok (lru_add (target_number v) v l) (R @ [v])"
    using mem_ok_add [OF Cons.prems(1), of v] by metis
  from Cons.IH [OF this] Cons.prems(2,3) show ?case by simp
qed simp

lemma fold_push_recent: "fold push_recent vs (recent buf) = recent (buf @ vs)"
proof (induction vs arbitrary: buf)
  case (Cons v vs)
  have "push_recent v (recent buf) = recent (buf @ [v])"
    using recent_snoc(2,3) [of buf v] length_recent [of buf]
    by (cases "length (recent buf) = MAX_RECENT_ENTRIES"; cases "recent buf")
      (auto simp: push_recent_def Let_def MAX_RECENT_ENTRIES_def)
  then show ?case using Cons.IH [of "buf @ [v]"] by simp
qed simp

section \<open>The file holds the votes\<close>

text \<open>What the journal relies on of the serialization of the votes \<open>V\<close>: one line each, read back.\<close>

definition lib_ok :: "journal_lib \<Rightarrow> vote_envelope set \<Rightarrow> bool" where
  "lib_ok lib V \<longleftrightarrow>
     (\<forall>v \<in> V. parse lib (print lib v) = Some v \<and> print lib v \<noteq> [] \<and>
        CHR ''\<newline>'' \<notin> set (print lib v) \<and> last (print lib v) \<noteq> CHR 0x0D)"

definition journal_text :: "journal_lib \<Rightarrow> vote_envelope list \<Rightarrow> string" where
  "journal_text lib vs = concat (map (\<lambda>v. print lib v @ [CHR ''\<newline>'']) vs)"

lemma split_lines_line:
  "CHR ''\<newline>'' \<notin> set s \<Longrightarrow> split_lines acc (s @ CHR ''\<newline>'' # rest) = (acc @ s) # split_lines [] rest"
  by (induction s arbitrary: acc) auto

lemma journal_lines:
  assumes "lib_ok lib V" and "set vs \<subseteq> V"
  shows "file_lines (journal_text lib vs) = map (print lib) vs"
  using assms(2)
proof (induction vs)
  case (Cons v vs)
  then have "split_lines [] (journal_text lib (v # vs)) = print lib v # split_lines [] (journal_text lib vs)"
    using assms(1) by (simp add: journal_text_def lib_ok_def split_lines_line)
  with Cons assms(1) show ?case by (simp add: file_lines_def lib_ok_def strip_cr_def)
qed (simp add: journal_text_def file_lines_def)

lemma load_journal:
  assumes "lib_ok lib V" and "set vs \<subseteq> V" and "distinct (map target_number (recent (map data vs)))"
  shows "mem_ok (load_from_disk lib (journal_text lib vs)) (recent (map data vs))"
proof -
  have "List.map_filter (\<lambda>line. if line = [] then None else map_option data (parse lib line)) (map (print lib) vs) = map data vs"
    using assms(1,2) by (induction vs) (simp_all add: List.map_filter_simps lib_ok_def)
  moreover have "fold push_recent (map data vs) [] = recent (map data vs)"
    using fold_push_recent [of "map data vs" "[]"] by (simp add: recent_def)
  ultimately have "load_from_disk lib (journal_text lib vs) =
      fold (\<lambda>vd. lru_add (target_number vd) vd) (recent (map data vs)) (vote_data_lru_new MAX_RECENT_ENTRIES)"
    by (simp add: load_from_disk_def journal_lines [OF assms(1,2)])
  then show ?thesis using mem_ok_fold_add [OF mem_ok_new, of "recent (map data vs)"] assms(3) length_recent [of "map data vs"] by simp
qed

section \<open>Runs\<close>

text \<open>
  The life of a journal: votes of \<open>V\<close> are written, appends succeed or fail before anything is
  written, and the node restarts at any time. The list holds the votes accepted so far.
\<close>

inductive journal_reaches ::
  "journal_lib \<Rightarrow> vote_envelope set \<Rightarrow> vote_data_lru \<Rightarrow> string \<Rightarrow> vote_envelope list \<Rightarrow> bool"
  for lib V where
  start: "journal_reaches lib V (load_from_disk lib []) [] []"
| record_vote: "journal_reaches lib V l txt_file S \<Longrightarrow> v \<in> V \<Longrightarrow> outcome = Appended \<or> outcome = OpenFailed \<Longrightarrow>
    write_vote lib False outcome v l txt_file = Some (r, l', txt_file') \<Longrightarrow>
    journal_reaches lib V l' txt_file' (if is_ok r then S @ [v] else S)"
| restart: "journal_reaches lib V l txt_file S \<Longrightarrow> journal_reaches lib V (load_from_disk lib txt_file) txt_file S"

definition bounded_votes :: "vote_envelope set \<Rightarrow> bool" where
  "bounded_votes V \<longleftrightarrow>
     (\<forall>v \<in> V. source_number (data v) < target_number (data v) \<and> unat (target_number (data v)) < 2 ^ 63)"

definition spaced :: "vote_data list \<Rightarrow> bool" where
  "spaced S \<longleftrightarrow> (\<forall>j < length S. \<forall>w \<in> set (recent (take j S)). compatible w (S ! j))"

lemma spaced_snoc: "spaced (S @ [v]) \<longleftrightarrow> spaced S \<and> (\<forall>w \<in> set (recent S). compatible w v)"
  by (auto simp: spaced_def less_Suc_eq nth_append)

lemma spaced_pair:
  assumes "spaced S" and "i < j" and "j < length S" and "j - i \<le> MAX_RECENT_ENTRIES"
  shows "compatible (S ! i) (S ! j)"
proof -
  have "recent (take j S) = drop (j - MAX_RECENT_ENTRIES) (take j S)" using assms(3) by (simp add: recent_def)
  moreover have "S ! i \<in> set (drop (j - MAX_RECENT_ENTRIES) (take j S))"
  proof -
    have "drop (j - MAX_RECENT_ENTRIES) (take j S) ! (i - (j - MAX_RECENT_ENTRIES)) = S ! i"
      using assms(2-4) by simp
    moreover have "i - (j - MAX_RECENT_ENTRIES) < length (drop (j - MAX_RECENT_ENTRIES) (take j S))"
      using assms(2-4) by simp
    ultimately show ?thesis by (metis nth_mem)
  qed
  ultimately show ?thesis using assms(1,3) by (simp add: spaced_def)
qed

lemma spaced_distinct: "spaced S \<Longrightarrow> distinct (map target_number (recent S))"
proof -
  assume s: "spaced S"
  let ?n = "length S - MAX_RECENT_ENTRIES"
  have "target_number (recent S ! i) \<noteq> target_number (recent S ! j)" if "i < j" "j < length (recent S)" for i j
  proof -
    have "compatible (S ! (?n + i)) (S ! (?n + j))"
      using that by (intro spaced_pair [OF s]) (auto simp: recent_def)
    then show ?thesis using that by (simp add: recent_def compatible_def)
  qed
  then show ?thesis unfolding distinct_conv_nth by (metis length_map nat_neq_iff nth_map)
qed

lemma journal_invariant:
  assumes "journal_reaches lib V l txt_file S" and lib: "lib_ok lib V" and V: "bounded_votes V"
  shows "mem_ok l (recent (map data S)) \<and> txt_file = journal_text lib S \<and> set S \<subseteq> V \<and> spaced (map data S)"
  using assms(1)
proof induction
  case start
  show ?case using load_journal [OF lib, of "[]"] by (simp add: journal_text_def spaced_def recent_def)
next
  case (record_vote l txt_file S v outcome r l' txt_file')
  then have mem: "mem_ok l (recent (map data S))" by blast
  have b: "unat (source_number (data v)) < 2 ^ 63" "unat (target_number (data v)) < 2 ^ 63"
    using V record_vote.hyps(2) by (fastforce simp: bounded_votes_def word_less_nat_alt)+
  have rules: "under_rules l (source_number (data v)) (target_number (data v)) =
      Some (\<forall>w \<in> set (recent (map data S)). compatible w (data v))"
    using mem_ok_get [OF mem] b by (rule under_rules_iff)
  show ?case
  proof (cases "is_ok r")
    case True
    then have ok: "\<forall>w \<in> set (recent (map data S)). compatible w (data v)"
      and out: "outcome = Appended"
      and l': "l' = lru_add (target_number (data v)) (data v) l"
      and txt_file': "txt_file' = txt_file @ print lib v @ [CHR ''\<newline>'']"
      using record_vote.hyps(3,4) by (auto simp: write_vote_def rules is_ok_def Let_def split: if_splits)
    have "mem_ok l' (recent (recent (map data S) @ [data v]))"
      unfolding l' using mem by (rule mem_ok_add) (use ok in \<open>auto simp: compatible_def\<close>)
    then show ?thesis
      using True record_vote.IH record_vote.hyps(2) ok by (simp add: recent_snoc(1) txt_file' journal_text_def spaced_snoc)
  next
    case False
    then have "l' = l \<and> txt_file' = txt_file"
      using record_vote.hyps(3,4) by (auto simp: write_vote_def rules is_ok_def Let_def split: if_splits)
    with False record_vote.IH show ?thesis by simp
  qed
next
  case (restart l txt_file S)
  then have "mem_ok (load_from_disk lib txt_file) (recent (map data S))"
    using load_journal [OF lib, of S] spaced_distinct [of "map data S"] by simp
  with restart show ?case by simp
qed

end
