(* ===== verification/VoteProducer.thy ===== *)
theory VoteProducer
  imports VotePoolRuns VoteJournal
begin

text \<open>
  The production of votes, \<open>src/node/vote_producer.rs\<close>: on each new head a validator checks that it
  may vote, signs (\<open>src/consensus/parlia/bls_signer.rs\<close>), journals, inserts the vote into its own
  pool and broadcasts it.

  The record \<open>producer_env\<close> is what the function reads: the configuration, the chain
  specification, the signer, the providers, the clock and the outcome of the append to the
  journal. The globals are the record \<open>producer_state\<close>, in which \<open>broadcast\<close> collects what was
  handed to the network.
\<close>

section \<open>State\<close>

definition DEFAULT_WARMUP_BLOCKS :: u64 where "DEFAULT_WARMUP_BLOCKS = 40"
definition TIME_FOR_BROADCAST_MS :: u64 where "TIME_FOR_BROADCAST_MS = 50"
definition PRODUCED_TARGETS_SIZE :: nat where "PRODUCED_TARGETS_SIZE = 2048"
definition VOTEADDR_INDEX_SIZE :: nat where "VOTEADDR_INDEX_SIZE = 1024"

record mining_switch =
  mining_enabled :: bool
  has_keystore_path :: bool
  has_private_key_hex :: bool

record producer_env =
  pe_mining :: "mining_switch option"
  pe_spec :: chain_spec
  pe_warmup :: "u64 option"
  pe_bls_initialized :: bool
  pe_bls_public_key :: "vote_address option"
  pe_bls_sign_hash :: "b256 \<Rightarrow> vote_signature option"
  pe_genesis :: "header option"
  pe_now_ms :: u64
  pe_journal_lib :: journal_lib
  pe_mem_only :: bool
  pe_outcome :: append_outcome
  pe_vote_env :: vote_env

record producer_state =
  produced_targets :: "(b256 \<times> unit) list"
  start_vote :: bool
  blocks_since_mining :: u64
  voteaddr_index :: "(b256 \<times> vote_address set) list"
  journal :: vote_data_lru
  journal_file :: string
  votes_state :: vote_state
  broadcast :: "vote_envelope list"

section \<open>Operations\<close>

definition is_mining_enabled :: "mining_switch \<Rightarrow> bool" where
  "is_mining_enabled c \<longleftrightarrow> mining_enabled c \<and> (has_keystore_path c \<or> has_private_key_hex c)"

definition set_downloader_active :: "bool \<Rightarrow> producer_state \<Rightarrow> producer_state" where
  "set_downloader_active active s = s\<lparr>start_vote := \<not> active\<rparr>"

definition warmup_blocks :: "producer_env \<Rightarrow> u64" where
  "warmup_blocks env =
     (case pe_warmup env of Some v \<Rightarrow> if v > 0 then v else DEFAULT_WARMUP_BLOCKS | None \<Rightarrow> DEFAULT_WARMUP_BLOCKS)"

definition sign_vote :: "producer_env \<Rightarrow> vote_data \<Rightarrow> vote_envelope option" where
  "sign_vote env vd =
     do {
       addr \<leftarrow> pe_bls_public_key env;
       sig \<leftarrow> pe_bls_sign_hash env (ve_data_hash (pe_vote_env env) vd);
       Some \<lparr>vote_address = addr, signature = sig, data = vd\<rparr>
     }"

definition vote_addrs_of :: "snapshot \<Rightarrow> vote_address set" where
  "vote_addrs_of snap = set (filter (\<lambda>a. a \<noteq> 0) (map (vote_addr \<circ> snd) (validators_map snap)))"

text \<open>The set of vote addresses of a snapshot through the cache.\<close>

definition cached_vote_addrs ::
  "snapshot \<Rightarrow> (b256 \<times> vote_address set) list \<Rightarrow> vote_address set \<times> (b256 \<times> vote_address set) list" where
  "cached_vote_addrs snap idx =
     (case map_of idx (block_hash snap) of
        Some s \<Rightarrow> (s, lru_touch (block_hash snap) idx)
      | None \<Rightarrow> (vote_addrs_of snap, lru_put VOTEADDR_INDEX_SIZE (block_hash snap) (vote_addrs_of snap) idx))"

definition too_late :: "producer_env \<Rightarrow> snapshot \<Rightarrow> header \<Rightarrow> bool" where
  "too_late env snap head =
     (let count = (if is_fermi_active_at_timestamp (pe_spec env) (number head) (timestamp head)
                   then word_of_nat K_ANCESTOR_GENERATION_DEPTH else 1);
          vote_assemble_ms = saturating_add (calculate_millisecond_timestamp head) (block_interval snap * count)
      in saturating_add (pe_now_ms env) TIME_FOR_BROADCAST_MS > vote_assemble_ms)"

definition vote_source :: "producer_env \<Rightarrow> snapshot \<Rightarrow> (u64 \<times> b256) option" where
  "vote_source env snap =
     (if target_hash (vote_data snap) = 0
      then map_option (\<lambda>g. (number g, ve_hash (pe_vote_env env) g)) (pe_genesis env)
      else Some (target_number (vote_data snap), target_hash (vote_data snap)))"

text \<open>Journal first; only a journalled vote reaches the pool and the network.\<close>

definition publish_vote :: "producer_env \<Rightarrow> vote_envelope \<Rightarrow> producer_state \<Rightarrow> producer_state option" where
  "publish_vote env vote s =
     do {
       (r, l, f) \<leftarrow> write_vote (pe_journal_lib env) (pe_mem_only env) (pe_outcome env) vote (journal s) (journal_file s);
       let s1 = s\<lparr>journal := l, journal_file := f\<rparr>;
       if \<not> is_ok r then Some s1
       else do {
         vs \<leftarrow> put_vote (pe_vote_env env) vote (votes_state s1);
         Some (s1\<lparr>votes_state := vs, broadcast := broadcast s1 @ [vote]\<rparr>)
       }
     }"

definition maybe_vote :: "producer_env \<Rightarrow> header \<Rightarrow> b256 \<Rightarrow> producer_state \<Rightarrow> producer_state option" where
  "maybe_vote env head th s =
     (case ve_snapshot (pe_vote_env env) th of
        None \<Rightarrow> Some s
      | Some snap \<Rightarrow>
          (case pe_bls_public_key env of
             None \<Rightarrow> Some s
           | Some my_vote_addr \<Rightarrow>
               (let (addrs, idx) = cached_vote_addrs snap (voteaddr_index s);
                    s1 = s\<lparr>voteaddr_index := idx\<rparr>
                in if my_vote_addr \<notin> addrs then Some s1
                   else if too_late env snap head then Some s1
                   else
                     (case vote_source env snap of
                        None \<Rightarrow> Some s1
                      | Some (sn, sh) \<Rightarrow>
                          do {
                            allowed \<leftarrow> under_rules (journal s1) sn (number head);
                            if \<not> allowed then Some s1
                            else
                              (case sign_vote env \<lparr>source_number = sn, source_hash = sh,
                                      target_number = number head, target_hash = th\<rparr> of
                                 None \<Rightarrow> Some s1
                               | Some vote \<Rightarrow> publish_vote env vote s1)
                          }))))"

definition maybe_produce_and_broadcast_for_head ::
  "producer_env \<Rightarrow> header \<Rightarrow> producer_state \<Rightarrow> producer_state option" where
  "maybe_produce_and_broadcast_for_head env head s =
     (if \<not> (case pe_mining env of Some c \<Rightarrow> is_mining_enabled c | None \<Rightarrow> False)
      then Some (s\<lparr>blocks_since_mining := 0\<rparr>)
      else if \<not> start_vote s then Some s
      else if \<not> is_luban_active_at_block (pe_spec env) (number head) then Some s
      else if \<not> pe_bls_initialized env then Some s
      else
        (let th = ve_hash (pe_vote_env env) head in
         if map_of (produced_targets s) th \<noteq> None
         then Some (s\<lparr>produced_targets := lru_touch th (produced_targets s)\<rparr>)
         else
           (let s1 = s\<lparr>produced_targets := lru_put PRODUCED_TARGETS_SIZE th () (produced_targets s)\<rparr>;
                threshold = warmup_blocks env;
                cnt = blocks_since_mining s1 + 1
            in if cnt \<le> threshold then Some (s1\<lparr>blocks_since_mining := cnt\<rparr>)
               else maybe_vote env head th (s1\<lparr>blocks_since_mining := threshold\<rparr>))))"

text \<open>A restart of the node: everything but the file and what was sent is gone.\<close>

definition producer_restart :: "journal_lib \<Rightarrow> producer_state \<Rightarrow> producer_state" where
  "producer_restart lib s =
     \<lparr>produced_targets = [], start_vote = True, blocks_since_mining = 0, voteaddr_index = [],
      journal = load_from_disk lib (journal_file s), journal_file = journal_file s,
      votes_state = vote_state_new, broadcast = broadcast s\<rparr>"

definition producer_new :: "journal_lib \<Rightarrow> producer_state" where
  "producer_new lib =
     \<lparr>produced_targets = [], start_vote = True, blocks_since_mining = 0, voteaddr_index = [],
      journal = load_from_disk lib [], journal_file = [], votes_state = vote_state_new, broadcast = []\<rparr>"

section \<open>Runs\<close>

text \<open>
  A validator over its life: heads arrive, the downloader pauses and resumes, the node restarts.
  All environments see the chain \<open>c\<close>, whose snapshots are stored under their own block hash, and
  appends to the journal succeed or fail before anything is written.
\<close>

definition producer_views :: "vote_chain \<Rightarrow> journal_lib \<Rightarrow> producer_env \<Rightarrow> bool" where
  "producer_views c lib env \<longleftrightarrow> views c (pe_vote_env env) \<and> pe_journal_lib env = lib \<and> \<not> pe_mem_only env \<and>
     (pe_outcome env = Appended \<or> pe_outcome env = OpenFailed) \<and>
     (pe_genesis env = None \<or> pe_genesis env = Some (vc_genesis c))"

definition chain_indexed :: "vote_chain \<Rightarrow> bool" where
  "chain_indexed c \<longleftrightarrow> (\<forall>bh snap. vc_snapshot c bh = Some snap \<longrightarrow> block_hash snap = bh)"

inductive producer_reaches ::
  "vote_chain \<Rightarrow> journal_lib \<Rightarrow> vote_envelope set \<Rightarrow> producer_state \<Rightarrow> bool" for c lib V where
  boot: "producer_reaches c lib V (producer_new lib)"
| new_head: "producer_reaches c lib V s \<Longrightarrow> producer_views c lib env \<Longrightarrow>
    maybe_produce_and_broadcast_for_head env head s = Some s' \<Longrightarrow> set (broadcast s') \<subseteq> V \<Longrightarrow>
    producer_reaches c lib V s'"
| downloader: "producer_reaches c lib V s \<Longrightarrow> producer_reaches c lib V (set_downloader_active active s)"
| reboot: "producer_reaches c lib V s \<Longrightarrow> producer_reaches c lib V (producer_restart lib s)"

definition index_ok :: "vote_chain \<Rightarrow> (b256 \<times> vote_address set) list \<Rightarrow> bool" where
  "index_ok c idx \<longleftrightarrow> hm_wf idx \<and>
     (\<forall>bh addrs. map_of idx bh = Some addrs \<longrightarrow> (\<exists>snap. vc_snapshot c bh = Some snap \<and> addrs = vote_addrs_of snap))"

definition own_vote_ok :: "vote_chain \<Rightarrow> vote_envelope \<Rightarrow> bool" where
  "own_vote_ok c v \<longleftrightarrow>
     justified_source c (target_hash (data v)) = Some (source_number (data v), source_hash (data v)) \<and>
     (\<exists>snap. vc_snapshot c (target_hash (data v)) = Some snap \<and> vote_address v \<in> vote_addrs_of snap)"

definition producer_ok :: "vote_chain \<Rightarrow> journal_lib \<Rightarrow> vote_envelope set \<Rightarrow> producer_state \<Rightarrow> bool" where
  "producer_ok c lib V s \<longleftrightarrow> journal_reaches lib V (journal s) (journal_file s) (broadcast s) \<and>
     index_ok c (voteaddr_index s) \<and> (\<forall>v \<in> set (broadcast s). own_vote_ok c v)"

lemma VOTEADDR_INDEX_Suc: "VOTEADDR_INDEX_SIZE = Suc 1023"
  by (simp add: VOTEADDR_INDEX_SIZE_def)

lemma cached_vote_addrs_ok:
  assumes "index_ok c idx" and "chain_indexed c" and snap: "vc_snapshot c th = Some snap"
    and run: "cached_vote_addrs snap idx = (addrs, idx')"
  shows "addrs = vote_addrs_of snap \<and> index_ok c idx'"
proof -
  have th: "block_hash snap = th" using assms(2) snap by (simp add: chain_indexed_def)
  have wf: "hm_wf idx" using assms(1) by (simp add: index_ok_def)
  show ?thesis
  proof (cases "map_of idx th")
    case None
    then have r: "addrs = vote_addrs_of snap" "idx' = lru_put VOTEADDR_INDEX_SIZE th (vote_addrs_of snap) idx"
      using run by (auto simp: cached_vote_addrs_def th)
    have "hm_wf idx'" unfolding r(2) VOTEADDR_INDEX_Suc using wf by (rule lru.invar_put)
    moreover have "bh = th \<and> a = vote_addrs_of snap \<or> map_of idx bh = Some a" if "map_of idx' bh = Some a" for bh a
      using that unfolding r(2) VOTEADDR_INDEX_Suc by (rule lru.get_put_Some [OF wf])
    ultimately show ?thesis using r(1) snap assms(1) unfolding index_ok_def by blast
  next
    case (Some s)
    then have r: "addrs = s" "idx' = lru_touch th idx" using run by (auto simp: cached_vote_addrs_def th)
    then show ?thesis
      using Some assms(1) snap lru.get_touch [OF wf] lru.invar_touch [OF wf]
      unfolding index_ok_def by (metis option.inject)
  qed
qed

lemma write_vote_refused:
  assumes "write_vote lib False outcome v l f = Some (r, l', f')" and "\<not> is_ok r"
    and "outcome = Appended \<or> outcome = OpenFailed"
  shows "l' = l \<and> f' = f"
proof -
  obtain allowed where "under_rules l (source_number (data v)) (target_number (data v)) = Some allowed"
    using assms(1) by (auto simp: write_vote_def Option.bind_eq_Some_conv)
  then show ?thesis using assms by (auto simp: write_vote_def Let_def is_ok_def split: if_splits)
qed

lemma publish_vote_cases:
  assumes "publish_vote env vote s = Some s'" and "\<not> pe_mem_only env"
  obtains r l f vs where
    "write_vote (pe_journal_lib env) False (pe_outcome env) vote (journal s) (journal_file s) = Some (r, l, f)"
    and "s' = (if is_ok r then s\<lparr>journal := l, journal_file := f, votes_state := vs, broadcast := broadcast s @ [vote]\<rparr>
               else s\<lparr>journal := l, journal_file := f\<rparr>)"
proof -
  obtain r l f where w: "write_vote (pe_journal_lib env) False (pe_outcome env) vote (journal s) (journal_file s) = Some (r, l, f)"
    using assms unfolding publish_vote_def Option.bind_eq_Some_conv by auto
  then have "(if \<not> is_ok r then Some (s\<lparr>journal := l, journal_file := f\<rparr>)
      else Option.bind (put_vote (pe_vote_env env) vote (votes_state s))
        (\<lambda>vs. Some (s\<lparr>journal := l, journal_file := f, votes_state := vs, broadcast := broadcast s @ [vote]\<rparr>))) = Some s'"
    using assms by (cases "is_ok r") (simp_all add: publish_vote_def Let_def)
  then show ?thesis
    by (cases "is_ok r"; cases "put_vote (pe_vote_env env) vote (votes_state s)") (auto intro: that [OF w])
qed

lemma publish_ok:
  assumes "producer_ok c lib V s" and "producer_views c lib env" and "own_vote_ok c vote"
    and run: "publish_vote env vote s = Some s'" and "set (broadcast s') \<subseteq> V"
  shows "producer_ok c lib V s'"
proof -
  have env: "\<not> pe_mem_only env" "pe_journal_lib env = lib" "pe_outcome env = Appended \<or> pe_outcome env = OpenFailed"
    using assms(2) by (simp_all add: producer_views_def)
  have j: "journal_reaches lib V (journal s) (journal_file s) (broadcast s)" using assms(1) by (simp add: producer_ok_def)
  obtain r l f vs where
    w: "write_vote lib False (pe_outcome env) vote (journal s) (journal_file s) = Some (r, l, f)" and
    s': "s' = (if is_ok r then s\<lparr>journal := l, journal_file := f, votes_state := vs, broadcast := broadcast s @ [vote]\<rparr>
               else s\<lparr>journal := l, journal_file := f\<rparr>)"
    using publish_vote_cases [OF run env(1)] unfolding env(2) by blast
  show ?thesis
  proof (cases "is_ok r")
    case True
    then have "vote \<in> V" using assms(5) by (simp add: s')
    from journal_reaches.record_vote [OF j this env(3) w] True assms(1,3) show ?thesis
      by (simp add: producer_ok_def s')
  next
    case False
    from write_vote_refused [OF w False env(3)] False assms(1) show ?thesis by (simp add: producer_ok_def s')
  qed
qed

lemma views_source:
  assumes "producer_views c lib env" and "vc_snapshot c th = Some snap" and "vote_source env snap = Some (sn, sh)"
  shows "justified_source c th = Some (sn, sh)"
  using assms
  by (auto simp: producer_views_def views_def vote_source_def justified_source_def justified_pair_of_def split: if_splits)

lemma maybe_vote_ok:
  assumes ok: "producer_ok c lib V s" and idx: "chain_indexed c" and view: "producer_views c lib env"
    and run: "maybe_vote env head th s = Some s'" and V: "set (broadcast s') \<subseteq> V"
  shows "producer_ok c lib V s'"
proof (cases "\<exists>snap me. ve_snapshot (pe_vote_env env) th = Some snap \<and> pe_bls_public_key env = Some me")
  case False
  then have "s' = s" using run by (auto simp: maybe_vote_def split: option.splits)
  then show ?thesis using ok by simp
next
  case True
  then obtain snap me where snap: "ve_snapshot (pe_vote_env env) th = Some snap" and me: "pe_bls_public_key env = Some me" by blast
  obtain addrs idx' where cached: "cached_vote_addrs snap (voteaddr_index s) = (addrs, idx')" by fastforce
  have csnap: "vc_snapshot c th = Some snap"
    using snap view by (auto simp: producer_views_def views_def map_le_def dom_def)
  have c: "addrs = vote_addrs_of snap" "index_ok c idx'"
    using cached_vote_addrs_ok [OF _ idx csnap cached] ok by (simp_all add: producer_ok_def)
  let ?s1 = "s\<lparr>voteaddr_index := idx'\<rparr>"
  have s1: "producer_ok c lib V ?s1" using ok c(2) by (simp add: producer_ok_def)
  show ?thesis
  proof (cases "s' = ?s1")
    case True
    then show ?thesis using s1 by simp
  next
    case False
    then obtain sn sh vote where "me \<in> addrs" and src: "vote_source env snap = Some (sn, sh)"
      and sign: "sign_vote env \<lparr>source_number = sn, source_hash = sh, target_number = number head, target_hash = th\<rparr> = Some vote"
      and pub: "publish_vote env vote ?s1 = Some s'"
      using run by (auto simp: maybe_vote_def snap me cached Let_def Option.bind_eq_Some_conv split: if_splits option.splits)
    have "vote_address vote = me" "data vote = \<lparr>source_number = sn, source_hash = sh, target_number = number head, target_hash = th\<rparr>"
      using sign me by (auto simp: sign_vote_def Option.bind_eq_Some_conv)
    with \<open>me \<in> addrs\<close> c(1) csnap views_source [OF view csnap src] have "own_vote_ok c vote"
      by (simp add: own_vote_ok_def)
    from publish_ok [OF s1 view this pub V] show ?thesis .
  qed
qed

lemma producer_invariant:
  assumes "producer_reaches c lib V s" and idx: "chain_indexed c"
  shows "producer_ok c lib V s"
  using assms(1)
proof induction
  case boot
  show ?case by (simp add: producer_ok_def producer_new_def journal_reaches.start index_ok_def hm_wf_def)
next
  case (new_head s env head s')
  have upd: "producer_ok c lib V (s\<lparr>produced_targets := a, blocks_since_mining := b\<rparr>)"
    "producer_ok c lib V (s\<lparr>produced_targets := a\<rparr>)" "producer_ok c lib V (s\<lparr>blocks_since_mining := b\<rparr>)" for a b
    using new_head.IH by (simp_all add: producer_ok_def)
  have step: "producer_ok c lib V s'"
    if "maybe_vote env head th (s\<lparr>produced_targets := a, blocks_since_mining := b\<rparr>) = Some s'" for th a b
    using upd(1) idx new_head.hyps(2) that new_head.hyps(4) by (rule maybe_vote_ok)
  from new_head.hyps(3) show ?case
    using upd new_head.IH
    by (auto simp: maybe_produce_and_broadcast_for_head_def Let_def split: if_splits intro: step)
next
  case (downloader s active)
  then show ?case by (simp add: producer_ok_def set_downloader_active_def)
next
  case (reboot s)
  then have "journal_reaches lib V (load_from_disk lib (journal_file s)) (journal_file s) (broadcast s)"
    unfolding producer_ok_def by (blast intro: journal_reaches.restart)
  with reboot show ?case by (simp add: producer_ok_def producer_restart_def index_ok_def hm_wf_def)
qed

section \<open>Sample run\<close>

text \<open>Three heads: the first is used up by the warm-up, the validator votes for the next two.\<close>

definition sample_own_vote :: "u64 \<Rightarrow> vote_envelope" where
  "sample_own_vote n = \<lparr>vote_address = 11, signature = 5, data = sample_vote_data n\<rparr>"

definition sample_lib :: journal_lib where
  "sample_lib =
     \<lparr>print = (\<lambda>v. if target_number (data v) = 10 then ''a'' else ''b''),
      parse = (\<lambda>s. if s = ''a'' then Some (sample_own_vote 10) else if s = ''b'' then Some (sample_own_vote 11) else None)\<rparr>"

definition indexed_chain :: vote_chain where
  "indexed_chain =
     sample_chain\<lparr>vc_snapshot := (\<lambda>bh. Some (sample_voter_snapshot\<lparr>vote_data := sample_vote_data 9, block_hash := bh\<rparr>))\<rparr>"

definition sample_producer :: producer_env where
  "sample_producer =
     \<lparr>pe_mining = Some \<lparr>mining_enabled = True, has_keystore_path = False, has_private_key_hex = True\<rparr>,
      pe_spec = spec sample_parlia, pe_warmup = Some 1, pe_bls_initialized = True, pe_bls_public_key = Some 11,
      pe_bls_sign_hash = (\<lambda>_. Some 5), pe_genesis = None, pe_now_ms = 0, pe_journal_lib = sample_lib,
      pe_mem_only = False, pe_outcome = Appended,
      pe_vote_env = sample_view\<lparr>ve_header_by_hash := (\<lambda>_. None), ve_snapshot := vc_snapshot indexed_chain\<rparr>\<rparr>"

definition sample_production :: "(producer_state \<times> producer_state \<times> producer_state) option" where
  "sample_production =
     do {
       s1 \<leftarrow> maybe_produce_and_broadcast_for_head sample_producer (sample_header 9 1754967088) (producer_new sample_lib);
       s2 \<leftarrow> maybe_produce_and_broadcast_for_head sample_producer (sample_header 10 1754967090) s1;
       s3 \<leftarrow> maybe_produce_and_broadcast_for_head sample_producer (sample_header 11 1754967091) s2;
       Some (s1, s2, s3)
     }"

definition sample_own_votes :: "vote_envelope set" where
  "sample_own_votes = {sample_own_vote 10, sample_own_vote 11}"

lemma sample_production_value:
  "map_option (\<lambda>(s1, s2, s3). (broadcast s1, broadcast s2, broadcast s3)) sample_production =
     Some ([], [sample_own_vote 10], [sample_own_vote 10, sample_own_vote 11])"
  by code_simp

lemma sample_own_votes_ok:
  "chain_indexed indexed_chain" "lib_ok sample_lib sample_own_votes" "bounded_votes sample_own_votes"
  "producer_views indexed_chain sample_lib sample_producer"
  by (simp_all add: chain_indexed_def indexed_chain_def lib_ok_def sample_lib_def sample_own_votes_def sample_own_vote_def
      sample_vote_data_def bounded_votes_def producer_views_def views_def sample_producer_def sample_view_def sample_chain_def
      map_le_def)

lemma sample_production_reaches:
  obtains s where "producer_reaches indexed_chain sample_lib sample_own_votes s"
    and "broadcast s = [sample_own_vote 10, sample_own_vote 11]"
proof -
  obtain s1 s2 s3 where steps: "sample_production = Some (s1, s2, s3)"
    and b: "broadcast s1 = []" "broadcast s2 = [sample_own_vote 10]" "broadcast s3 = [sample_own_vote 10, sample_own_vote 11]"
    using sample_production_value by (cases sample_production) auto
  then have run:
    "maybe_produce_and_broadcast_for_head sample_producer (sample_header 9 1754967088) (producer_new sample_lib) = Some s1"
    "maybe_produce_and_broadcast_for_head sample_producer (sample_header 10 1754967090) s1 = Some s2"
    "maybe_produce_and_broadcast_for_head sample_producer (sample_header 11 1754967091) s2 = Some s3"
    unfolding sample_production_def Option.bind_eq_Some_conv by auto
  note r = producer_reaches.boot [of indexed_chain sample_lib sample_own_votes]
  note r = producer_reaches.new_head [OF r sample_own_votes_ok(4) run(1)]
  note r = producer_reaches.new_head [OF r sample_own_votes_ok(4) run(2)]
  note r = producer_reaches.new_head [OF r sample_own_votes_ok(4) run(3)]
  show ?thesis using r b by (intro that [of s3]) (simp_all add: sample_own_votes_def)
qed

section \<open>Properties\<close>





end
