(* ===== verification/SnapshotProvider.thy ===== *)
theory SnapshotProvider
  imports ExtraData
begin

text \<open>
  The snapshot provider, \<open>src/consensus/parlia/provider.rs\<close>: a bounded cache over the database of
  checkpoints, and the reconstruction of a missing snapshot by walking back to a known ancestor
  and applying the headers in between, exchanging the validators at the boundary block of each
  epoch.

  The record \<open>provider_env\<close> holds the header store, the hash, the decoder of attestations, the
  codec of the database blobs and whether a transaction can be opened for reading and for
  writing. The store is the record \<open>snapshot_store\<close>. The outer option is a panic or a walk that
  does not end.
\<close>

section \<open>State\<close>

record provider_env =
  pv_hash :: "header \<Rightarrow> b256"
  pv_hex :: "bytes \<Rightarrow> string"
  pv_parlia :: parlia
  pv_decode :: "bytes \<Rightarrow> vote_attestation option"
  pv_header :: "b256 \<Rightarrow> header option"
  pv_compress :: "snapshot \<Rightarrow> bytes"
  pv_decompress :: "bytes \<Rightarrow> snapshot option"
  pv_capacity :: nat
  pv_read_ok :: bool
  pv_write_ok :: bool

record snapshot_store =
  cache_by_hash :: "(b256 \<times> snapshot) list"
  db :: "(b256, bytes) hash_map"

section \<open>The base provider\<close>

definition query_db_by_hash :: "provider_env \<Rightarrow> b256 \<Rightarrow> snapshot_store \<Rightarrow> snapshot option" where
  "query_db_by_hash env bh st =
     (if \<not> pv_read_ok env then None else Option.bind (map_of (db st) bh) (pv_decompress env))"

definition persist_to_db :: "provider_env \<Rightarrow> snapshot \<Rightarrow> snapshot_store \<Rightarrow> snapshot_store option" where
  "persist_to_db env s st =
     (if pv_write_ok env then Some (st\<lparr>db := AList.update (block_hash s) (pv_compress env s) (db st)\<rparr>) else None)"

definition insert_cache_only :: "provider_env \<Rightarrow> snapshot \<Rightarrow> snapshot_store \<Rightarrow> snapshot_store" where
  "insert_cache_only env s st =
     st\<lparr>cache_by_hash := lru_put (pv_capacity env) (block_hash s) s (cache_by_hash st)\<rparr>"

definition base_snapshot_by_hash :: "provider_env \<Rightarrow> b256 \<Rightarrow> snapshot_store \<Rightarrow> snapshot option \<times> snapshot_store" where
  "base_snapshot_by_hash env bh st =
     (case map_of (cache_by_hash st) bh of
        Some s \<Rightarrow> (Some s, st\<lparr>cache_by_hash := lru_touch bh (cache_by_hash st)\<rparr>)
      | None \<Rightarrow>
          (case query_db_by_hash env bh st of
             None \<Rightarrow> (None, st)
           | Some s \<Rightarrow> (Some s, st\<lparr>cache_by_hash := lru_put (pv_capacity env) bh s (cache_by_hash st)\<rparr>)))"

definition base_insert :: "provider_env \<Rightarrow> snapshot \<Rightarrow> snapshot_store \<Rightarrow> snapshot_store" where
  "base_insert env s st =
     (let st1 = insert_cache_only env s st in
      if is_multiple_of (block_number s) CHECKPOINT_INTERVAL
      then unwrap_or (persist_to_db env s st1) st1
      else st1)"

section \<open>The rebuilding provider\<close>

fun find_ancient_header :: "provider_env \<Rightarrow> header \<Rightarrow> nat \<Rightarrow> header option" where
  "find_ancient_header env h 0 = Some h"
| "find_ancient_header env h (Suc n) =
     (case pv_header env (parent_hash h) of
        None \<Rightarrow> None
      | Some p \<Rightarrow> if pv_hash env p = parent_hash h then find_ancient_header env p n else None)"

definition genesis_snapshot :: "provider_env \<Rightarrow> header \<Rightarrow> snapshot option option" where
  "genesis_snapshot env g =
     do {
       r \<leftarrow> parse_validators_from_header (pv_parlia env) g (epoch (pv_parlia env));
       case r of
         Inl _ \<Rightarrow> Some None
       | Inr info \<Rightarrow>
           map_option Some
             (snapshot_new (consensus_addrs info) 0 (pv_hash env g) (epoch (pv_parlia env)) (vote_addrs info))
     }"

definition init_genesis_snapshot ::
  "provider_env \<Rightarrow> header \<Rightarrow> snapshot_store \<Rightarrow> (snapshot option \<times> snapshot_store) option" where
  "init_genesis_snapshot env g st =
     do {
       r \<leftarrow> genesis_snapshot env g;
       Some (case r of None \<Rightarrow> (None, st) | Some s \<Rightarrow> (Some s, base_insert env s st))
     }"

text \<open>The validators and the turn length a boundary block brings, read from its checkpoint.\<close>

definition checkpoint_info ::
  "provider_env \<Rightarrow> snapshot \<Rightarrow> header \<Rightarrow> (address list \<times> vote_address list option \<times> u8 option) option option" where
  "checkpoint_info env working h =
     (case find_ancient_header env h (unat (miner_history_check_len working)) of
        None \<Rightarrow> Some None
      | Some checkpoint \<Rightarrow>
          do {
            parsed \<leftarrow> parse_validators_from_header (pv_parlia env) checkpoint (epoch_num working);
            turn \<leftarrow> get_turn_length_from_header (pv_parlia env) checkpoint (epoch_num working);
            Some (case (turn, parsed) of
                (Inr t, Inr info) \<Rightarrow> Some (consensus_addrs info, vote_addrs info, t)
              | _ \<Rightarrow> None)
          })"

definition is_epoch_boundary :: "snapshot \<Rightarrow> header \<Rightarrow> bool" where
  "is_epoch_boundary working h \<longleftrightarrow>
     number h > 0 \<and> number h mod epoch_num working = miner_history_check_len working"

definition rebuild_step :: "provider_env \<Rightarrow> snapshot \<Rightarrow> header \<Rightarrow> snapshot option option" where
  "rebuild_step env working h =
     (if epoch_num working = 0 then None
      else do {
        info \<leftarrow> (if is_epoch_boundary working h then checkpoint_info env working h else Some (Some ([], None, None)));
        case info of
          None \<Rightarrow> Some None
        | Some (new_validators, va, turn) \<Rightarrow>
            do {
              att \<leftarrow> get_vote_attestation_from_header (pv_decode env) (pv_parlia env) h (epoch_num working);
              case att of
                Inl _ \<Rightarrow> Some None
              | Inr attestation \<Rightarrow>
                  snap_apply (pv_hash env) (pv_hex env) (spec (pv_parlia env)) working (beneficiary h) h
                    new_validators va attestation turn
            }
      })"

partial_function (option) walk_back ::
  "provider_env \<Rightarrow> b256 \<Rightarrow> b256 list \<Rightarrow> snapshot_store \<Rightarrow>
     (snapshot option \<times> b256 list \<times> snapshot_store) option" where
  "walk_back env parent_block_hash rebuild st =
     (case pv_header env parent_block_hash of
        None \<Rightarrow> Some (None, rebuild, st)
      | Some parent \<Rightarrow>
          do {
            st1 \<leftarrow> (if number parent = 0 then map_option snd (init_genesis_snapshot env parent st) else Some st);
            case base_snapshot_by_hash env parent_block_hash st1 of
              (Some s, st2) \<Rightarrow> Some (Some s, rebuild, st2)
            | (None, st2) \<Rightarrow> walk_back env (parent_hash parent) (rebuild @ [parent_block_hash]) st2
          })"

declare walk_back.simps [code]

fun rebuild_loop ::
  "provider_env \<Rightarrow> b256 list \<Rightarrow> snapshot \<Rightarrow> snapshot_store \<Rightarrow> (snapshot option \<times> snapshot_store) option" where
  "rebuild_loop env [] working st = Some (Some working, st)"
| "rebuild_loop env (bh # hashes) working st =
     (case pv_header env bh of
        None \<Rightarrow> Some (None, st)
      | Some h \<Rightarrow>
          do {
            r \<leftarrow> rebuild_step env working h;
            case r of
              None \<Rightarrow> Some (None, st)
            | Some s \<Rightarrow>
                (let st1 = insert_cache_only env s st in
                 if is_multiple_of (block_number s) CHECKPOINT_INTERVAL
                 then (case persist_to_db env s st1 of
                         None \<Rightarrow> Some (None, st1)
                       | Some st2 \<Rightarrow> rebuild_loop env hashes s st2)
                 else rebuild_loop env hashes s st1)
          })"

definition try_rebuild ::
  "provider_env \<Rightarrow> header \<Rightarrow> snapshot_store \<Rightarrow> (snapshot option \<times> snapshot_store) option" where
  "try_rebuild env target st =
     do {
       (base, rebuild, st1) \<leftarrow> walk_back env (parent_hash target) [pv_hash env target] st;
       case base of
         None \<Rightarrow> Some (None, st1)
       | Some s \<Rightarrow> rebuild_loop env (rev rebuild) s st1
     }"

definition snapshot_by_hash ::
  "provider_env \<Rightarrow> b256 \<Rightarrow> snapshot_store \<Rightarrow> (snapshot option \<times> snapshot_store) option" where
  "snapshot_by_hash env bh st =
     (case base_snapshot_by_hash env bh st of
        (Some s, st1) \<Rightarrow> Some (Some s, st1)
      | (None, st1) \<Rightarrow>
          (case pv_header env bh of
             None \<Rightarrow> Some (None, st1)
           | Some target \<Rightarrow>
               if number target = 0 then init_genesis_snapshot env target st1
               else do {
                 (snap, st2) \<leftarrow> try_rebuild env target st1;
                 Some (snap, case snap of None \<Rightarrow> st2 | Some s \<Rightarrow> base_insert env s st2)
               }))"

section \<open>The snapshot of a block\<close>

text \<open>
  The specification, without cache and database: the snapshot of the genesis block, and that of
  every other block from its parent's.
\<close>

inductive canonical :: "provider_env \<Rightarrow> b256 \<Rightarrow> snapshot \<Rightarrow> bool" for env where
  genesis: "pv_header env bh = Some g \<Longrightarrow> number g = 0 \<Longrightarrow> genesis_snapshot env g = Some (Some s) \<Longrightarrow>
    canonical env bh s"
| child: "pv_header env bh = Some h \<Longrightarrow> number h \<noteq> 0 \<Longrightarrow> canonical env (parent_hash h) s \<Longrightarrow>
    rebuild_step env s h = Some (Some s') \<Longrightarrow> canonical env bh s'"

text \<open>
  What the provider relies on: headers are stored under their hash, block numbers stay below
  \<open>2^64 - 1\<close>, blobs decode to what was encoded, and the cache has room for an entry.
\<close>

definition provider_env_ok :: "provider_env \<Rightarrow> bool" where
  "provider_env_ok env \<longleftrightarrow>
     (\<forall>bh h. pv_header env bh = Some h \<longrightarrow> pv_hash env h = bh \<and> number h \<noteq> u64_max) \<and>
     (\<forall>bh s. canonical env bh s \<longrightarrow> pv_decompress env (pv_compress env s) = Some s) \<and> pv_capacity env > 0"

definition store_ok :: "provider_env \<Rightarrow> snapshot_store \<Rightarrow> bool" where
  "store_ok env st \<longleftrightarrow> hm_wf (cache_by_hash st) \<and>
     (\<forall>bh s. map_of (cache_by_hash st) bh = Some s \<longrightarrow> canonical env bh s) \<and>
     (\<forall>bh raw s. map_of (db st) bh = Some raw \<and> pv_decompress env raw = Some s \<longrightarrow> canonical env bh s)"

section \<open>Facts\<close>

lemma u64_max_eq: "u64_max = - 1"
  by (simp add: u64_max_def)

lemma snapshot_new_fields:
  "snapshot_new vs bn bh e va = Some s \<Longrightarrow> block_hash s = bh \<and> block_number s = bn"
  by (auto simp: snapshot_new_def Let_def split: bind_splits)

lemma snap_apply_fields:
  assumes "snap_apply hash hex cs s v h nv va att nt = Some (Some s')"
  shows "block_hash s' = hash h" and "block_number s' = number h" and "block_number s + 1 = number h"
proof -
  have "block_hash t' = block_hash t" if "change_validators x b k n nv va nt t = Some t'" for x b k n t t'
    using that by (auto simp: change_validators_def Let_def clear_miner_history_def clean_fork_hashes_def
        split: bind_splits option.splits)
  with assms show "block_hash s' = hash h" by (auto elim!: snap_applyE simp: Let_def split: if_splits)
  show "block_number s' = number h" using assms by (rule snap_apply_vote_data(2))
  show "block_number s + 1 = number h" using assms by (rule snap_applyE)
qed

lemma rebuild_step_apply:
  assumes "rebuild_step env s h = Some (Some s')"
  obtains nv va att nt where
    "snap_apply (pv_hash env) (pv_hex env) (spec (pv_parlia env)) s (beneficiary h) h nv va att nt = Some (Some s')"
    and "nv \<noteq> [] \<or> nt \<noteq> None \<Longrightarrow> is_epoch_boundary s h"
proof -
  let ?info = "if is_epoch_boundary s h then checkpoint_info env s h else Some (Some ([], None, None))"
  have e: "epoch_num s \<noteq> 0" using assms by (auto simp: rebuild_step_def)
  obtain info where info: "?info = Some info"
    using assms e by (cases ?info) (simp_all only: rebuild_step_def if_False bind.simps, simp)
  show ?thesis
  proof (cases info)
    case None
    then show ?thesis using assms e info by (simp add: rebuild_step_def)
  next
    case (Some i)
    obtain nv va turn where i: "i = (nv, va, turn)" by (cases i) auto
    let ?att = "get_vote_attestation_from_header (pv_decode env) (pv_parlia env) h (epoch_num s)"
    have "Option.bind ?att (\<lambda>att. case att of Inl _ \<Rightarrow> Some None | Inr attestation \<Rightarrow>
        snap_apply (pv_hash env) (pv_hex env) (spec (pv_parlia env)) s (beneficiary h) h nv va attestation turn)
      = Some (Some s')"
      using assms e info unfolding Some i by (simp add: rebuild_step_def)
    then obtain att where
      "snap_apply (pv_hash env) (pv_hex env) (spec (pv_parlia env)) s (beneficiary h) h nv va att turn = Some (Some s')"
      by (cases ?att) (auto split: sum.splits)
    moreover have "nv \<noteq> [] \<or> turn \<noteq> None \<Longrightarrow> is_epoch_boundary s h" using info Some i by (auto split: if_splits)
    ultimately show ?thesis by (rule that)
  qed
qed

lemma rebuild_step_fields:
  assumes "rebuild_step env s h = Some (Some s')"
  shows "block_hash s' = pv_hash env h" and "block_number s' = number h" and "block_number s + 1 = number h"
  using rebuild_step_apply [OF assms] snap_apply_fields by metis+

lemma genesis_snapshot_fields:
  "genesis_snapshot env g = Some (Some s) \<Longrightarrow> block_hash s = pv_hash env g \<and> block_number s = 0"
  using snapshot_new_fields by (fastforce simp: genesis_snapshot_def split: bind_splits sum.splits)

lemma env_header:
  assumes "provider_env_ok env" and "pv_header env bh = Some h"
  shows "pv_hash env h = bh" and "number h \<noteq> u64_max"
  using assms by (auto simp: provider_env_ok_def)

lemma canonical_header:
  assumes "canonical env bh s" and "provider_env_ok env"
  shows "block_hash s = bh \<and> (\<exists>h. pv_header env bh = Some h \<and> block_number s = number h)"
  using assms(1)
proof cases
  case (genesis g)
  then show ?thesis using genesis_snapshot_fields env_header [OF assms(2)] by metis
next
  case (child h s0)
  then show ?thesis using rebuild_step_fields env_header [OF assms(2)] by metis
qed

lemma canonical_unique:
  assumes "canonical env bh s" and "canonical env bh s'"
  shows "s' = s"
  using assms
proof (induction arbitrary: s' rule: canonical.induct)
  case (genesis bh g s)
  from genesis.prems show ?case by cases (use genesis.hyps in auto)
next
  case (child bh h s0 s)
  from child.prems show ?case
  proof cases
    case (child h' t)
    then have "h' = h" using child.hyps(1) \<open>pv_header env bh = Some h\<close> by simp
    then show ?thesis using child \<open>rebuild_step env s0 h = Some (Some s)\<close> child.IH by force
  qed (use \<open>pv_header env bh = Some h\<close> \<open>number h \<noteq> 0\<close> in auto)
qed

section \<open>Cache and database are transparent\<close>

lemma cache_put_ok:
  assumes "store_ok env st" and "provider_env_ok env" and "canonical env bh s"
  shows "store_ok env (st\<lparr>cache_by_hash := lru_put (pv_capacity env) bh s (cache_by_hash st)\<rparr>)"
proof -
  obtain cap where cap: "pv_capacity env = Suc cap"
    using assms(2) by (auto simp: provider_env_ok_def gr0_conv_Suc)
  have wf: "hm_wf (cache_by_hash st)" using assms(1) by (simp add: store_ok_def)
  have "canonical env k t" if "map_of (lru_put (Suc cap) bh s (cache_by_hash st)) k = Some t" for k t
    using lru.get_put_Some [OF wf that] assms(1,3) by (auto simp: store_ok_def)
  moreover have "hm_wf (lru_put (Suc cap) bh s (cache_by_hash st))" using wf by (rule lru.invar_put)
  ultimately show ?thesis using assms(1) by (auto simp: store_ok_def cap)
qed

lemma insert_cache_only_ok:
  assumes "store_ok env st" and "provider_env_ok env" and "canonical env (block_hash s) s"
  shows "store_ok env (insert_cache_only env s st)"
  using cache_put_ok [OF assms] by (simp add: insert_cache_only_def)

lemma persist_ok:
  assumes "store_ok env st" and "provider_env_ok env" and "canonical env (block_hash s) s"
    and "persist_to_db env s st = Some st'"
  shows "store_ok env st'"
  using assms by (auto simp: persist_to_db_def store_ok_def provider_env_ok_def update_conv' split: if_splits)

lemma base_insert_ok:
  assumes "store_ok env st" and "provider_env_ok env" and "canonical env (block_hash s) s"
  shows "store_ok env (base_insert env s st)"
  using insert_cache_only_ok [OF assms] persist_ok [OF _ assms(2,3)]
  by (cases "persist_to_db env s (insert_cache_only env s st)") (simp_all add: base_insert_def Let_def unwrap_or_def)

lemma base_insert_cached:
  assumes "provider_env_ok env" and "store_ok env st"
  shows "map_of (cache_by_hash (base_insert env s st)) (block_hash s) = Some s"
proof -
  obtain cap where cap: "pv_capacity env = Suc cap"
    using assms(1) by (auto simp: provider_env_ok_def gr0_conv_Suc)
  have "map_of (lru_put (Suc cap) (block_hash s) s (cache_by_hash st)) (block_hash s) = Some s"
    using assms(2) by (intro lru.get_put_same) (simp add: store_ok_def)
  then show ?thesis
    by (simp add: base_insert_def insert_cache_only_def persist_to_db_def Let_def unwrap_or_def cap)
qed

lemma base_lookup_ok:
  assumes "store_ok env st" and "provider_env_ok env" and "base_snapshot_by_hash env bh st = (r, st')"
  shows "store_ok env st'" and "r = Some s \<Longrightarrow> canonical env bh s"
proof -
  have wf: "hm_wf (cache_by_hash st)" using assms(1) by (simp add: store_ok_def)
  have touch: "store_ok env (st\<lparr>cache_by_hash := lru_touch bh (cache_by_hash st)\<rparr>)"
    using assms(1) lru.get_touch [OF wf] lru.invar_touch [OF wf] by (auto simp: store_ok_def)
  have db: "canonical env bh t" if "query_db_by_hash env bh st = Some t" for t
    using that assms(1) by (auto simp: query_db_by_hash_def store_ok_def Option.bind_eq_Some_conv split: if_splits)
  have cache: "canonical env bh t" if "map_of (cache_by_hash st) bh = Some t" for t
    using that assms(1) by (simp add: store_ok_def)
  show "store_ok env st'"
    using assms touch db cache_put_ok [OF assms(1,2) db]
    by (auto simp: base_snapshot_by_hash_def split: option.splits)
  show "r = Some s \<Longrightarrow> canonical env bh s"
    using assms(3) db cache by (auto simp: base_snapshot_by_hash_def split: option.splits)
qed

lemma init_genesis_ok:
  assumes "store_ok env st" and "provider_env_ok env" and "pv_header env bh = Some g" and "number g = 0"
    and "init_genesis_snapshot env g st = Some (r, st')"
  shows "store_ok env st'" and "r = Some s \<Longrightarrow> canonical env bh s"
proof -
  have can: "canonical env (block_hash t) t \<and> block_hash t = bh" if "genesis_snapshot env g = Some (Some t)" for t
    using that assms(2-4) genesis_snapshot_fields [OF that] env_header(1) [OF assms(2,3)] canonical.genesis by simp
  obtain r' where r': "genesis_snapshot env g = Some r'"
    using assms(5) by (auto simp: init_genesis_snapshot_def Option.bind_eq_Some_conv)
  then have "(case r' of None \<Rightarrow> (None, st) | Some s \<Rightarrow> (Some s, base_insert env s st)) = (r, st')"
    using assms(5) by (simp add: init_genesis_snapshot_def)
  then show "store_ok env st'" "r = Some s \<Longrightarrow> canonical env bh s"
    using can r' base_insert_ok [OF assms(1,2)] assms(1) by (auto split: option.splits)
qed

lemma rebuild_step_canonical:
  assumes "provider_env_ok env" and "canonical env (block_hash w) w" and "pv_header env bh = Some h"
    and "rebuild_step env w h = Some (Some s)"
  shows "canonical env bh s" and "block_hash s = bh"
proof -
  obtain hw where hw: "pv_header env (block_hash w) = Some hw" "block_number w = number hw"
    using canonical_header [OF assms(2,1)] by blast
  have max: "block_number w \<noteq> - 1" using env_header(2) [OF assms(1) hw(1)] hw(2) by (simp add: u64_max_eq)
  have "number h \<noteq> 0"
  proof
    assume "number h = 0"
    then have "block_number w + 1 = 0" using rebuild_step_fields(3) [OF assms(4)] by simp
    then have "block_number w = - 1" by (simp only: eq_neg_iff_add_eq_0)
    with max show False by contradiction
  qed
  moreover have "canonical env (parent_hash h) w"
  proof (rule rebuild_step_apply [OF assms(4)])
    fix nv va att nt
    assume "snap_apply (pv_hash env) (pv_hex env) (spec (pv_parlia env)) w (beneficiary h) h nv va att nt = Some (Some s)"
    then have "block_hash w = parent_hash h" by (rule snap_applyE)
    with assms(2) show ?thesis by simp
  qed
  ultimately show "canonical env bh s" using assms(3,4) by (intro canonical.child [of env bh h w])
  show "block_hash s = bh" using rebuild_step_fields(1) [OF assms(4)] env_header(1) [OF assms(1,3)] by simp
qed

lemma rebuild_loop_ok:
  assumes "rebuild_loop env hs w st = Some (r, st')" and "provider_env_ok env" and "store_ok env st"
    and "canonical env (block_hash w) w"
  shows "store_ok env st' \<and> (\<forall>s. r = Some s \<longrightarrow> canonical env (block_hash s) s \<and> (hs \<noteq> [] \<longrightarrow> block_hash s = last hs))"
  using assms
proof (induction env hs w st rule: rebuild_loop.induct)
  case (2 env bh hashes working st)
  show ?case
  proof (cases "pv_header env bh")
    case None
    then show ?thesis using "2.prems" by auto
  next
    case (Some h)
    obtain q where q: "rebuild_step env working h = Some q"
      using "2.prems"(1) Some by (cases "rebuild_step env working h") simp_all
    show ?thesis
    proof (cases q)
      case None
      then show ?thesis using "2.prems" Some q by auto
    next
      case s: (Some s)
      note can = rebuild_step_canonical [OF "2.prems"(2,4) Some q [unfolded s]]
      let ?st1 = "insert_cache_only env s st"
      have st1: "store_ok env ?st1" using "2.prems"(2,3) can by (intro insert_cache_only_ok) simp_all
      show ?thesis
      proof (cases "is_multiple_of (block_number s) CHECKPOINT_INTERVAL")
        case True
        show ?thesis
        proof (cases "persist_to_db env s ?st1")
          case None
          then show ?thesis using "2.prems"(1) Some q s True st1 by (auto simp: Let_def)
        next
          case p: (Some st2)
          have "rebuild_loop env hashes s st2 = Some (r, st')" using "2.prems"(1) Some q s True p by (simp add: Let_def)
          moreover have "store_ok env st2" using persist_ok [OF st1 "2.prems"(2) _ p] can by simp
          ultimately show ?thesis
            using "2.IH"(1) [OF Some q s refl True p] "2.prems"(2) can by (cases hashes) auto
        qed
      next
        case False
        then have "rebuild_loop env hashes s ?st1 = Some (r, st')" using "2.prems"(1) Some q s by (simp add: Let_def)
        then show ?thesis
          using "2.IH"(2) [OF Some q s refl False] "2.prems"(2) can st1 by (cases hashes) auto
      qed
    qed
  qed
qed auto

lemma walk_back_ok:
  assumes "walk_back env ph rb st = Some y" and "provider_env_ok env" and "store_ok env st"
  shows "case y of (base, rb', st') \<Rightarrow> store_ok env st' \<and> (\<exists>xs. rb' = rb @ xs) \<and>
    (\<forall>s. base = Some s \<longrightarrow> canonical env (block_hash s) s)"
  using assms
proof (induction rule: walk_back.raw_induct [rotated 1, consumes 1, case_names step])
  case (step walk env ph rb st y)
  show ?case
  proof (cases "pv_header env ph")
    case None
    then show ?thesis using step.prems step.hyps by auto
  next
    case (Some parent)
    let ?init = "if number parent = 0 then map_option snd (init_genesis_snapshot env parent st) else Some st"
    obtain st1 where st1: "?init = Some st1" using step.hyps Some by (cases ?init) simp_all
    have ok1: "store_ok env st1"
      using st1 init_genesis_ok(1) [OF step.prems(2,1) Some] step.prems(2) by (auto split: if_splits)
    obtain r st2 where look: "base_snapshot_by_hash env ph st1 = (r, st2)" by fastforce
    note ok2 = base_lookup_ok [OF ok1 step.prems(1) look]
    show ?thesis
    proof (cases r)
      case None
      then have "walk env (parent_hash parent) (rb @ [ph]) st2 = Some y" using step.hyps Some st1 look by simp
      from step.IH [OF this step.prems(1) ok2(1)] show ?thesis by auto
    next
      case s: (Some s)
      have "y = (Some s, rb, st2)" using step.hyps Some st1 look s by simp
      moreover have "canonical env ph s" using ok2(2) s by blast
      ultimately show ?thesis using ok2(1) canonical_header [OF _ step.prems(1)] by auto
    qed
  qed
qed

lemma snapshot_by_hash_sound:
  assumes "snapshot_by_hash env bh st = Some (r, st')" and env: "provider_env_ok env" and st: "store_ok env st"
  shows "store_ok env st' \<and> (\<forall>s. r = Some s \<longrightarrow> canonical env bh s)"
proof -
  obtain q st1 where look: "base_snapshot_by_hash env bh st = (q, st1)" by fastforce
  note ok1 = base_lookup_ok [OF st env look]
  show ?thesis
  proof (cases q)
    case (Some s)
    then show ?thesis using assms(1) look ok1 by (auto simp: snapshot_by_hash_def)
  next
    case None
    show ?thesis
    proof (cases "pv_header env bh")
      case h: None
      then show ?thesis using assms(1) look None ok1 by (auto simp: snapshot_by_hash_def)
    next
      case h: (Some target)
      show ?thesis
      proof (cases "number target = 0")
        case True
        then have "init_genesis_snapshot env target st1 = Some (r, st')"
          using assms(1) look None h by (simp add: snapshot_by_hash_def)
        from init_genesis_ok [OF ok1(1) env h True this] show ?thesis by blast
      next
        case False
        then obtain st2 where run: "try_rebuild env target st1 = Some (r, st2)"
          and st': "st' = (case r of None \<Rightarrow> st2 | Some s \<Rightarrow> base_insert env s st2)"
          using assms(1) look None h by (auto simp: snapshot_by_hash_def Option.bind_eq_Some_conv)
        then obtain base rb st3 where walk: "walk_back env (parent_hash target) [pv_hash env target] st1 = Some (base, rb, st3)"
          and loop: "(case base of None \<Rightarrow> Some (None, st3) | Some s \<Rightarrow> rebuild_loop env (rev rb) s st3) = Some (r, st2)"
          by (auto simp: try_rebuild_def Option.bind_eq_Some_conv)
        obtain xs where w: "store_ok env st3" "rb = pv_hash env target # xs" "\<And>s. base = Some s \<Longrightarrow> canonical env (block_hash s) s"
          using walk_back_ok [OF walk env ok1(1)] by auto
        have l: "store_ok env st2 \<and> (\<forall>s. r = Some s \<longrightarrow> canonical env (block_hash s) s \<and> block_hash s = bh)"
        proof (cases base)
          case None
          then show ?thesis using loop w(1) by auto
        next
          case (Some b)
          then have run: "rebuild_loop env (rev rb) b st3 = Some (r, st2)" using loop by simp
          from rebuild_loop_ok [OF run env w(1) w(3) [OF Some]] env_header(1) [OF env h] show ?thesis
            by (auto simp: w(2))
        qed
        then show ?thesis using base_insert_ok [OF _ env] by (auto simp: st' split: option.splits)
      qed
    qed
  qed
qed

text \<open>The walk finds a base from which the loop replays to any block that has a snapshot.\<close>

definition replays :: "provider_env \<Rightarrow> b256 list \<Rightarrow> snapshot \<Rightarrow> snapshot \<Rightarrow> bool" where
  "replays env xs base s \<longleftrightarrow>
     (\<forall>st hs. store_ok env st \<longrightarrow> (\<exists>st'. store_ok env st' \<and> rebuild_loop env (rev xs @ hs) base st = rebuild_loop env hs s st'))"

lemma replays_Nil: "replays env [] s s"
  by (auto simp: replays_def)

lemma rebuild_loop_step:
  assumes env: "provider_env_ok env" "pv_write_ok env" and st: "store_ok env st" and h: "pv_header env bh = Some h"
    and w: "canonical env (block_hash w) w" and step: "rebuild_step env w h = Some (Some s)"
  shows "\<exists>st'. store_ok env st' \<and> rebuild_loop env (bh # hs) w st = rebuild_loop env hs s st'"
proof -
  note can = rebuild_step_canonical [OF env(1) w h step]
  let ?st1 = "insert_cache_only env s st"
  obtain st2 where p: "persist_to_db env s ?st1 = Some st2" using env(2) by (simp add: persist_to_db_def)
  have st1: "store_ok env ?st1" using st env(1) can by (intro insert_cache_only_ok) simp_all
  moreover have "store_ok env st2" using persist_ok [OF st1 env(1) _ p] can by simp
  moreover have "rebuild_loop env (bh # hs) w st =
      (if is_multiple_of (block_number s) CHECKPOINT_INTERVAL then rebuild_loop env hs s st2 else rebuild_loop env hs s ?st1)"
    using h step p by (simp add: Let_def)
  ultimately show ?thesis by metis
qed

lemma replays_child:
  assumes "provider_env_ok env" "pv_write_ok env" and "pv_header env bh = Some h" and "canonical env (block_hash w) w"
    and "rebuild_step env w h = Some (Some s)" and "replays env xs base w"
  shows "replays env (bh # xs) base s"
  unfolding replays_def
proof (intro allI impI)
  fix st hs
  assume "store_ok env st"
  with assms(6) obtain st1 where st1: "store_ok env st1" "rebuild_loop env (rev xs @ bh # hs) base st = rebuild_loop env (bh # hs) w st1"
    unfolding replays_def by blast
  from rebuild_loop_step [OF assms(1,2) st1(1) assms(3-5), of hs] st1(2)
  show "\<exists>st'. store_ok env st' \<and> rebuild_loop env (rev (bh # xs) @ hs) base st = rebuild_loop env hs s st'" by simp
qed

lemma walk_back_complete:
  assumes "canonical env bh s" and env: "provider_env_ok env" "pv_write_ok env" and "store_ok env st"
  shows "\<exists>base xs st'. walk_back env bh rb st = Some (Some base, rb @ xs, st') \<and> store_ok env st' \<and> replays env xs base s"
  using assms(1,4)
proof (induction arbitrary: rb st rule: canonical.induct)
  case (genesis bh g s)
  let ?st1 = "base_insert env s st"
  have init: "init_genesis_snapshot env g st = Some (Some s, ?st1)"
    using genesis.hyps(3) by (simp add: init_genesis_snapshot_def)
  have st1: "store_ok env ?st1" using init_genesis_ok(1) [OF genesis.prems env(1) genesis.hyps(1,2) init] .
  have "block_hash s = bh" using genesis_snapshot_fields [OF genesis.hyps(3)] env_header(1) [OF env(1) genesis.hyps(1)] by simp
  then have "map_of (cache_by_hash ?st1) bh = Some s" using base_insert_cached [OF env(1) genesis.prems] by metis
  then obtain st2 where look: "base_snapshot_by_hash env bh ?st1 = (Some s, st2)" by (simp add: base_snapshot_by_hash_def)
  have "walk_back env bh rb st = Some (Some s, rb, st2)"
    using genesis.hyps init look by (subst walk_back.simps) simp
  then show ?case using base_lookup_ok(1) [OF st1 env(1) look] replays_Nil by fastforce
next
  case (child bh h w s)
  obtain r st1 where look: "base_snapshot_by_hash env bh st = (r, st1)" by fastforce
  note ok1 = base_lookup_ok [OF child.prems env(1) look]
  have can: "canonical env bh s" using child.hyps(1-4) by (rule canonical.child)
  show ?case
  proof (cases r)
    case (Some t)
    then have "t = s" using ok1(2) canonical_unique [OF can] by blast
    with Some look have "walk_back env bh rb st = Some (Some s, rb, st1)"
      using child.hyps by (subst walk_back.simps) simp
    then show ?thesis using ok1(1) replays_Nil by fastforce
  next
    case None
    obtain base xs st' where ih: "walk_back env (parent_hash h) (rb @ [bh]) st1 = Some (Some base, (rb @ [bh]) @ xs, st')"
      "store_ok env st'" "replays env xs base w"
      using child.IH [OF ok1(1)] by blast
    have "walk_back env bh rb st = Some (Some base, rb @ (bh # xs), st')"
      using child.hyps None look ih(1) by (subst walk_back.simps) simp
    moreover have "canonical env (block_hash w) w" using canonical_header [OF child.hyps(3) env(1)] child.hyps(3) by simp
    from replays_child [OF env child.hyps(1) this child.hyps(4) ih(3)] have "replays env (bh # xs) base s" .
    ultimately show ?thesis using ih(2) by blast
  qed
qed

lemma snapshot_by_hash_complete:
  assumes can: "canonical env bh s" and env: "provider_env_ok env" "pv_write_ok env" and st: "store_ok env st"
  shows "\<exists>st'. snapshot_by_hash env bh st = Some (Some s, st')"
proof -
  obtain q st1 where look: "base_snapshot_by_hash env bh st = (q, st1)" by fastforce
  note ok1 = base_lookup_ok [OF st env(1) look]
  show ?thesis
  proof (cases q)
    case (Some t)
    then have "t = s" using ok1(2) canonical_unique [OF can] by blast
    then show ?thesis using look Some by (simp add: snapshot_by_hash_def)
  next
    case None
    from can show ?thesis
    proof cases
      case (genesis g)
      then show ?thesis using look None by (simp add: snapshot_by_hash_def init_genesis_snapshot_def)
    next
      case (child h w)
      have hash: "pv_hash env h = bh" using env_header(1) [OF env(1) child(1)] .
      obtain base xs st2 where walk: "walk_back env (parent_hash h) [bh] st1 = Some (Some base, [bh] @ xs, st2)"
        "store_ok env st2" "replays env xs base w"
        using walk_back_complete [OF child(3) env ok1(1)] by blast
      have "canonical env (block_hash w) w" using canonical_header [OF child(3) env(1)] child(3) by simp
      from replays_child [OF env child(1) this child(4) walk(3)] walk(2)
      obtain st3 where "rebuild_loop env (rev (bh # xs) @ []) base st2 = rebuild_loop env [] s st3"
        unfolding replays_def by blast
      then have "try_rebuild env h st1 = Some (Some s, st3)" using walk(1) by (simp add: try_rebuild_def hash)
      then show ?thesis using look None child(1,2) by (simp add: snapshot_by_hash_def)
    qed
  qed
qed

section \<open>Sample chain\<close>

definition provider_genesis :: header where
  "provider_genesis = (sample_header 0 0)\<lparr>extra_data := replicate 32 0 @ replicate 19 0 @ [1] @ replicate 65 0\<rparr>"

definition provider_block :: header where
  "provider_block = (sample_header 1 3)\<lparr>beneficiary := 1, parent_hash := 0\<rparr>"

definition plain_provider :: provider_env where
  "plain_provider =
     \<lparr>pv_hash = number_hash, pv_hex = (\<lambda>_. []), pv_parlia = \<lparr>spec = qanet_spec, epoch = 200\<rparr>, pv_decode = (\<lambda>_. None),
      pv_header = (\<lambda>bh. if bh = 0 then Some provider_genesis else if bh = 1 then Some provider_block else None),
      pv_compress = (\<lambda>_. []), pv_decompress = (\<lambda>_. None), pv_capacity = 2, pv_read_ok = True, pv_write_ok = True\<rparr>"

definition provider_snapshot :: "nat \<Rightarrow> snapshot" where
  "provider_snapshot n =
     (let s0 = the (the (genesis_snapshot plain_provider provider_genesis))
      in if n = 0 then s0 else the (the (rebuild_step plain_provider s0 provider_block)))"

definition sample_provider :: provider_env where
  "sample_provider = plain_provider
     \<lparr>pv_compress := (\<lambda>s. if block_number s = 0 then [0] else [1]),
      pv_decompress := (\<lambda>bs. Some (provider_snapshot (if bs = [0] then 0 else 1)))\<rparr>"

lemma provider_steps:
  "genesis_snapshot sample_provider provider_genesis = Some (Some (provider_snapshot 0))"
  "rebuild_step sample_provider (provider_snapshot 0) provider_block = Some (Some (provider_snapshot 1))"
  by code_simp+

lemma provider_headers:
  "pv_header sample_provider bh = Some h \<longleftrightarrow> bh = 0 \<and> h = provider_genesis \<or> bh = 1 \<and> h = provider_block"
  by (auto simp: sample_provider_def plain_provider_def)

lemma provider_canonical:
  "canonical sample_provider 0 (provider_snapshot 0)" "canonical sample_provider 1 (provider_snapshot 1)"
proof -
  show 0: "canonical sample_provider 0 (provider_snapshot 0)"
    by (rule canonical.genesis [OF _ _ provider_steps(1)]) (simp_all add: provider_headers provider_genesis_def sample_header_def)
  show "canonical sample_provider 1 (provider_snapshot 1)"
    by (rule canonical.child [OF _ _ _ provider_steps(2)])
      (simp_all add: provider_headers provider_block_def sample_header_def 0)
qed

lemma sample_provider_ok: "provider_env_ok sample_provider"
proof -
  have "pv_decompress sample_provider (pv_compress sample_provider s) = Some s" if "canonical sample_provider bh s" for bh s
  proof -
    have "\<exists>h. pv_header sample_provider bh = Some h" using that by cases blast+
    then have "bh = 0 \<and> s = provider_snapshot 0 \<or> bh = 1 \<and> s = provider_snapshot 1"
      using canonical_unique [OF that] canonical_unique [OF provider_canonical(1)] canonical_unique [OF provider_canonical(2)] that
      unfolding provider_headers by metis
    moreover have "block_number (provider_snapshot 0) = 0" "block_number (provider_snapshot 1) = number provider_block"
      using genesis_snapshot_fields [OF provider_steps(1)] rebuild_step_fields(2) [OF provider_steps(2)] by simp_all
    ultimately show ?thesis by (auto simp: sample_provider_def provider_block_def sample_header_def)
  qed
  moreover have "pv_hash sample_provider h = bh \<and> number h \<noteq> u64_max" if "pv_header sample_provider bh = Some h" for bh h
    using that unfolding provider_headers
    by (auto simp: sample_provider_def plain_provider_def number_hash_def provider_genesis_def provider_block_def
        sample_header_def u64_max_def)
  ultimately show ?thesis
    by (auto simp: provider_env_ok_def sample_provider_def plain_provider_def)
qed

section \<open>Properties\<close>

text \<open>
  C11. The snapshot provider refines the plain replay of the chain. Cache, database checkpoints and
  rebuilding are invisible: what a query returns is the snapshot obtained by applying all headers
  from genesis, the store keeps only such snapshots, and, when the database can be written, every
  block that has such a snapshot gets it, so that the walk to an ancestor ends.
\<close>

theorem snapshot_provider_refines:
  assumes "provider_env_ok env" and "store_ok env st"
  shows "(\<forall>r st'. snapshot_by_hash env bh st = Some (r, st') \<longrightarrow>
       store_ok env st' \<and> (\<forall>s. r = Some s \<longrightarrow> canonical env bh s)) \<and>
    (\<forall>s. pv_write_ok env \<and> canonical env bh s \<longrightarrow> (\<exists>st'. snapshot_by_hash env bh st = Some (Some s, st')))"
  using snapshot_by_hash_sound [OF _ assms] snapshot_by_hash_complete [OF _ assms(1) _ assms(2)] by blast

theorem snapshot_provider_refines_witness:
  "\<exists>st'. snapshot_by_hash sample_provider 1 \<lparr>cache_by_hash = [], db = []\<rparr> = Some (Some (provider_snapshot 1), st') \<and>
     store_ok sample_provider st'"
proof -
  have st: "store_ok sample_provider \<lparr>cache_by_hash = [], db = []\<rparr>" by (simp add: store_ok_def hm_wf_def)
  have w: "pv_write_ok sample_provider" by (simp add: sample_provider_def plain_provider_def)
  from snapshot_provider_refines [OF sample_provider_ok st] w provider_canonical(2) show ?thesis by blast
qed

end
