(* ===== verification/Spec2Isabelle.thy ===== *)
theory Spec2Isabelle
  imports ForkChoice Sealing VotePoolRules VoteProducer SnapshotProvider
begin

text \<open>
  A verification of the consensus core of reth-bsc, the Rust client of BNB Smart Chain.

  \<^bold>\<open>The program.\<close> A chain is extended by a known set of validators (Parlia). The set changes at the
  boundary block of an epoch; within an epoch the validators take turns, and a validator that
  signed too recently may not sign again. Validators vote on blocks; two thirds of the votes form
  an attestation, carried in the extra data of a header, which justifies its target and finalizes
  its source. The parts of the program and the theories that model them, in the order of their
  dependencies:

  \<^item> \<open>Prelude\<close>, \<open>Collections\<close>: Rust's integers, results, panics and containers. Machine integers are
    words and wrap, as in a release build; \<open>usize\<close> is \<^typ>\<open>nat\<close>. A \<open>Result\<close> is a sum, its error on
    the left. A panic and a loop that does not end are the outer \<^term>\<open>None\<close>. A \<open>BTreeMap\<close> is the
    sorted list of its entries, a \<open>HashMap\<close> an association list, an LRU map a list ordered by use.
    The contracts of the containers are the locales \<open>map_spec\<close> and \<open>cache_spec\<close>.
  \<^item> \<open>Hardforks\<close> (\<open>hardforks/bsc.rs\<close>, \<open>hardforks/mod.rs\<close>, \<open>node/evm/config.rs\<close>): the schedules of the
    public networks, activation by block and timestamp, the EVM version of a block. Schedules are
    ordered (locale \<open>fork_schedule\<close>, interpreted for each network).
  \<^item> \<open>Headers\<close> (\<open>parlia/util.rs\<close>, \<open>vote.rs\<close>, \<open>constants.rs\<close>): headers, votes, millisecond timestamps, the
    content a validator signs. RLP and keccak are parameters.
  \<^item> \<open>GoRng\<close> (\<open>parlia/go_rng.rs\<close>): the port of Go's random numbers and shuffle, for the back-off times.
  \<^item> \<open>Snapshot\<close> (\<open>parlia/snapshot.rs\<close>): the state of consensus at a block. \<open>snap_apply\<close> is the transition of
    one header: turn and window checks, the exchange of the validators, attestation and finality.
    Its lemmas give the well-formedness invariant over every chain, the bound on the blocks of one
    validator in a window, and the finality rule.
  \<^item> \<open>ForkChoice\<close> (\<open>parlia/forkchoice_rule.rs\<close>): whether an incoming head replaces the current one.
  \<^item> \<open>ExtraData\<close> (\<open>parlia/consensus.rs\<close>): writers, readers and length checks of the extra data, and
    the recovery of a signer through a cache.
  \<^item> \<open>Timing\<close> (\<open>parlia/consensus.rs\<close>, \<open>ramanujan_fork.rs\<close>): back-off, mining delay and block times.
  \<^item> \<open>HeaderValidation\<close> (\<open>parlia/validation.rs\<close>, \<open>eip4844/\<close>): the checks of headers and of blocks before
    execution, and the blob gas rules.
  \<^item> \<open>Attestation\<close> (\<open>parlia/consensus.rs\<close>): a proposer's search for a target and the aggregation of votes.
  \<^item> \<open>Sealing\<close> (\<open>node/miner/util.rs\<close>, \<open>signer.rs\<close>): the header of a new block, from the attributes of
    the payload to the signature; refreshing it with later votes.
  \<^item> \<open>VoteMonitor\<close> (\<open>parlia/malicious_vote_monitor.rs\<close>): the detection of conflicting votes.
  \<^item> \<open>VotePool\<close> (\<open>parlia/vote_pool.rs\<close>) with \<open>VotePoolSafety\<close>, \<open>VotePoolRuns\<close>, \<open>VotePoolRules\<close>: admission of
    votes for known and for future blocks, promotion, pruning and the notification of finality.
    The locks of the pool make each handler a sequence of atomic phases; \<open>pool_reaches\<close> interleaves
    the phases of all handlers in any order, and the invariants hold for every state it reaches.
  \<^item> \<open>VoteJournal\<close> (\<open>node/vote_journal.rs\<close>) and \<open>VoteProducer\<close> (\<open>node/vote_producer.rs\<close>): a validator's
    own votes, with failing writes and restarts as steps of \<open>producer_reaches\<close>.
  \<^item> \<open>SnapshotProvider\<close> (\<open>parlia/provider.rs\<close>): cache, checkpoints and reconstruction of snapshots. It
    refines the relation \<open>canonical\<close>, which applies all headers from genesis.

  \<^bold>\<open>How the parts interact.\<close> A header's extra data (\<open>ExtraData\<close>) gives the validators and the
  attestation that \<open>SnapshotProvider\<close> feeds to \<open>snap_apply\<close>. The snapshot decides turns (\<open>Timing\<close>), the
  justified block that \<open>ForkChoice\<close> compares, the votes \<open>VotePool\<close> admits and the source \<open>VoteProducer\<close>
  votes from. \<open>Attestation\<close> turns the votes fetched from the pool into the extra data of the next
  header, which \<open>Sealing\<close> signs and \<open>HeaderValidation\<close> checks.

  \<^bold>\<open>Parameters and hypotheses.\<close> Code of other crates is an argument: keccak, RLP, BLS and ECDSA,
  the header store, the clock, the coin of a tie. A theorem that needs a fact about one of them
  has it as a premise (for example that recovery inverts signing, or that a blob decodes to what
  was encoded), and its witness instantiates the argument with a function that has the property.

  \<^bold>\<open>Loops.\<close> Loops over a list are structural recursions. A loop whose end is not evident (the
  rejection sampling of \<open>GoRng\<close>, the scans and walks over heights and ancestors) is a
  \<open>partial_function\<close> in the option monad without fuel, so that not ending is the value \<^term>\<open>None\<close>;
  that it ends is a theorem where it does (\<open>put_vote_total\<close>, \<open>snapshot_by_hash_complete\<close>), and that it
  does not is one for \<open>int63n\<close>.

  \<^bold>\<open>Not modelled.\<close> Metrics and logging, which no decision reads. The execution of blocks and system
  transactions (\<open>node/evm\<close>, \<open>evm\<close>), which drives revm, with the precompiles, among them the token
  contracts \<open>cas20\<close>: they run on the journal and the gas schedule of revm, and consensus does not
  read them. The embedded bytecode and ABI tables of the
  system contracts, which are data. The network protocols, the import service and the RPC servers,
  whose content is asynchronous plumbing around the functions above. The workers and the bid
  market of the miner, which run on the payload builder and transaction pool of reth.
\<close>

end
